(* ===== verification/Prelude.thy ===== *)
theory Prelude
  imports Main "HOL-Library.Word" "HOL-Library.AList"
begin

text \<open>
  Shared vocabulary of the development: bytes and big-endian numbers, the
  comparison done by \<^verbatim>\<open>std::memcmp\<close>, finite tables kept as association
  lists, and the sequencing of handlers that may throw.

  \<^item> \<^verbatim>\<open>table_laws\<close> collects the rules that rewrite a lookup in an updated table;
  \<^item> \<^verbatim>\<open>byte_laws\<close> collects the rules on big-endian byte strings.
\<close>

named_theorems table_laws
named_theorems byte_laws

type_synonym byte = "8 word"

section \<open>Big-endian numbers\<close>

definition be_val :: "byte list \<Rightarrow> nat" where
  "be_val bs = foldl (\<lambda>a b. a * 256 + unat b) 0 bs"

primrec be_bytes :: "nat \<Rightarrow> nat \<Rightarrow> byte list" where
  "be_bytes 0 n = []"
| "be_bytes (Suc k) n = be_bytes k (n div 256) @ [of_nat n]"

fun memcmp :: "byte list \<Rightarrow> byte list \<Rightarrow> int" where
  "memcmp (x # xs) (y # ys) = (if x = y then memcmp xs ys else uint x - uint y)"
| "memcmp xs ys = 0"

lemma be_val_Nil [simp]: "be_val [] = 0"
  by (simp add: be_val_def)

lemma be_val_snoc [simp]: "be_val (bs @ [b]) = be_val bs * 256 + unat b"
  by (simp add: be_val_def)

lemma be_val_append [byte_laws]:
  "be_val (xs @ ys) = be_val xs * 256 ^ length ys + be_val ys"
  by (induction ys rule: rev_induct) (simp_all flip: append_assoc add: algebra_simps)

lemma be_val_Cons [byte_laws]:
  "be_val (b # bs) = unat b * 256 ^ length bs + be_val bs"
  using be_val_append [of "[b]" bs] be_val_snoc [of "[]" b] by simp

lemma unat_byte_less: "unat (b :: byte) < 256"
  using unsigned_less [of b, where 'a = nat] by simp

lemma unat_inject: "unat (x :: byte) = unat y \<longleftrightarrow> x = y"
  by (auto intro: unsigned_word_eqI)

lemma be_val_less [byte_laws]: "be_val bs < 256 ^ length bs"
proof (induction bs rule: rev_induct)
  case (snoc b bs)
  have "be_val bs * 256 + unat b < (be_val bs + 1) * 256"
    using unat_byte_less [of b] by simp
  also have "\<dots> \<le> 256 ^ length bs * 256"
    using snoc by (simp only: mult_le_mono1 Suc_leI Suc_eq_plus1 [symmetric])
  finally show ?case by simp
qed simp

lemma length_be_bytes [simp]: "length (be_bytes k n) = k"
  by (induction k arbitrary: n) simp_all

lemma be_val_be_bytes [byte_laws]: "be_val (be_bytes k n) = n mod 256 ^ k"
proof (induction k arbitrary: n)
  case (Suc k)
  have "be_val (be_bytes (Suc k) n) = n div 256 mod 256 ^ k * 256 + n mod 256"
    by (simp add: Suc unat_of_nat)
  also have "\<dots> = n mod (256 * 256 ^ k)"
    by (simp add: mod_mult2_eq algebra_simps)
  finally show ?case by simp
qed simp

lemma be_val_inject [byte_laws]:
  "length xs = length ys \<Longrightarrow> be_val xs = be_val ys \<longleftrightarrow> xs = ys"
proof (induction xs ys rule: rev_induct2)
  case (4 x xs y ys)
  have "be_val xs * 256 + unat x = be_val ys * 256 + unat y \<longleftrightarrow>
        be_val xs = be_val ys \<and> unat x = unat y"
  proof
    assume eq: "be_val xs * 256 + unat x = be_val ys * 256 + unat y"
    have "(be_val xs * 256 + unat x) div 256 = (be_val ys * 256 + unat y) div 256"
      using eq by simp
    then have "be_val xs = be_val ys"
      using unat_byte_less [of x] unat_byte_less [of y] by simp
    then show "be_val xs = be_val ys \<and> unat x = unat y" using eq by simp
  qed simp
  then show ?case using 4 by (simp add: unat_inject)
qed simp_all

lemma be_bytes_be_val [byte_laws]: "be_bytes (length bs) (be_val bs) = bs"
proof -
  have "be_val (be_bytes (length bs) (be_val bs)) = be_val bs"
    by (simp add: be_val_be_bytes be_val_less)
  then show ?thesis by (simp add: be_val_inject)
qed

lemma be_val_Cons_less:
  assumes "length xs = length ys" and "unat x < unat y"
  shows "be_val (x # xs) < be_val (y # ys)"
proof -
  have "be_val (x # xs) < (unat x + 1) * 256 ^ length xs"
    using be_val_less [of xs] by (simp add: be_val_Cons)
  also have "\<dots> \<le> unat y * 256 ^ length xs"
    using assms by (intro mult_le_mono1) simp
  also have "\<dots> \<le> be_val (y # ys)" using assms by (simp add: be_val_Cons)
  finally show ?thesis .
qed

lemma memcmp_self [simp]: "memcmp xs xs = 0"
  by (induction xs) simp_all

lemma memcmp_common [simp]: "memcmp (p @ xs) (p @ ys) = memcmp xs ys"
  by (induction p) simp_all

lemma uint_less_unat: "(uint (x :: byte) < uint (y :: byte)) = (unat x < unat y)"
  using word_less_nat_alt [of x y] word_less_alt [of x y] by simp

lemma memcmp_differ:
  assumes "length xs = length ys" and "xs \<noteq> ys"
  shows "memcmp (xs @ r) (ys @ s) = memcmp xs ys"
  using assms by (induction xs ys rule: list_induct2) auto

text \<open>On strings of the same length, \<^verbatim>\<open>memcmp\<close> orders by the big-endian number.\<close>

lemma memcmp_be_val [byte_laws]:
  assumes "length xs = length ys"
  shows "(memcmp xs ys < 0 \<longleftrightarrow> be_val xs < be_val ys) \<and>
         (memcmp xs ys = 0 \<longleftrightarrow> xs = ys)"
  using assms
proof (induction xs ys rule: list_induct2)
  case (Cons x xs y ys)
  show ?case
  proof (cases "x = y")
    case True
    then show ?thesis using Cons by (simp add: be_val_Cons)
  next
    case False
    then have "unat x \<noteq> unat y" by (simp add: unat_inject)
    then consider "unat x < unat y" | "unat y < unat x" by linarith
    then show ?thesis
    proof cases
      case 1
      then show ?thesis
        using False Cons.hyps be_val_Cons_less [of xs ys x y] by (simp flip: uint_less_unat)
    next
      case 2
      then show ?thesis
        using False Cons.hyps be_val_Cons_less [of ys xs y x] by (simp flip: uint_less_unat)
    qed
  qed
qed simp

section \<open>Tables\<close>

abbreviation tab_get :: "('k \<times> 'v) list \<Rightarrow> 'k \<Rightarrow> 'v option" where
  "tab_get \<equiv> map_of"

abbreviation tab_put :: "'k \<Rightarrow> 'v \<Rightarrow> ('k \<times> 'v) list \<Rightarrow> ('k \<times> 'v) list" where
  "tab_put \<equiv> AList.update"

abbreviation tab_del :: "'k \<Rightarrow> ('k \<times> 'v) list \<Rightarrow> ('k \<times> 'v) list" where
  "tab_del \<equiv> AList.delete"

lemmas tab_get_put [table_laws, simp] = update_conv'
lemmas tab_get_del [table_laws, simp] = delete_conv'

text \<open>Replace the value of a key that is present; a missing key changes nothing.\<close>

definition tab_modify :: "'k \<Rightarrow> ('v \<Rightarrow> 'v) \<Rightarrow> ('k \<times> 'v) list \<Rightarrow> ('k \<times> 'v) list" where
  "tab_modify k f t = map (\<lambda>(k', v). if k' = k then (k', f v) else (k', v)) t"

lemma tab_get_modify [table_laws, simp]:
  "tab_get (tab_modify k f t) k' =
     (if k' = k then map_option f (tab_get t k') else tab_get t k')"
  by (induction t) (auto simp: tab_modify_def)

lemma keys_modify [table_laws, simp]: "map fst (tab_modify k f t) = map fst t"
  by (auto simp: tab_modify_def)

lemma tab_get_None_keys: "tab_get t k = None \<longleftrightarrow> k \<notin> fst ` set t"
  by (simp add: map_of_eq_None_iff)

section \<open>Handlers that may throw\<close>

text \<open>
  A handler that may leave by an exception returns the exception, if any, with
  the state reached so far: what was mutated before the throw stays mutated.
\<close>

type_synonym ('e, 's) outcome = "'e option \<times> 's"

definition ok :: "'s \<Rightarrow> ('e, 's) outcome" where
  "ok s = (None, s)"

definition and_then :: "('e, 's) outcome \<Rightarrow> ('s \<Rightarrow> ('e, 's) outcome) \<Rightarrow> ('e, 's) outcome" where
  "and_then r f = (case fst r of None \<Rightarrow> f (snd r) | Some e \<Rightarrow> r)"

lemma and_then_ok [simp]: "and_then (ok s) f = f s"
  by (simp add: and_then_def ok_def)

lemma and_then_throw [simp]: "and_then (Some e, s) f = (Some e, s)"
  by (simp add: and_then_def)

lemma and_then_None [simp]: "and_then (None, s) f = f s"
  by (simp add: and_then_def)

lemma fst_ok [simp]: "fst (ok s) = None" and snd_ok [simp]: "snd (ok s) = s"
  by (simp_all add: ok_def)

text \<open>An invariant kept by both handlers is kept by their sequence, thrown or not.\<close>

lemma and_then_inv:
  assumes "P (snd r)" and "\<And>s. P s \<Longrightarrow> P (snd (f s))"
  shows "P (snd (and_then r f))"
  using assms by (cases r; cases "fst r") (auto simp: and_then_def split: option.splits)

lemma fold_inv:
  assumes "P s" and "\<And>x s. x \<in> set xs \<Longrightarrow> P s \<Longrightarrow> P (f x s)"
  shows "P (fold f xs s)"
  using assms by (induction xs arbitrary: s) auto

section \<open>Results that may be errors\<close>

text \<open>Sequencing of functions that return a value or throw.\<close>

definition bind_sum :: "'e + 'a \<Rightarrow> ('a \<Rightarrow> 'e + 'b) \<Rightarrow> 'e + 'b" where
  "bind_sum r f = (case r of Inl e \<Rightarrow> Inl e | Inr x \<Rightarrow> f x)"

lemma bind_sum_simps [simp]: "bind_sum (Inl e) f = Inl e" "bind_sum (Inr x) f = f x"
  by (simp_all add: bind_sum_def)

lemma bind_sum_Inr: "bind_sum r f = Inr y \<longleftrightarrow> (\<exists>x. r = Inr x \<and> f x = Inr y)"
  by (cases r) simp_all

end
