(* ===== verification/Tlv.thy ===== *)
theory Tlv
  imports Prelude
begin

unbundle bit_operations_syntax

text \<open>
  The TLV layer of ndn-cxx: variable-size numbers and NonNegativeIntegers
  (\<^verbatim>\<open>encoding/tlv.hpp\<close>, \<^verbatim>\<open>encoding/encoder.cpp\<close>), and blocks with their
  sub-elements (\<^verbatim>\<open>encoding/block.cpp\<close>).  A buffer with a read position is the list
  of the bytes that are still to be read; a \<^verbatim>\<open>uint64_t\<close> is a \<^typ>\<open>64 word\<close>.
\<close>

section \<open>Definitions\<close>

datatype tlv_error =
    EmptyBuffer
  | InsufficientData
  | IllegalType "64 word"
  | InvalidNniLength nat
  | NotEnoughBytes
  | SubElementExceeds nat
  | NoSuchElement nat
  | UnexpectedType nat
  | OutOfOrder nat
  | UnrecognizedCritical nat
  | MissingElement nat
  | EmptyValue nat
  | NotAnAnnouncement
  | NotAnAck
  | NotSigned
  | WrongFormat
  | NumberOutOfRange
  | Malformed nat
  | UnsupportedLocator nat
  | ParametersDigestError
  | InvalidSignatureInfo
  | InvalidHint
  | Terminated

definition isCriticalType :: "nat \<Rightarrow> bool" where
  "isCriticalType t \<longleftrightarrow> t \<le> 31 \<or> t mod 2 = 1"

subsection \<open>Reading numbers\<close>

text \<open>The loop of \<^verbatim>\<open>ReadNumberSlow\<close>: count, remaining input and the number so far.\<close>

fun read_loop :: "nat \<Rightarrow> byte list \<Rightarrow> nat \<Rightarrow> 64 word \<Rightarrow> nat \<times> byte list \<times> 64 word" where
  "read_loop sz [] count number = (count, [], number)"
| "read_loop sz (b # bs) count number =
     (if count < sz
      then read_loop sz bs (Suc count) (push_bit 8 number OR ucast b)
      else (count, b # bs, number))"

definition ReadNumberSlow :: "nat \<Rightarrow> byte list \<Rightarrow> (64 word \<times> byte list) option" where
  "ReadNumberSlow sz bs =
     (case read_loop sz bs 0 0 of
        (count, rest, number) \<Rightarrow> if count = sz then Some (number, rest) else None)"

text \<open>
  \<^verbatim>\<open>ReadNumberFast\<close> copies the bytes into an integer of their width and converts
  it from big-endian order.  Other sizes are unreachable in the source: no caller
  passes one.
\<close>

definition ReadNumberFast :: "nat \<Rightarrow> byte list \<Rightarrow> (64 word \<times> byte list) option" where
  "ReadNumberFast sz bs =
     (if length bs < sz then None
      else if sz = 1 then Some (ucast (hd bs), tl bs)
      else if sz = 2 then Some (ucast (of_nat (be_val (take 2 bs)) :: 16 word), drop 2 bs)
      else if sz = 4 then Some (ucast (of_nat (be_val (take 4 bs)) :: 32 word), drop 4 bs)
      else if sz = 8 then Some (of_nat (be_val (take 8 bs)), drop 8 bs)
      else None)"

fun readVarNumber :: "byte list \<Rightarrow> (64 word \<times> byte list) option" where
  "readVarNumber [] = None"
| "readVarNumber (firstOctet # bs) =
     (if firstOctet < 253 then Some (ucast firstOctet, bs)
      else ReadNumberFast (if firstOctet = 253 then 2 else if firstOctet = 254 then 4 else 8) bs)"

definition readType :: "byte list \<Rightarrow> (64 word \<times> byte list) option" where
  "readType bs =
     (case readVarNumber bs of
        None \<Rightarrow> None
      | Some (number, rest) \<Rightarrow>
          if number = 0 \<or> number > 0xFFFFFFFF then None else Some (number, rest))"

definition readVarNumber_throw :: "byte list \<Rightarrow> tlv_error + (64 word \<times> byte list)" where
  "readVarNumber_throw bs =
     (if bs = [] then Inl EmptyBuffer
      else case readVarNumber bs of None \<Rightarrow> Inl InsufficientData | Some r \<Rightarrow> Inr r)"

definition readType_throw :: "byte list \<Rightarrow> tlv_error + (64 word \<times> byte list)" where
  "readType_throw bs =
     (case readVarNumber_throw bs of
        Inl e \<Rightarrow> Inl e
      | Inr (number, rest) \<Rightarrow>
          if number = 0 \<or> number > 0xFFFFFFFF then Inl (IllegalType number)
          else Inr (number, rest))"

definition readNonNegativeInteger :: "nat \<Rightarrow> byte list \<Rightarrow> tlv_error + (64 word \<times> byte list)" where
  "readNonNegativeInteger sz bs =
     (if sz \<noteq> 1 \<and> sz \<noteq> 2 \<and> sz \<noteq> 4 \<and> sz \<noteq> 8 then Inl (InvalidNniLength sz)
      else case ReadNumberFast sz bs of
             None \<Rightarrow> Inl InsufficientData
           | Some r \<Rightarrow> Inr r)"

subsection \<open>Writing numbers\<close>

definition sizeOfVarNumber :: "64 word \<Rightarrow> nat" where
  "sizeOfVarNumber number =
     (if number < 253 then 1 else if number \<le> 0xFFFF then 3
      else if number \<le> 0xFFFFFFFF then 5 else 9)"

definition writeVarNumber :: "64 word \<Rightarrow> byte list" where
  "writeVarNumber number =
     (if number < 253 then [ucast number]
      else if number \<le> 0xFFFF then 253 # be_bytes 2 (unat (ucast number :: 16 word))
      else if number \<le> 0xFFFFFFFF then 254 # be_bytes 4 (unat (ucast number :: 32 word))
      else 255 # be_bytes 8 (unat number))"

text \<open>
  The encoder writes backwards into a growing buffer; the prepend and the append
  version put the same bytes in front of, or after, what is already there.
\<close>

definition prependVarNumber :: "64 word \<Rightarrow> byte list \<Rightarrow> byte list" where
  "prependVarNumber n buf =
     (if n < 253 then ucast n # buf
      else if n \<le> 0xFFFF then 253 # (be_bytes 2 (unat (ucast n :: 16 word)) @ buf)
      else if n \<le> 0xFFFFFFFF then 254 # (be_bytes 4 (unat (ucast n :: 32 word)) @ buf)
      else 255 # (be_bytes 8 (unat n) @ buf))"

definition appendVarNumber :: "64 word \<Rightarrow> byte list \<Rightarrow> byte list" where
  "appendVarNumber n buf =
     (if n < 253 then buf @ [ucast n]
      else if n \<le> 0xFFFF then (buf @ [253]) @ be_bytes 2 (unat (ucast n :: 16 word))
      else if n \<le> 0xFFFFFFFF then (buf @ [254]) @ be_bytes 4 (unat (ucast n :: 32 word))
      else (buf @ [255]) @ be_bytes 8 (unat n))"

definition sizeOfNonNegativeInteger :: "64 word \<Rightarrow> nat" where
  "sizeOfNonNegativeInteger integer =
     (if integer \<le> 0xFF then 1 else if integer \<le> 0xFFFF then 2
      else if integer \<le> 0xFFFFFFFF then 4 else 8)"

definition writeNonNegativeInteger :: "64 word \<Rightarrow> byte list" where
  "writeNonNegativeInteger integer =
     (if integer \<le> 0xFF then [ucast integer]
      else if integer \<le> 0xFFFF then be_bytes 2 (unat (ucast integer :: 16 word))
      else if integer \<le> 0xFFFFFFFF then be_bytes 4 (unat (ucast integer :: 32 word))
      else be_bytes 8 (unat integer))"

definition prependNonNegativeInteger :: "64 word \<Rightarrow> byte list \<Rightarrow> byte list" where
  "prependNonNegativeInteger n buf =
     (if n \<le> 0xFF then ucast n # buf
      else if n \<le> 0xFFFF then be_bytes 2 (unat (ucast n :: 16 word)) @ buf
      else if n \<le> 0xFFFFFFFF then be_bytes 4 (unat (ucast n :: 32 word)) @ buf
      else be_bytes 8 (unat n) @ buf)"

subsection \<open>Blocks\<close>

text \<open>A block is its TLV-TYPE and the bytes of its TLV-VALUE.\<close>

datatype block = Block (btype: nat) (bvalue: "byte list")

definition block_encode :: "block \<Rightarrow> byte list" where
  "block_encode b =
     prependVarNumber (of_nat (btype b))
       (prependVarNumber (of_nat (length (bvalue b))) (bvalue b))"

text \<open>One TLV from the front of a buffer, with the input after it.\<close>

definition read_tlv :: "byte list \<Rightarrow> tlv_error + (block \<times> byte list)" where
  "read_tlv bs =
     (case readType_throw bs of
        Inl e \<Rightarrow> Inl e
      | Inr (type, r1) \<Rightarrow>
         (case readVarNumber_throw r1 of
            Inl e \<Rightarrow> Inl e
          | Inr (len, pos) \<Rightarrow>
              if unat len > length pos then Inl NotEnoughBytes
              else Inr (Block (unat type) (take (unat len) pos), drop (unat len) pos)))"

definition block_of_span :: "byte list \<Rightarrow> tlv_error + block" where
  "block_of_span bs = (case read_tlv bs of Inl e \<Rightarrow> Inl e | Inr (b, _) \<Rightarrow> Inr b)"

definition block_fromBuffer :: "byte list \<Rightarrow> nat \<Rightarrow> block option" where
  "block_fromBuffer buffer offset =
     (case readType (drop offset buffer) of
        None \<Rightarrow> None
      | Some (type, r1) \<Rightarrow>
         (case readVarNumber r1 of
            None \<Rightarrow> None
          | Some (len, pos) \<Rightarrow>
              if unat len > length pos then None
              else Some (Block (unat type) (take (unat len) pos))))"

lemma ReadNumberFast_shorter:
  "ReadNumberFast sz bs = Some (n, rest) \<Longrightarrow> length rest \<le> length bs"
  by (auto simp: ReadNumberFast_def split: if_splits)

lemma readVarNumber_shorter:
  "readVarNumber bs = Some (n, rest) \<Longrightarrow> length rest < length bs"
  by (cases bs) (auto dest: ReadNumberFast_shorter split: if_splits)

lemma readVarNumber_throw_shorter:
  "readVarNumber_throw bs = Inr (n, rest) \<Longrightarrow> length rest < length bs"
  by (auto simp: readVarNumber_throw_def dest: readVarNumber_shorter
           split: if_splits option.splits)

lemma readType_throw_shorter:
  "readType_throw bs = Inr (n, rest) \<Longrightarrow> length rest < length bs"
  by (auto simp: readType_throw_def dest: readVarNumber_throw_shorter
           split: if_splits sum.splits)

text \<open>
  \<^verbatim>\<open>Block::parse\<close>: the sub-elements of a TLV-VALUE.  The loop ends because every
  element takes at least one byte.
\<close>

function parse_elements :: "byte list \<Rightarrow> tlv_error + block list" where
  "parse_elements bs =
     (if bs = [] then Inr []
      else case readType_throw bs of
             Inl e \<Rightarrow> Inl e
           | Inr (type, r1) \<Rightarrow>
              (case readVarNumber_throw r1 of
                 Inl e \<Rightarrow> Inl e
               | Inr (len, pos) \<Rightarrow>
                   if unat len > length pos then Inl (SubElementExceeds (unat type))
                   else case parse_elements (drop (unat len) pos) of
                          Inl e \<Rightarrow> Inl e
                        | Inr els \<Rightarrow> Inr (Block (unat type) (take (unat len) pos) # els)))"
  by pat_completeness auto
termination
  by (relation "measure length")
     (auto dest!: readType_throw_shorter readVarNumber_throw_shorter)

declare parse_elements.simps [simp del]

definition parse :: "block \<Rightarrow> tlv_error + block list" where
  "parse b = parse_elements (bvalue b)"

definition elements_encode :: "block list \<Rightarrow> byte list" where
  "elements_encode els = foldr (\<lambda>b buf. block_encode b @ buf) els []"

fun find_element :: "nat \<Rightarrow> block list \<Rightarrow> block option" where
  "find_element t [] = None"
| "find_element t (b # bs) = (if btype b = t then Some b else find_element t bs)"

definition get_element :: "nat \<Rightarrow> block list \<Rightarrow> tlv_error + block" where
  "get_element t els =
     (case find_element t els of None \<Rightarrow> Inl (NoSuchElement t) | Some b \<Rightarrow> Inr b)"

definition makeNonNegativeIntegerBlock :: "nat \<Rightarrow> 64 word \<Rightarrow> block" where
  "makeNonNegativeIntegerBlock t v = Block t (prependNonNegativeInteger v [])"

definition block_readNonNegativeInteger :: "block \<Rightarrow> tlv_error + 64 word" where
  "block_readNonNegativeInteger b =
     (case readNonNegativeInteger (length (bvalue b)) (bvalue b) of
        Inl e \<Rightarrow> Inl e | Inr (n, _) \<Rightarrow> Inr n)"

definition block_ok :: "block \<Rightarrow> bool" where
  "block_ok b \<longleftrightarrow> 0 < btype b \<and> btype b < 2 ^ 32 \<and> length (bvalue b) < 2 ^ 64"


section \<open>Numbers\<close>

lemma shift_or_byte: "push_bit 8 n OR ucast (b :: byte) = n * 256 + (ucast b :: 64 word)"
proof -
  have "push_bit 8 n + (ucast b :: 64 word) = push_bit 8 n OR ucast b"
    by (rule disjunctive_add) (auto simp: bit_simps dest: bit_imp_le_length)
  then show ?thesis by (simp add: push_bit_eq_mult)
qed

lemma read_loop_eq:
  "c \<le> sz \<Longrightarrow> read_loop sz bs c n =
     (c + min (sz - c) (length bs), drop (sz - c) bs,
      n * 256 ^ min (sz - c) (length bs) + of_nat (be_val (take (sz - c) bs)))"
proof (induction sz bs c n rule: read_loop.induct)
  case (2 sz b bs c n)
  show ?case
  proof (cases "c < sz")
    case True
    then obtain k where k: "sz - c = Suc k" "sz - Suc c = k" by (metis Suc_diff_Suc)
    have u: "(of_nat (unat b) :: 64 word) = ucast b" by simp
    show ?thesis using 2 True k
      by (simp add: shift_or_byte be_val_Cons algebra_simps u min_def)
  qed (use 2 in simp)
qed simp

lemma ReadNumberSlow_eq:
  "ReadNumberSlow sz bs =
     (if length bs < sz then None else Some (of_nat (be_val (take sz bs)), drop sz bs))"
  by (auto simp: ReadNumberSlow_def read_loop_eq)

lemma ReadNumberFast_eq:
  assumes "sz \<in> {1, 2, 4, 8}"
  shows "ReadNumberFast sz bs =
     (if length bs < sz then None else Some (of_nat (be_val (take sz bs)), drop sz bs))"
proof (cases "length bs < sz")
  case False
  have less: "be_val (take sz bs) < 256 ^ sz"
    using be_val_less [of "take sz bs"] False by simp
  have one: "sz = 1 \<Longrightarrow> take sz bs = [hd bs] \<and> drop sz bs = tl bs"
    using False by (cases bs) auto
  have w: "of_nat (be_val [b]) = (ucast b :: 64 word)" for b
    by (simp add: be_val_Cons)
  have two: "(ucast (of_nat m :: 16 word) :: 64 word) = of_nat m" if "m < 256 ^ 2" for m
    using that by (intro unsigned_word_eqI [where 'a = nat]) (simp add: unat_of_nat unsigned_ucast_eq take_bit_eq_mod)
  have four: "(ucast (of_nat m :: 32 word) :: 64 word) = of_nat m" if "m < 256 ^ 4" for m
    using that by (intro unsigned_word_eqI [where 'a = nat]) (simp add: unat_of_nat unsigned_ucast_eq take_bit_eq_mod)
  show ?thesis
    using assms False less one two four by (auto simp: ReadNumberFast_def w)
qed (simp add: ReadNumberFast_def)

lemma sizeOf_write: "length (writeVarNumber n) = sizeOfVarNumber n"
  by (simp add: writeVarNumber_def sizeOfVarNumber_def)

lemma prepend_is_write: "prependVarNumber n buf = writeVarNumber n @ buf"
  by (simp add: prependVarNumber_def writeVarNumber_def)

lemma append_is_write: "appendVarNumber n buf = buf @ writeVarNumber n"
  by (simp add: appendVarNumber_def writeVarNumber_def)

lemma prepend_nni_is_write: "prependNonNegativeInteger n buf = writeNonNegativeInteger n @ buf"
  by (simp add: prependNonNegativeInteger_def writeNonNegativeInteger_def)

lemma sizeOf_write_nni: "length (writeNonNegativeInteger n) = sizeOfNonNegativeInteger n"
  by (simp add: writeNonNegativeInteger_def sizeOfNonNegativeInteger_def)

lemma unat_ucast_small:
  "unat (n :: 64 word) < 2 ^ 16 \<Longrightarrow> unat (ucast n :: 16 word) = unat n"
  "unat (n :: 64 word) < 2 ^ 32 \<Longrightarrow> unat (ucast n :: 32 word) = unat n"
  "unat (n :: 64 word) < 2 ^ 8 \<Longrightarrow> unat (ucast n :: byte) = unat n"
  by (simp_all add: unsigned_ucast_eq take_bit_eq_mod)

lemma writeVarNumber_nat:
  "writeVarNumber n =
     (let m = unat n in
      if m < 253 then [of_nat m]
      else if m < 2 ^ 16 then 253 # be_bytes 2 m
      else if m < 2 ^ 32 then 254 # be_bytes 4 m
      else 255 # be_bytes 8 m)"
  using unat_ucast_small [of n]
  by (auto simp: writeVarNumber_def Let_def word_less_nat_alt word_le_nat_alt)

lemma of_nat_be_val_be_bytes:
  "unat (n :: 64 word) < 256 ^ k \<Longrightarrow> of_nat (be_val (be_bytes k (unat n))) = n"
  by (simp add: be_val_be_bytes)

lemma byte_less_253:
  "m < 253 \<Longrightarrow> (of_nat m :: byte) < 253 \<and> ucast (of_nat m :: byte) = (of_nat m :: 64 word)"
  by (auto simp: word_less_nat_alt unat_of_nat unsigned_ucast_eq take_bit_eq_mod
           intro!: unsigned_word_eqI [where 'a = nat])

lemma read_write [simp]: "readVarNumber (writeVarNumber n @ rest) = Some (n, rest)"
proof -
  have "unat n < 256 ^ 8" using unsigned_less [of n, where 'a = nat] by simp
  then show ?thesis
    using byte_less_253 [of "unat n"] of_nat_be_val_be_bytes [of n 2]
      of_nat_be_val_be_bytes [of n 4] of_nat_be_val_be_bytes [of n 8]
    by (auto simp: writeVarNumber_nat Let_def ReadNumberFast_eq word_less_nat_alt)
qed

lemma write_nonempty [simp]: "writeVarNumber n \<noteq> []"
  by (simp add: writeVarNumber_def)

lemma read_throw_write [simp]:
  "readVarNumber_throw (writeVarNumber n @ rest) = Inr (n, rest)"
  by (simp add: readVarNumber_throw_def)

lemma readType_throw_write [simp]:
  "0 < n \<Longrightarrow> n \<le> 0xFFFFFFFF \<Longrightarrow> readType_throw (writeVarNumber n @ rest) = Inr (n, rest)"
  by (auto simp: readType_throw_def word_less_nat_alt word_le_nat_alt)

lemma readType_write [simp]:
  "0 < n \<Longrightarrow> n \<le> 0xFFFFFFFF \<Longrightarrow> readType (writeVarNumber n @ rest) = Some (n, rest)"
  by (auto simp: readType_def word_less_nat_alt word_le_nat_alt)

lemma writeNni_nat:
  "writeNonNegativeInteger n = be_bytes (sizeOfNonNegativeInteger n) (unat n)"
  using unat_ucast_small [of n]
  by (auto simp: writeNonNegativeInteger_def sizeOfNonNegativeInteger_def word_le_nat_alt
           intro!: unsigned_word_eqI [where 'a = nat])

lemma sizeOfNni_bound: "unat n < 256 ^ sizeOfNonNegativeInteger n"
  using unsigned_less [of n, where 'a = nat]
  by (auto simp: sizeOfNonNegativeInteger_def word_le_nat_alt)

lemma sizeOfNni_cases: "sizeOfNonNegativeInteger n \<in> {1, 2, 4, 8}"
  by (simp add: sizeOfNonNegativeInteger_def)

lemma read_write_nni:
  "readNonNegativeInteger (length (writeNonNegativeInteger n)) (writeNonNegativeInteger n @ rest) =
     Inr (n, rest)"
proof -
  have "ReadNumberFast (sizeOfNonNegativeInteger n) (writeNonNegativeInteger n @ rest) =
        Some (n, rest)"
    using ReadNumberFast_eq [OF sizeOfNni_cases] sizeOfNni_bound
    by (simp add: writeNni_nat of_nat_be_val_be_bytes)
  then show ?thesis
    using sizeOfNni_cases [of n]
    by (auto simp: readNonNegativeInteger_def sizeOf_write_nni)
qed

text \<open>
  Minimal VAR-NUMBERs are prefix-free and ordered like the numbers: the fact that
  \<^verbatim>\<open>Component::compare\<close> relies on when it compares wire encodings.
\<close>

definition var_bytes :: "nat \<Rightarrow> byte list" where
  "var_bytes m =
     (if m < 253 then [of_nat m] else if m < 2 ^ 16 then 253 # be_bytes 2 m
      else if m < 2 ^ 32 then 254 # be_bytes 4 m else 255 # be_bytes 8 m)"

lemma writeVarNumber_var_bytes: "writeVarNumber n = var_bytes (unat n)"
  by (simp add: writeVarNumber_nat var_bytes_def Let_def)

lemma memcmp_be_bytes:
  assumes "m < l" and "l < 256 ^ k"
  shows "memcmp (be_bytes k m @ r) (be_bytes k l @ s) < 0"
proof -
  have "be_val (be_bytes k m) < be_val (be_bytes k l)"
    using assms by (simp add: be_val_be_bytes)
  then show ?thesis
    using memcmp_be_val [of "be_bytes k m" "be_bytes k l"] by (subst memcmp_differ) auto
qed

lemma uint_of_small: "m < 253 \<Longrightarrow> uint (of_nat m :: byte) = int m"
  by (simp add: unsigned_of_nat take_bit_eq_mod)

lemma of_small_neq:
  assumes "m < 253"
  shows "(of_nat m :: byte) \<noteq> 253" "(of_nat m :: byte) \<noteq> 254" "(of_nat m :: byte) \<noteq> 255"
  using uint_of_small [OF assms] assms by auto

lemma of_small_inj: "m < 253 \<Longrightarrow> l < 253 \<Longrightarrow> (of_nat m :: byte) = of_nat l \<longleftrightarrow> m = l"
  by (metis uint_of_small of_nat_eq_iff)

lemma memcmp_var_bytes:
  assumes "m < l" and "l < 256 ^ 8"
  shows "memcmp (var_bytes m @ r) (var_bytes l @ s) < 0"
  using assms memcmp_be_bytes [of m l 2 r s] memcmp_be_bytes [of m l 4 r s]
    memcmp_be_bytes [of m l 8 r s]
  by (auto simp: var_bytes_def uint_of_small of_small_neq of_small_inj)

section \<open>Blocks\<close>

lemma block_encode_eq:
  "block_encode b = writeVarNumber (of_nat (btype b)) @
     writeVarNumber (of_nat (length (bvalue b))) @ bvalue b"
  by (simp add: block_encode_def prepend_is_write)

lemma elements_encode_simps [simp]:
  "elements_encode [] = []"
  "elements_encode (b # els) = block_encode b @ elements_encode els"
  by (simp_all add: elements_encode_def)

lemma block_ok_type:
  "block_ok b \<Longrightarrow> 0 < (of_nat (btype b) :: 64 word) \<and> (of_nat (btype b) :: 64 word) \<le> 0xFFFFFFFF
     \<and> unat (of_nat (btype b) :: 64 word) = btype b
     \<and> unat (of_nat (length (bvalue b)) :: 64 word) = length (bvalue b)"
  by (auto simp: block_ok_def word_less_nat_alt word_le_nat_alt unat_of_nat)

lemma read_tlv_encode [simp]:
  assumes "block_ok b"
  shows "read_tlv (block_encode b @ rest) = Inr (b, rest)"
  using block_ok_type [OF assms] by (simp add: read_tlv_def block_encode_eq)

lemma fromBuffer_encode:
  assumes "block_ok b"
  shows "block_fromBuffer (pre @ block_encode b @ rest) (length pre) = Some b"
  using block_ok_type [OF assms] by (simp add: block_fromBuffer_def block_encode_eq)

lemma parse_elements_Nil [simp]: "parse_elements [] = Inr []"
  by (subst parse_elements.simps) simp

lemma parse_elements_Cons [simp]:
  assumes "block_ok b"
  shows "parse_elements (block_encode b @ rest) =
    (case parse_elements rest of Inl e \<Rightarrow> Inl e | Inr els \<Rightarrow> Inr (b # els))"
  using block_ok_type [OF assms]
  by (subst parse_elements.simps) (simp add: block_encode_eq split: sum.split)

lemma parse_elements_encode [simp]:
  "list_all block_ok els \<Longrightarrow> parse_elements (elements_encode els) = Inr els"
  by (induction els) simp_all

lemma nni_block_roundtrip [simp]:
  "block_readNonNegativeInteger (makeNonNegativeIntegerBlock t v) = Inr v"
  using read_write_nni [of v "[]"]
  by (simp add: block_readNonNegativeInteger_def makeNonNegativeIntegerBlock_def
                prepend_nni_is_write)

lemma find_element_Some:
  "find_element t els = Some b \<Longrightarrow> b \<in> set els \<and> btype b = t"
  by (induction els) (auto split: if_splits)

lemma find_element_None:
  "find_element t els = None \<longleftrightarrow> (\<forall>b \<in> set els. btype b \<noteq> t)"
  by (induction els) auto

text \<open>Every parsed element lies inside the value: the sizes add up to at most the input.\<close>

lemma parse_elements_size:
  "parse_elements bs = Inr els \<Longrightarrow> (\<Sum>b\<leftarrow>els. length (bvalue b) + 2) \<le> length bs"
proof (induction bs arbitrary: els rule: parse_elements.induct)
  case (1 bs)
  show ?case
  proof (cases "bs = []")
    case False
    then obtain ty r1 len pos els' where
      t: "readType_throw bs = Inr (ty, r1)" and l: "readVarNumber_throw r1 = Inr (len, pos)" and
      le: "unat len \<le> length pos" and rec: "parse_elements (drop (unat len) pos) = Inr els'" and
      els: "els = Block (unat ty) (take (unat len) pos) # els'"
      using 1(2) by (subst (asm) parse_elements.simps)
        (auto split: sum.splits if_splits simp: not_less)
    have IH: "(\<Sum>b\<leftarrow>els'. length (bvalue b) + 2) \<le> length (drop (unat len) pos)"
      using 1(1) [OF False t] l le rec by auto
    show ?thesis
      using IH readType_throw_shorter [OF t] readVarNumber_throw_shorter [OF l] le
      by (simp add: els)
  qed (use 1 in simp)
qed

section \<open>Properties\<close>

text \<open>A VAR-NUMBER that was written is read back, whatever follows it, and takes
  the number of bytes announced by \<^verbatim>\<open>sizeOfVarNumber\<close>.\<close>

theorem readVarNumber_writeVarNumber:
  "readVarNumber (writeVarNumber n @ rest) = Some (n, rest) \<and>
   length (writeVarNumber n) = sizeOfVarNumber n"
  by (simp add: sizeOf_write)

text \<open>A NonNegativeInteger that was written is read back, and its length is the
  one of \<^verbatim>\<open>sizeOfNonNegativeInteger\<close>.\<close>

theorem readNni_writeNni:
  "readNonNegativeInteger (sizeOfNonNegativeInteger n) (writeNonNegativeInteger n @ rest) = Inr (n, rest)"
  using read_write_nni [of n rest] by (simp add: sizeOf_write_nni)

text \<open>The reader for contiguous buffers agrees with the byte-by-byte reference
  loop on every size that is used, also when the input is too short.\<close>

theorem ReadNumberFast_is_Slow:
  assumes "sz \<in> {1, 2, 4, 8}"
  shows "ReadNumberFast sz bs = ReadNumberSlow sz bs"
  using ReadNumberFast_eq [OF assms] ReadNumberSlow_eq by simp

theorem ReadNumberFast_is_Slow_witness:
  "ReadNumberFast 2 [1, 2, 3] = ReadNumberSlow 2 [1, 2, 3]"
  using ReadNumberFast_is_Slow [of 2 "[1, 2, 3]"] by simp

text \<open>C32: parsing the encoding of a sequence of valid elements gives back exactly
  these elements.\<close>

theorem parse_encode:
  assumes "list_all block_ok els"
  shows "parse (Block t (elements_encode els)) = Inr els"
  using assms by (simp add: parse_def)

theorem parse_encode_witness:
  "list_all block_ok [Block 7 [1, 2], Block 300 []] \<and>
   parse (Block 6 (elements_encode [Block 7 [1, 2], Block 300 []])) = Inr [Block 7 [1, 2], Block 300 []]"
  using parse_encode [of "[Block 7 [1, 2], Block 300 []]" 6] by (simp add: block_ok_def)

end
