(* ===== verification/Ndn_Name.thy ===== *)
theory Ndn_Name
  imports Tlv "HOL-Library.List_Lexorder" "HOL-Library.Sublist"
begin

text \<open>
  Names of ndn-cxx: \<^verbatim>\<open>name-component.cpp\<close>, \<^verbatim>\<open>impl/name-component-types.hpp\<close> and
  \<^verbatim>\<open>name.cpp\<close>.  A name is the list of its components.  The canonical order is made
  the \<^verbatim>\<open>linorder\<close> of the component type, so that the order of names is the
  lexicographic order on lists.
\<close>

section \<open>Components\<close>

datatype component = Component (ctype: nat) (cvalue: "byte list")

type_synonym name = "component list"

datatype convention = MARKER | TYPED | EITHER

datatype name_error = InvalidComponentType nat | BadDigestLength | OutOfBounds int | NotANumber

definition DIGEST_SIZE :: nat where
  "DIGEST_SIZE = 32"

definition is_sha256_type :: "nat \<Rightarrow> bool" where
  "is_sha256_type t \<longleftrightarrow> t = 1 \<or> t = 2"

definition ensureValid :: "component \<Rightarrow> name_error + component" where
  "ensureValid c =
     (if ctype c < 1 \<or> ctype c > 65535 then Inl (InvalidComponentType (ctype c))
      else if is_sha256_type (ctype c) \<and> length (cvalue c) \<noteq> DIGEST_SIZE then Inl BadDigestLength
      else Inr c)"

definition valid_component :: "component \<Rightarrow> bool" where
  "valid_component c \<longleftrightarrow> (case ensureValid c of Inl _ \<Rightarrow> False | Inr _ \<Rightarrow> True)"

definition canDecodeMarkerConvention :: "convention \<Rightarrow> bool" where
  "canDecodeMarkerConvention cv \<longleftrightarrow> cv = MARKER \<or> cv = EITHER"

definition canDecodeTypedConvention :: "convention \<Rightarrow> bool" where
  "canDecodeTypedConvention cv \<longleftrightarrow> cv = TYPED \<or> cv = EITHER"

definition isNumber :: "component \<Rightarrow> bool" where
  "isNumber c \<longleftrightarrow> (let n = length (cvalue c) in n = 1 \<or> n = 2 \<or> n = 4 \<or> n = 8)"

definition isNumberWithMarker :: "byte \<Rightarrow> component \<Rightarrow> bool" where
  "isNumberWithMarker marker c \<longleftrightarrow>
     (let n = length (cvalue c) in n = 2 \<or> n = 3 \<or> n = 5 \<or> n = 9) \<and> cvalue c ! 0 = marker"

definition isConvention :: "convention \<Rightarrow> byte \<Rightarrow> nat \<Rightarrow> component \<Rightarrow> bool" where
  "isConvention cv marker t c \<longleftrightarrow>
     (canDecodeMarkerConvention cv \<and> ctype c = 8 \<and> isNumberWithMarker marker c) \<or>
     (canDecodeTypedConvention cv \<and> ctype c = t \<and> isNumber c)"

definition isSegment :: "convention \<Rightarrow> component \<Rightarrow> bool" where
  "isSegment cv c = isConvention cv 0x00 50 c"

definition isByteOffset :: "convention \<Rightarrow> component \<Rightarrow> bool" where
  "isByteOffset cv c = isConvention cv 0xFB 52 c"

definition isVersion :: "convention \<Rightarrow> component \<Rightarrow> bool" where
  "isVersion cv c = isConvention cv 0xFD 54 c"

definition isTimestamp :: "convention \<Rightarrow> component \<Rightarrow> bool" where
  "isTimestamp cv c = isConvention cv 0xFC 56 c"

definition isSequenceNumber :: "convention \<Rightarrow> component \<Rightarrow> bool" where
  "isSequenceNumber cv c = isConvention cv 0xFE 58 c"

definition toNumber :: "component \<Rightarrow> name_error + 64 word" where
  "toNumber c =
     (if \<not> isNumber c then Inl NotANumber
      else case readNonNegativeInteger (length (cvalue c)) (cvalue c) of
             Inl e \<Rightarrow> Inl NotANumber | Inr (n, _) \<Rightarrow> Inr n)"

definition toNumberWithMarker :: "byte \<Rightarrow> component \<Rightarrow> name_error + 64 word" where
  "toNumberWithMarker marker c =
     (if \<not> isNumberWithMarker marker c then Inl NotANumber
      else case readNonNegativeInteger (length (cvalue c) - 1) (tl (cvalue c)) of
             Inl e \<Rightarrow> Inl NotANumber | Inr (n, _) \<Rightarrow> Inr n)"

definition toConvention :: "convention \<Rightarrow> byte \<Rightarrow> nat \<Rightarrow> component \<Rightarrow> name_error + 64 word" where
  "toConvention cv marker t c =
     (if canDecodeMarkerConvention cv \<and> ctype c = 8 then toNumberWithMarker marker c
      else if canDecodeTypedConvention cv \<and> ctype c = t then toNumber c
      else Inl NotANumber)"

definition toSegment :: "convention \<Rightarrow> component \<Rightarrow> name_error + 64 word" where
  "toSegment cv c = toConvention cv 0x00 50 c"

definition toVersion :: "convention \<Rightarrow> component \<Rightarrow> name_error + 64 word" where
  "toVersion cv c = toConvention cv 0xFD 54 c"

definition fromNumber :: "64 word \<Rightarrow> nat \<Rightarrow> component" where
  "fromNumber n t = Component t (prependNonNegativeInteger n [])"

definition fromNumberWithMarker :: "byte \<Rightarrow> 64 word \<Rightarrow> component" where
  "fromNumberWithMarker marker n = Component 8 (marker # prependNonNegativeInteger n [])"

definition fromSegment :: "convention \<Rightarrow> 64 word \<Rightarrow> component" where
  "fromSegment enc n = (if enc = MARKER then fromNumberWithMarker 0x00 n else fromNumber n 50)"

definition fromVersion :: "convention \<Rightarrow> 64 word \<Rightarrow> component" where
  "fromVersion enc n = (if enc = MARKER then fromNumberWithMarker 0xFD n else fromNumber n 54)"

definition isImplicitSha256Digest :: "component \<Rightarrow> bool" where
  "isImplicitSha256Digest c \<longleftrightarrow> ctype c = 1 \<and> length (cvalue c) = DIGEST_SIZE"

definition isParametersSha256Digest :: "component \<Rightarrow> bool" where
  "isParametersSha256Digest c \<longleftrightarrow> ctype c = 2 \<and> length (cvalue c) = DIGEST_SIZE"

definition component_equals :: "component \<Rightarrow> component \<Rightarrow> bool" where
  "component_equals c d \<longleftrightarrow>
     ctype c = ctype d \<and> length (cvalue c) = length (cvalue d) \<and>
     list_all2 (=) (cvalue c) (cvalue d)"

text \<open>
  \<^verbatim>\<open>Component::compare\<close> has two branches: by type, length and value, and by the wire
  encodings when both components carry one.
\<close>

definition compare_fields :: "component \<Rightarrow> component \<Rightarrow> int" where
  "compare_fields c d =
     (let cmpType = int (ctype c) - int (ctype d) in
      if cmpType \<noteq> 0 then cmpType
      else let cmpSize = int (length (cvalue c)) - int (length (cvalue d)) in
      if cmpSize \<noteq> 0 then cmpSize
      else if cvalue c = [] then 0
      else memcmp (cvalue c) (cvalue d))"

definition component_wireEncode :: "component \<Rightarrow> byte list" where
  "component_wireEncode c =
     prependVarNumber (of_nat (ctype c))
       (prependVarNumber (of_nat (length (cvalue c))) (cvalue c))"

definition compare_wire :: "component \<Rightarrow> component \<Rightarrow> int" where
  "compare_wire c d = memcmp (component_wireEncode c) (component_wireEncode d)"

text \<open>The carry loop of \<^verbatim>\<open>getSuccessorImpl\<close>, on the reversed value.\<close>

fun increment_rev :: "byte list \<Rightarrow> bool \<times> byte list" where
  "increment_rev [] = (True, [])"
| "increment_rev (b # bs) =
     (let newValue = b + 1 in
      if newValue = 0 then (let (ov, r) = increment_rev bs in (ov, newValue # r))
      else (False, newValue # bs))"

definition getSuccessorImpl :: "component \<Rightarrow> bool \<times> component" where
  "getSuccessorImpl c =
     (let (isOverflow, r) = increment_rev (rev (cvalue c)) in
      (isOverflow, Component (ctype c) (rev r @ (if isOverflow then [0] else []))))"

definition type_getSuccessor :: "component \<Rightarrow> bool \<times> component" where
  "type_getSuccessor c =
     (if is_sha256_type (ctype c)
      then (let (isExtended, s) = getSuccessorImpl c in (isExtended, if isExtended then c else s))
      else (False, snd (getSuccessorImpl c)))"

definition getMinValue :: "nat \<Rightarrow> byte list" where
  "getMinValue t = (if is_sha256_type t then replicate DIGEST_SIZE 0 else [])"

definition component_getSuccessor :: "component \<Rightarrow> component" where
  "component_getSuccessor c =
     (let (isOverflow, successor) = type_getSuccessor c in
      if \<not> isOverflow then successor
      else Component (ctype c + 1) (getMinValue (ctype c + 1)))"

section \<open>Names\<close>

definition name_get :: "name \<Rightarrow> int \<Rightarrow> component" where
  "name_get n i = n ! nat (if i < 0 then i + int (length n) else i)"

definition name_at :: "name \<Rightarrow> int \<Rightarrow> name_error + component" where
  "name_at n i =
     (let ssize = int (length n) in
      if i < - ssize \<or> i \<ge> ssize then Inl (OutOfBounds i)
      else Inr (n ! nat (if i < 0 then i + ssize else i)))"

definition getSubName :: "name \<Rightarrow> int \<Rightarrow> nat option \<Rightarrow> name" where
  "getSubName n iStartComponent nComponents =
     (let i = (if iStartComponent < 0 then iStartComponent + int (length n) else iStartComponent);
          iStart = (if i < 0 then 0 else nat i);
          iEnd = (case nComponents of None \<Rightarrow> length n | Some k \<Rightarrow> min (length n) (iStart + k))
      in map (\<lambda>j. n ! j) [iStart..<iEnd])"

text \<open>
  A negative count is taken from the end.  One below minus the size wraps around in
  \<^verbatim>\<open>size_t\<close>, and the clamp of \<^verbatim>\<open>getSubName\<close> then keeps the whole name.
\<close>

definition getPrefix :: "name \<Rightarrow> int \<Rightarrow> name" where
  "getPrefix n k =
     (if k < 0
      then (if int (length n) + k < 0 then getSubName n 0 None
            else getSubName n 0 (Some (nat (int (length n) + k))))
      else getSubName n 0 (Some (nat k)))"

definition name_append :: "name \<Rightarrow> name \<Rightarrow> name" where
  "name_append n m = fold (\<lambda>c acc. acc @ [c]) m n"

definition name_getSuccessor :: "name \<Rightarrow> name" where
  "name_getSuccessor n =
     (if n = [] then [Component 1 (replicate DIGEST_SIZE 0)]
      else name_append (getPrefix n (- 1)) [component_getSuccessor (name_get n (- 1))])"

fun isPrefixOf :: "name \<Rightarrow> name \<Rightarrow> bool" where
  "isPrefixOf [] other = True"
| "isPrefixOf (c # n) [] = False"
| "isPrefixOf (c # n) (d # other) = (component_equals c d \<and> isPrefixOf n other)"

text \<open>The loop of \<^verbatim>\<open>Name::compare\<close>; positions (at most the size, as all callers
  pass them) and counts select sublists.\<close>

fun compare_loop :: "name \<Rightarrow> name \<Rightarrow> int" where
  "compare_loop (c # n) (d # m) =
     (let comp = compare_fields c d in if comp \<noteq> 0 then comp else compare_loop n m)"
| "compare_loop n m = int (length n) - int (length m)"

definition name_compare :: "name \<Rightarrow> nat \<Rightarrow> nat \<Rightarrow> name \<Rightarrow> nat \<Rightarrow> nat \<Rightarrow> int" where
  "name_compare n pos1 count1 m pos2 count2 =
     compare_loop (take count1 (drop pos1 n)) (take count2 (drop pos2 m))"

definition name_wireEncode :: "name \<Rightarrow> byte list" where
  "name_wireEncode n =
     (let comps = foldr (\<lambda>c buf. component_wireEncode c @ buf) n [] in
      prependVarNumber 7 (prependVarNumber (of_nat (length comps)) comps))"

definition name_wireDecode :: "block \<Rightarrow> tlv_error + name" where
  "name_wireDecode b =
     (if btype b \<noteq> 7 then Inl (UnexpectedType (btype b))
      else case parse b of
             Inl e \<Rightarrow> Inl e
           | Inr els \<Rightarrow> Inr (map (\<lambda>e. Component (btype e) (bvalue e)) els))"

definition valid_name :: "name \<Rightarrow> bool" where
  "valid_name n \<longleftrightarrow> list_all valid_component n"

section \<open>Canonical order\<close>

text \<open>The canonical order compares type, length and the value as a number.\<close>

definition comp_key :: "component \<Rightarrow> nat \<times> nat \<times> nat" where
  "comp_key c = (ctype c, length (cvalue c), be_val (cvalue c))"

definition key_less :: "nat \<times> nat \<times> nat \<Rightarrow> nat \<times> nat \<times> nat \<Rightarrow> bool" where
  "key_less = (\<lambda>(t, l, v) (t', l', v'). t < t' \<or> t = t' \<and> (l < l' \<or> l = l' \<and> v < v'))"

lemma comp_key_inject: "comp_key c = comp_key d \<longleftrightarrow> c = d"
  by (cases c; cases d) (auto simp: comp_key_def be_val_inject)

lemma compare_fields_less: "compare_fields c d < 0 \<longleftrightarrow> key_less (comp_key c) (comp_key d)"
  using memcmp_be_val [of "cvalue c" "cvalue d"]
  by (auto simp: compare_fields_def Let_def key_less_def comp_key_def)

lemma compare_fields_zero [simp]: "compare_fields c d = 0 \<longleftrightarrow> c = d"
  using memcmp_be_val [of "cvalue c" "cvalue d"]
  by (cases c; cases d) (auto simp: compare_fields_def Let_def)

instantiation component :: linorder
begin

definition less_component :: "component \<Rightarrow> component \<Rightarrow> bool" where
  "less_component c d \<longleftrightarrow> compare_fields c d < 0"

definition less_eq_component :: "component \<Rightarrow> component \<Rightarrow> bool" where
  "less_eq_component c d \<longleftrightarrow> compare_fields c d < 0 \<or> c = d"

instance
proof
  fix c d e :: component
  show "c < d \<longleftrightarrow> c \<le> d \<and> \<not> d \<le> c"
    by (auto simp: less_component_def less_eq_component_def compare_fields_less key_less_def)
  show "c \<le> c" by (simp add: less_eq_component_def)
  show "c \<le> d \<Longrightarrow> d \<le> e \<Longrightarrow> c \<le> e"
    by (auto simp: less_eq_component_def compare_fields_less key_less_def split: prod.splits)
  show "c \<le> d \<Longrightarrow> d \<le> c \<Longrightarrow> c = d"
    by (auto simp: less_eq_component_def compare_fields_less key_less_def split: prod.splits)
  show "c \<le> d \<or> d \<le> c"
    by (auto simp: less_eq_component_def compare_fields_less key_less_def
             simp flip: comp_key_inject split: prod.splits)
qed

end

lemma component_less_key: "c < d \<longleftrightarrow> key_less (comp_key c) (comp_key d)"
  by (simp add: less_component_def compare_fields_less)

lemma component_equals_eq [simp]: "component_equals c d \<longleftrightarrow> c = d"
  by (cases c; cases d) (auto simp: component_equals_def list.rel_eq)

lemma isPrefixOf_prefix: "isPrefixOf n m \<longleftrightarrow> prefix n m"
  by (induction n m rule: isPrefixOf.induct) auto

lemma compare_loop_sign:
  "(compare_loop n m < 0 \<longleftrightarrow> n < m) \<and> (compare_loop n m = 0 \<longleftrightarrow> n = m)"
proof (induction n m rule: compare_loop.induct, goal_cases)
  case (1 c n d m)
  then show ?case
    by (auto simp: Let_def less_component_def [symmetric])
next
  case (2 m)
  then show ?case by (cases m) auto
qed auto

lemma name_append_eq [simp]: "name_append n m = n @ m"
  by (induction m arbitrary: n) (auto simp: name_append_def)

lemma map_nth_upt_take: "k \<le> length n \<Longrightarrow> map ((!) n) [0..<k] = take k n"
  by (metis map_nth take_map take_upt add_0)

lemma getPrefix_take:
  "0 \<le> k \<Longrightarrow> getPrefix n k = take (nat k) n"
  "k < 0 \<Longrightarrow> - k \<le> int (length n) \<Longrightarrow> getPrefix n k = take (length n - nat (- k)) n"
  by (auto simp: getPrefix_def getSubName_def Let_def map_nth_upt_take min_def nat_add_distrib
      nat_diff_distrib' minus_le_iff  intro!: arg_cong2 [where f = take])

lemma getPrefix_butlast: "n \<noteq> [] \<Longrightarrow> getPrefix n (- 1) = butlast n"
  by (subst getPrefix_take) (auto simp: butlast_conv_take Suc_leI)

lemma name_get_last: "n \<noteq> [] \<Longrightarrow> name_get n (- 1) = last n"
  by (auto simp: name_get_def last_conv_nth nat_diff_distrib' )

lemma name_getSuccessor_eq:
  "n \<noteq> [] \<Longrightarrow> name_getSuccessor n = butlast n @ [component_getSuccessor (last n)]"
  by (simp add: name_getSuccessor_def getPrefix_butlast name_get_last)

section \<open>Successors\<close>

lemma byte_plus_one:
  "(b :: byte) + 1 = 0 \<longleftrightarrow> unat b = 255"
  "b + 1 \<noteq> 0 \<Longrightarrow> unat (b + 1) = unat b + 1"
proof -
  have "unat (b + 1) = (unat b + 1) mod 256" by (simp add: unat_word_ariths)
  then have eq: "unat (b + 1) = (if unat b = 255 then 0 else unat b + 1)"
    using unat_byte_less [of b] by auto
  show "b + 1 = 0 \<longleftrightarrow> unat b = 255"
    using eq unat_inject [of "b + 1" 0] by (auto split: if_splits)
  then show "b + 1 \<noteq> 0 \<Longrightarrow> unat (b + 1) = unat b + 1" using eq by simp
qed

lemma increment_rev_props:
  "increment_rev bs = (ov, r) \<Longrightarrow>
     length r = length bs \<and>
     (if ov then r = replicate (length bs) 0 \<and> be_val (rev bs) + 1 = 256 ^ length bs
      else be_val (rev r) = be_val (rev bs) + 1)"
proof (induction bs arbitrary: ov r)
  case (Cons b bs)
  obtain ov' r' where rec: "increment_rev bs = (ov', r')" by fastforce
  show ?case
    using Cons.IH [OF rec] Cons.prems byte_plus_one [of b]
    by (cases "b + 1 = 0") (auto simp: rec Let_def split: if_splits)
qed simp

lemma be_val_zeros [simp]: "be_val (replicate k 0) = 0"
  by (induction k) (simp_all add: be_val_Cons)

lemma successor_key:
  assumes "valid_component c"
  shows "comp_key (component_getSuccessor c) =
    (if be_val (cvalue c) + 1 < 256 ^ length (cvalue c)
     then (ctype c, length (cvalue c), be_val (cvalue c) + 1)
     else if is_sha256_type (ctype c)
     then (ctype c + 1, if ctype c = 1 then DIGEST_SIZE else 0, 0)
     else (ctype c, length (cvalue c) + 1, 0))"
proof -
  obtain ov r where inc: "increment_rev (rev (cvalue c)) = (ov, r)" by fastforce
  have z: "be_val (replicate k 0 @ [0]) = 0" for k by simp
  show ?thesis
    using increment_rev_props [OF inc] be_val_less [of "rev r"]
    by (auto simp: component_getSuccessor_def type_getSuccessor_def getSuccessorImpl_def inc
        comp_key_def getMinValue_def is_sha256_type_def z split: if_splits)
qed

lemma valid_component_alt:
  "valid_component c \<longleftrightarrow> 1 \<le> ctype c \<and> ctype c \<le> 65535 \<and>
     (is_sha256_type (ctype c) \<longrightarrow> length (cvalue c) = DIGEST_SIZE)"
  by (auto simp: valid_component_def ensureValid_def)

lemma successor_greater:
  assumes "valid_component c"
  shows "c < component_getSuccessor c"
  using successor_key [OF assms] be_val_less [of "cvalue c"]
  by (auto simp: component_less_key key_less_def comp_key_def split: if_splits)

text \<open>No valid key lies strictly between a component and its successor.\<close>

lemma no_key_between:
  assumes "key_less (t, l, v) (t', l', v')" and "key_less (t', l', v') k"
    and "l' = l \<Longrightarrow> v' < P" and "t' = 1 \<or> t' = 2 \<Longrightarrow> l' = D" and "t = 1 \<or> t = 2 \<Longrightarrow> l = D"
    and "k = (if v + 1 < P then (t, l, v + 1)
              else if t = 1 \<or> t = 2 then (t + 1, if t = 1 then D else 0, 0)
              else (t, l + 1, 0))"
  shows False
  using assms by (auto simp: key_less_def split: if_splits)

lemma successor_least:
  assumes "valid_component c" and "valid_component x" and "c < x"
  shows "component_getSuccessor c \<le> x"
proof (rule ccontr)
  assume "\<not> component_getSuccessor c \<le> x"
  then have less: "key_less (comp_key x) (comp_key (component_getSuccessor c))"
    by (simp add: component_less_key [symmetric])
  have greater: "key_less (comp_key c) (comp_key x)"
    using assms(3) by (simp add: component_less_key)
  have bound: "length (cvalue x) = length (cvalue c) \<Longrightarrow>
      be_val (cvalue x) < 256 ^ length (cvalue c)"
    using be_val_less [of "cvalue x"] by simp
  show False
    using no_key_between [OF greater [unfolded comp_key_def] less [unfolded comp_key_def [of x]]
        bound _ _ successor_key [OF assms(1), unfolded is_sha256_type_def]] assms(1,2)
    by (auto simp: valid_component_alt is_sha256_type_def)
qed

lemma successor_range_last:
  assumes "valid_component c" and "valid_name n"
  shows "[c] \<le> n \<and> n < [component_getSuccessor c] \<longleftrightarrow> prefix [c] n"
proof (cases n)
  case (Cons x n')
  have "c \<le> x \<and> x < component_getSuccessor c \<longleftrightarrow> x = c"
    using successor_greater [OF assms(1)] successor_least [OF assms(1), of x] assms(2) Cons
    by (cases "c < x") (auto simp: valid_name_def)
  then show ?thesis using Cons successor_greater [OF assms(1)] by auto
qed simp

lemma successor_range:
  assumes "p \<noteq> []" and "valid_name p" and "valid_name n"
  shows "p \<le> n \<and> n < name_getSuccessor p \<longleftrightarrow> prefix p n"
  using assms
proof (induction p arbitrary: n)
  case (Cons c p)
  show ?case
  proof (cases "p = []")
    case True
    then show ?thesis
      using successor_range_last [of c n] Cons.prems
      by (simp add: name_getSuccessor_eq valid_name_def)
  next
    case False
    then show ?thesis
    proof (cases n)
      case (Cons d m)
      then show ?thesis
        using Cons.IH [of m] Cons.prems False by (auto simp: name_getSuccessor_eq valid_name_def)
    qed (simp add: name_getSuccessor_eq)
  qed
qed simp

lemma compare_wire_sign:
  assumes "valid_component c" and "valid_component d"
    and "length (cvalue c) < 2 ^ 64" and "length (cvalue d) < 2 ^ 64"
  shows "compare_wire c d < 0 \<longleftrightarrow> c < d"
proof -
  have enc: "component_wireEncode x = var_bytes (ctype x) @ var_bytes (length (cvalue x)) @ cvalue x"
    if "valid_component x" "length (cvalue x) < 2 ^ 64" for x
    using that by (simp add: component_wireEncode_def prepend_is_write writeVarNumber_var_bytes
        valid_component_alt unat_of_nat)
  have lt: "compare_wire x y < 0"
    if "x < y" "valid_component x" "valid_component y"
      "length (cvalue x) < 2 ^ 64" "length (cvalue y) < 2 ^ 64" for x y
    using that memcmp_var_bytes [of "ctype x" "ctype y"]
      memcmp_var_bytes [of "length (cvalue x)" "length (cvalue y)"]
      memcmp_be_val [of "cvalue x" "cvalue y"]
    by (auto simp: compare_wire_def enc component_less_key key_less_def comp_key_def
        valid_component_alt)
  have anti: "memcmp xs ys < 0 \<Longrightarrow> \<not> memcmp ys xs < 0" for xs ys
    by (induction xs ys rule: memcmp.induct) (auto split: if_splits)
  show ?thesis
    using lt [of c d] lt [of d c] assms anti
    by (metis compare_wire_def linorder_less_linear memcmp_self less_irrefl)
qed

section \<open>Wire format and number conventions\<close>

definition component_fits :: "component \<Rightarrow> bool" where
  "component_fits c \<longleftrightarrow> valid_component c \<and> length (cvalue c) < 2 ^ 64"

lemma component_encode_block:
  "component_wireEncode c = block_encode (Block (ctype c) (cvalue c))"
  by (simp add: component_wireEncode_def block_encode_def)

lemma name_roundtrip:
  assumes "list_all component_fits n"
    and "length (concat (map component_wireEncode n)) < 2 ^ 64"
  shows "\<exists>b. read_tlv (name_wireEncode n @ rest) = Inr (b, rest) \<and> name_wireDecode b = Inr n"
proof -
  define els where "els = map (\<lambda>c. Block (ctype c) (cvalue c)) n"
  have enc: "foldr (\<lambda>c buf. component_wireEncode c @ buf) n [] = elements_encode els"
    unfolding els_def by (induction n) (simp_all add: component_encode_block)
  have len: "length (elements_encode els) < 2 ^ 64"
  proof -
    have "elements_encode els = concat (map component_wireEncode n)"
      unfolding els_def by (induction n) (simp_all add: component_encode_block)
    then show ?thesis using assms(2) by simp
  qed
  have ok: "list_all block_ok els"
    using assms(1) unfolding els_def
    by (auto simp: list_all_iff block_ok_def component_fits_def valid_component_alt)
  have "name_wireEncode n = block_encode (Block 7 (elements_encode els))"
    by (simp add: name_wireEncode_def enc Let_def block_encode_def)
  moreover have "block_ok (Block 7 (elements_encode els))" using len by (simp add: block_ok_def)
  moreover have "name_wireDecode (Block 7 (elements_encode els)) = Inr n"
    using ok by (simp add: name_wireDecode_def parse_def els_def comp_def)
  ultimately show ?thesis by auto
qed

lemma nni_value_length: "length (prependNonNegativeInteger v []) \<in> {1, 2, 4, 8}"
  using sizeOfNni_cases [of v] by (simp add: prepend_nni_is_write sizeOf_write_nni)

lemma read_prepend_nni:
  "readNonNegativeInteger (length (prependNonNegativeInteger v [])) (prependNonNegativeInteger v [])
     = Inr (v, [])"
  using read_write_nni [of v "[]"] by (simp add: prepend_nni_is_write)

lemma ctype_from [simp]:
  "ctype (fromNumber v t) = t" "ctype (fromNumberWithMarker m v) = 8"
  by (simp_all add: fromNumber_def fromNumberWithMarker_def)

lemma toNumber_fromNumber: "toNumber (fromNumber v t) = Inr v"
  using nni_value_length [of v]
  by (auto simp: toNumber_def fromNumber_def isNumber_def read_prepend_nni Let_def)

lemma toNumberWithMarker_from: "toNumberWithMarker m (fromNumberWithMarker m v) = Inr v"
  using nni_value_length [of v]
  by (auto simp: toNumberWithMarker_def fromNumberWithMarker_def isNumberWithMarker_def
      read_prepend_nni Let_def)

section \<open>Properties\<close>



text \<open>\<^verbatim>\<open>Name::compare\<close> is a total order on names: its sign is the lexicographic
  order over the canonical order of components, and zero means equal.\<close>

theorem name_compare_is_order:
  "(name_compare n 0 (length n) m 0 (length m) < 0 \<longleftrightarrow> n < m) \<and>
   (name_compare n 0 (length n) m 0 (length m) = 0 \<longleftrightarrow> n = m)"
  using compare_loop_sign [of n m] by (simp add: name_compare_def)

text \<open>Comparing the wire encodings of two components gives the canonical order,
  as the comment in \<^verbatim>\<open>Component::compare\<close> claims, when both are minimally encoded.\<close>

theorem compare_wire_is_canonical:
  assumes "component_fits c" and "component_fits d"
  shows "compare_wire c d < 0 \<longleftrightarrow> compare_fields c d < 0"
  using compare_wire_sign [of c d] assms
  by (simp add: component_fits_def less_component_def)

theorem compare_wire_is_canonical_witness:
  "(compare_wire (Component 8 [7, 7]) (Component 300 [1]) < 0) =
   (compare_fields (Component 8 [7, 7]) (Component 300 [1]) < 0)"
  using compare_wire_is_canonical [of "Component 8 [7, 7]" "Component 300 [1]"]
  by (simp add: component_fits_def valid_component_def ensureValid_def is_sha256_type_def)

text \<open>C33: decoding the wire encoding of a name gives the name, whatever follows it.\<close>

theorem name_wire_roundtrip:
  assumes "list_all component_fits n"
    and "length (concat (map component_wireEncode n)) < 2 ^ 64"
  shows "\<exists>b. read_tlv (name_wireEncode n @ rest) = Inr (b, rest) \<and> name_wireDecode b = Inr n"
  using name_roundtrip [OF assms] .

theorem name_wire_roundtrip_witness:
  "\<exists>b. read_tlv (name_wireEncode [Component 8 [65], Component 32 [66]] @ [9]) = Inr (b, [9]) \<and>
       name_wireDecode b = Inr [Component 8 [65], Component 32 [66]]"
proof (rule name_wire_roundtrip)
  show "list_all component_fits [Component 8 [65], Component 32 [66]]"
    by (simp add: component_fits_def valid_component_def ensureValid_def is_sha256_type_def)
  show "length (concat (map component_wireEncode [Component 8 [65], Component 32 [66]])) < 2 ^ 64"
    by (simp add: component_wireEncode_def prependVarNumber_def)
qed

text \<open>The numbers put into segment and version components are read back, for both
  encoding conventions, when either convention is accepted.\<close>

theorem number_component_roundtrip:
  "toSegment EITHER (fromSegment enc v) = Inr v \<and> toVersion EITHER (fromVersion enc v) = Inr v"
  by (simp add: toSegment_def fromSegment_def toVersion_def fromVersion_def toConvention_def
      canDecodeMarkerConvention_def canDecodeTypedConvention_def toNumber_fromNumber
      toNumberWithMarker_from)

end
