(* ===== verification/Packet.thy ===== *)
theory Packet
  imports Ndn_Name
begin

text \<open>
  The packets the forwarder handles, as far as it looks at them: Interest and Data
  with their matching rules (\<^verbatim>\<open>interest.cpp\<close>, \<^verbatim>\<open>data.cpp\<close>), Nack headers
  (\<^verbatim>\<open>lp/nack-header.cpp\<close>), and faces.  A link-layer tag is an option field of the
  packet it is attached to.  The implicit digest of a Data packet is the SHA-256 of its
  encoding; the packet record carries its value.
\<close>

section \<open>Faces\<close>

datatype face_scope = SCOPE_LOCAL | SCOPE_NON_LOCAL
datatype link_type = POINT_TO_POINT | MULTI_ACCESS | AD_HOC

text \<open>Face objects are unique: equality of values stands for equality of addresses.\<close>

record face =
  f_id :: nat
  f_scope :: face_scope
  f_linkType :: link_type

section \<open>Interest and Data\<close>

text \<open>Lifetimes and freshness periods are in milliseconds, as in the packet.\<close>

record interest =
  i_name :: name
  i_canBePrefix :: bool
  i_mustBeFresh :: bool
  i_hint :: "name list"
  i_nonce :: "32 word"
  i_lifetime :: int
  i_hopLimit :: "byte option"
  i_pitToken :: "nat option"
  i_nextHopFaceId :: "nat option"

record data =
  d_name :: name
  d_contentType :: nat
  d_freshness :: int
  d_content :: "byte list"
  d_digest :: "byte list"
  d_pitToken :: "nat option"
  d_noCache :: bool

definition getFullName :: "data \<Rightarrow> name" where
  "getFullName d = d_name d @ [Component 1 (d_digest d)]"

definition matchesData :: "interest \<Rightarrow> data \<Rightarrow> bool" where
  "matchesData i d =
     (if length (i_name i) = length (d_name d) + 1 then
        (if isImplicitSha256Digest (name_get (i_name i) (- 1))
         then i_name i = getFullName d \<and> \<not> (i_mustBeFresh i \<and> d_freshness d \<le> 0)
         else False)
      else if (if i_canBePrefix i then \<not> isPrefixOf (i_name i) (d_name d)
               else i_name i \<noteq> d_name d) then False
      else \<not> (i_mustBeFresh i \<and> d_freshness d \<le> 0))"

definition matchesInterest :: "interest \<Rightarrow> interest \<Rightarrow> bool" where
  "matchesInterest i other \<longleftrightarrow>
     i_name i = i_name other \<and> i_canBePrefix i = i_canBePrefix other \<and>
     i_mustBeFresh i = i_mustBeFresh other"

section \<open>Nack\<close>

datatype nack_reason = NACK_NONE | CONGESTION | DUPLICATE | NO_ROUTE

fun to_underlying :: "nack_reason \<Rightarrow> nat" where
  "to_underlying NACK_NONE = 0"
| "to_underlying CONGESTION = 50"
| "to_underlying DUPLICATE = 100"
| "to_underlying NO_ROUTE = 150"

definition isLessSevere :: "nack_reason \<Rightarrow> nack_reason \<Rightarrow> bool" where
  "isLessSevere x y =
     (if x = NACK_NONE then False
      else if y = NACK_NONE then True
      else to_underlying x < to_underlying y)"

text \<open>A decoded reason code: unknown codes read as no reason.\<close>

definition getReason :: "nat \<Rightarrow> nack_reason" where
  "getReason code =
     (if code = 50 then CONGESTION else if code = 100 then DUPLICATE
      else if code = 150 then NO_ROUTE else NACK_NONE)"

record nack =
  n_interest :: interest
  n_reason :: nack_reason

section \<open>Lemmas\<close>

text \<open>
  What matching means, against the three shapes an Interest name can have: the full
  name with digest, the exact name, or a prefix.
\<close>

lemma matchesData_spec:
  assumes "valid_name (d_name d)" and "length (d_digest d) = DIGEST_SIZE"
  shows "matchesData i d \<longleftrightarrow>
    (i_name i = getFullName d \<or>
     i_name i = d_name d \<or>
     i_canBePrefix i \<and> prefix (i_name i) (d_name d)) \<and>
    (i_mustBeFresh i \<longrightarrow> 0 < d_freshness d)"
proof -
  have last: "i_name i = getFullName d \<Longrightarrow> isImplicitSha256Digest (name_get (i_name i) (- 1))"
    using assms(2)
    by (simp add: name_get_last getFullName_def isImplicitSha256Digest_def)
  have len: "length (i_name i) = Suc (length (d_name d)) \<Longrightarrow> i_name i \<noteq> d_name d"
    by auto
  have pre: "prefix (i_name i) (d_name d) \<Longrightarrow> length (i_name i) \<noteq> Suc (length (d_name d))"
    by (auto dest: prefix_length_le)
  have full: "i_name i = getFullName d \<Longrightarrow> length (i_name i) = Suc (length (d_name d))"
    by (simp add: getFullName_def)
  show ?thesis
    using last len pre full by (auto simp: matchesData_def isPrefixOf_prefix)
qed

lemma isLessSevere_irrefl: "\<not> isLessSevere x x"
  by (simp add: isLessSevere_def)

lemma isLessSevere_trans: "isLessSevere x y \<Longrightarrow> isLessSevere y z \<Longrightarrow> isLessSevere x z"
  by (cases x; cases y; cases z) (auto simp: isLessSevere_def)

lemma isLessSevere_total: "x \<noteq> y \<Longrightarrow> isLessSevere x y \<or> isLessSevere y x"
  by (cases x; cases y) (auto simp: isLessSevere_def)

lemma getReason_to_underlying [simp]: "getReason (to_underlying r) = r"
  by (cases r) (auto simp: getReason_def)

end
