(* ===== verification/Table_Entries.thy ===== *)
theory Table_Entries
  imports Packet "HOL-Library.Multiset"
begin

text \<open>
  The entries of the forwarder's tables, as they hang on the nodes of the name tree:
  FIB entries (\<^verbatim>\<open>fib-entry.cpp\<close>), PIT entries with their in- and out-records
  (\<^verbatim>\<open>pit-entry.cpp\<close>, \<^verbatim>\<open>pit-face-record.cpp\<close>, \<^verbatim>\<open>pit-in-record.cpp\<close>,
  \<^verbatim>\<open>pit-out-record.cpp\<close>), measurements and strategy choice entries, and the
  information strategies attach to them (\<^verbatim>\<open>strategy-info-host.hpp\<close>).  Times are
  nanoseconds of the steady clock, passed as the argument \<^verbatim>\<open>now\<close>.
\<close>

named_theorems record_laws

definition ms :: "int \<Rightarrow> int" where
  "ms n = n * 1000000"

definition time_point_min :: int where
  "time_point_min = - (2 ^ 63)"

section \<open>Strategy information\<close>

datatype retx_stage = STRAIGHT_FORWARD | RV

record kite_interest_status =
  kis_stage :: retx_stage
  kis_rvName :: name
  kis_mpName :: name

text \<open>
  The pending Interests for a mobile producer: a PIT entry is named by its identity, so
  a weak pointer whose target is gone names an entry that is no longer in the table.
\<close>

record kite_mp_info =
  kmp_name :: name
  kmp_pitEntrys :: "(name \<times> nat) list"
  kmp_faceIds :: "nat list"

datatype strategy_info =
    PitInfo int
  | KiteInterestStatus kite_interest_status
  | KiteMobileProducerInfo kite_mp_info

fun getTypeId :: "strategy_info \<Rightarrow> nat" where
  "getTypeId (PitInfo _) = 1020"
| "getTypeId (KiteInterestStatus _) = 1132"
| "getTypeId (KiteMobileProducerInfo _) = 1134"

type_synonym strategy_info_host = "(nat \<times> strategy_info) list"

definition getStrategyInfo :: "nat \<Rightarrow> strategy_info_host \<Rightarrow> strategy_info option" where
  "getStrategyInfo t items = tab_get items t"

text \<open>\<^verbatim>\<open>insertStrategyInfo\<close> constructs an item only where none of its type exists.\<close>

definition insertStrategyInfo ::
  "strategy_info \<Rightarrow> strategy_info_host \<Rightarrow> strategy_info \<times> bool \<times> strategy_info_host" where
  "insertStrategyInfo new items =
     (case tab_get items (getTypeId new) of
        Some item \<Rightarrow> (item, False, items)
      | None \<Rightarrow> (new, True, tab_put (getTypeId new) new items))"

definition setStrategyInfo :: "strategy_info \<Rightarrow> strategy_info_host \<Rightarrow> strategy_info_host" where
  "setStrategyInfo item items = tab_put (getTypeId item) item items"

definition eraseStrategyInfo :: "nat \<Rightarrow> strategy_info_host \<Rightarrow> strategy_info_host" where
  "eraseStrategyInfo t items = tab_del t items"

section \<open>PIT records\<close>

record face_record =
  fr_face :: face
  fr_lastNonce :: "32 word"
  fr_lastRenewed :: int
  fr_expiry :: int
  fr_info :: strategy_info_host

record in_record = face_record +
  ir_interest :: interest

record out_record = face_record +
  or_nack :: "nack_reason option"

definition MAX_LIFETIME :: int where
  "MAX_LIFETIME = 10 * 24 * 3600 * 1000"

definition FaceRecord_update :: "int \<Rightarrow> interest \<Rightarrow> 'a face_record_scheme \<Rightarrow> 'a face_record_scheme" where
  "FaceRecord_update now interest r =
     r\<lparr>fr_lastNonce := i_nonce interest, fr_lastRenewed := now,
       fr_expiry := now + ms (min (i_lifetime interest) MAX_LIFETIME)\<rparr>"

definition InRecord_update :: "int \<Rightarrow> interest \<Rightarrow> in_record \<Rightarrow> in_record" where
  "InRecord_update now interest r = (FaceRecord_update now interest r)\<lparr>ir_interest := interest\<rparr>"

definition InRecord_new :: "face \<Rightarrow> interest \<Rightarrow> in_record" where
  "InRecord_new face interest =
     \<lparr>fr_face = face, fr_lastNonce = 0, fr_lastRenewed = time_point_min,
      fr_expiry = time_point_min, fr_info = [], ir_interest = interest\<rparr>"

definition OutRecord_new :: "face \<Rightarrow> out_record" where
  "OutRecord_new face =
     \<lparr>fr_face = face, fr_lastNonce = 0, fr_lastRenewed = time_point_min,
      fr_expiry = time_point_min, fr_info = [], or_nack = None\<rparr>"

definition setIncomingNack :: "nack \<Rightarrow> out_record \<Rightarrow> bool \<times> out_record" where
  "setIncomingNack nack r =
     (if i_nonce (n_interest nack) \<noteq> fr_lastNonce r then (False, r)
      else (True, r\<lparr>or_nack := Some (n_reason nack)\<rparr>))"

definition clearIncomingNack :: "out_record \<Rightarrow> out_record" where
  "clearIncomingNack r = r\<lparr>or_nack := None\<rparr>"

text \<open>Searching and updating a record collection by face, as \<^verbatim>\<open>std::find_if\<close> does.\<close>

fun find_rec :: "face \<Rightarrow> 'a face_record_scheme list \<Rightarrow> 'a face_record_scheme option" where
  "find_rec face [] = None"
| "find_rec face (r # rs) = (if fr_face r = face then Some r else find_rec face rs)"

fun update_rec ::
  "face \<Rightarrow> ('a face_record_scheme \<Rightarrow> 'a face_record_scheme) \<Rightarrow>
   'a face_record_scheme list \<Rightarrow> 'a face_record_scheme list" where
  "update_rec face f [] = []"
| "update_rec face f (r # rs) = (if fr_face r = face then f r # rs else r # update_rec face f rs)"

fun delete_rec :: "face \<Rightarrow> 'a face_record_scheme list \<Rightarrow> 'a face_record_scheme list" where
  "delete_rec face [] = []"
| "delete_rec face (r # rs) = (if fr_face r = face then rs else r # delete_rec face rs)"

section \<open>PIT entry\<close>

text \<open>
  \<^verbatim>\<open>pe_timer\<close> is the time at which the scheduled expiry event fires; it is
  \<^verbatim>\<open>None\<close> before the first scheduling and after the event ran.
\<close>

record pit_entry =
  pe_interest :: interest
  pe_in :: "in_record list"
  pe_out :: "out_record list"
  pe_timer :: "int option"
  pe_satisfied :: bool
  pe_dataFreshness :: int
  pe_info :: strategy_info_host
  pe_nte :: "name option"

definition PitEntry_new :: "interest \<Rightarrow> pit_entry" where
  "PitEntry_new interest =
     \<lparr>pe_interest = interest, pe_in = [], pe_out = [], pe_timer = None, pe_satisfied = False,
      pe_dataFreshness = 0, pe_info = [], pe_nte = None\<rparr>"

abbreviation pe_name :: "pit_entry \<Rightarrow> name" where
  "pe_name e \<equiv> i_name (pe_interest e)"

definition canMatch :: "pit_entry \<Rightarrow> interest \<Rightarrow> nat \<Rightarrow> bool" where
  "canMatch e interest nEqualNameComps \<longleftrightarrow>
     name_compare (pe_name e) nEqualNameComps (length (pe_name e))
                  (i_name interest) nEqualNameComps (length (i_name interest)) = 0 \<and>
     i_canBePrefix (pe_interest e) = i_canBePrefix interest \<and>
     i_mustBeFresh (pe_interest e) = i_mustBeFresh interest"

definition getInRecord :: "pit_entry \<Rightarrow> face \<Rightarrow> in_record option" where
  "getInRecord e face = find_rec face (pe_in e)"

definition insertOrUpdateInRecord :: "int \<Rightarrow> face \<Rightarrow> interest \<Rightarrow> pit_entry \<Rightarrow> pit_entry" where
  "insertOrUpdateInRecord now face interest e =
     (case find_rec face (pe_in e) of
        None \<Rightarrow> e\<lparr>pe_in := InRecord_update now interest (InRecord_new face interest) # pe_in e\<rparr>
      | Some _ \<Rightarrow> e\<lparr>pe_in := update_rec face (InRecord_update now interest) (pe_in e)\<rparr>)"

definition deleteInRecord :: "face \<Rightarrow> pit_entry \<Rightarrow> pit_entry" where
  "deleteInRecord face e = e\<lparr>pe_in := delete_rec face (pe_in e)\<rparr>"

definition clearInRecords :: "pit_entry \<Rightarrow> pit_entry" where
  "clearInRecords e = e\<lparr>pe_in := []\<rparr>"

definition getOutRecord :: "pit_entry \<Rightarrow> face \<Rightarrow> out_record option" where
  "getOutRecord e face = find_rec face (pe_out e)"

definition insertOrUpdateOutRecord :: "int \<Rightarrow> face \<Rightarrow> interest \<Rightarrow> pit_entry \<Rightarrow> pit_entry" where
  "insertOrUpdateOutRecord now face interest e =
     (case find_rec face (pe_out e) of
        None \<Rightarrow> e\<lparr>pe_out := FaceRecord_update now interest (OutRecord_new face) # pe_out e\<rparr>
      | Some _ \<Rightarrow> e\<lparr>pe_out := update_rec face (FaceRecord_update now interest) (pe_out e)\<rparr>)"

definition deleteOutRecord :: "face \<Rightarrow> pit_entry \<Rightarrow> pit_entry" where
  "deleteOutRecord face e = e\<lparr>pe_out := delete_rec face (pe_out e)\<rparr>"

text \<open>The invariant of an entry: at most one record per face and direction.\<close>

definition pit_entry_ok :: "pit_entry \<Rightarrow> bool" where
  "pit_entry_ok e \<longleftrightarrow> distinct (map fr_face (pe_in e)) \<and> distinct (map fr_face (pe_out e))"

section \<open>FIB entry\<close>

record next_hop =
  nh_face :: face
  nh_cost :: nat

record fib_entry =
  fe_prefix :: name
  fe_nextHops :: "next_hop list"

definition FibEntry_new :: "name \<Rightarrow> fib_entry" where
  "FibEntry_new p = \<lparr>fe_prefix = p, fe_nextHops = []\<rparr>"

text \<open>The position of a nexthop, the size of the list when there is none.\<close>

fun findNextHop_pos :: "face \<Rightarrow> next_hop list \<Rightarrow> nat" where
  "findNextHop_pos face [] = 0"
| "findNextHop_pos face (h # hs) = (if nh_face h = face then 0 else Suc (findNextHop_pos face hs))"

definition findNextHop :: "fib_entry \<Rightarrow> face \<Rightarrow> nat" where
  "findNextHop e face = findNextHop_pos face (fe_nextHops e)"

definition hasNextHop :: "fib_entry \<Rightarrow> face \<Rightarrow> bool" where
  "hasNextHop e face \<longleftrightarrow> findNextHop e face \<noteq> length (fe_nextHops e)"

text \<open>
  \<^verbatim>\<open>std::sort\<close> by cost.  On lists of up to sixteen elements, as nexthop lists are, it
  is an insertion sort and keeps the order of equal costs.
\<close>

definition sortNextHops :: "next_hop list \<Rightarrow> next_hop list" where
  "sortNextHops hs = sort_key nh_cost hs"

text \<open>
  The returned iterator is a position: it is taken before the list is sorted and is
  not adjusted afterwards.
\<close>

definition Entry_addOrUpdateNextHop :: "face \<Rightarrow> nat \<Rightarrow> fib_entry \<Rightarrow> fib_entry \<times> nat \<times> bool" where
  "Entry_addOrUpdateNextHop face cost e =
     (let it = findNextHop e face;
          isNew = (it = length (fe_nextHops e));
          hs = (if isNew then fe_nextHops e @ [\<lparr>nh_face = face, nh_cost = 0\<rparr>] else fe_nextHops e);
          hs' = hs[it := (hs ! it)\<lparr>nh_cost := cost\<rparr>]
      in (e\<lparr>fe_nextHops := sortNextHops hs'\<rparr>, it, isNew))"

definition Entry_removeNextHop :: "face \<Rightarrow> fib_entry \<Rightarrow> fib_entry \<times> bool" where
  "Entry_removeNextHop face e =
     (let it = findNextHop e face in
      if it \<noteq> length (fe_nextHops e)
      then (e\<lparr>fe_nextHops := take it (fe_nextHops e) @ drop (Suc it) (fe_nextHops e)\<rparr>, True)
      else (e, False))"

text \<open>The invariant: one nexthop per face, cheapest first.\<close>

definition fib_entry_ok :: "fib_entry \<Rightarrow> bool" where
  "fib_entry_ok e \<longleftrightarrow>
     distinct (map nh_face (fe_nextHops e)) \<and> sorted (map nh_cost (fe_nextHops e))"

section \<open>Measurements and strategy choice entries\<close>

record meas_entry =
  me_name :: name
  me_expiry :: int
  me_info :: strategy_info_host

datatype strategy_kind = BestRoute | Multicast | Random | Kite

text \<open>
  A strategy instance: its class, its instance name and its retransmission suppression
  settings (intervals in milliseconds; the multiplier as a ratio of two integers).
\<close>

record strategy =
  s_kind :: strategy_kind
  s_instanceName :: name
  s_initialInterval :: int
  s_maxInterval :: int
  s_multiplier :: "int \<times> int"

record sc_entry =
  sc_prefix :: name
  sc_strategy :: strategy

section \<open>Name tree entry\<close>

record nte =
  nte_parent :: "name option"
  nte_children :: "name list"
  nte_fib :: "fib_entry option"
  nte_pit :: "nat list"
  nte_meas :: "meas_entry option"
  nte_sc :: "sc_entry option"

definition nte_new :: nte where
  "nte_new = \<lparr>nte_parent = None, nte_children = [], nte_fib = None, nte_pit = [],
              nte_meas = None, nte_sc = None\<rparr>"

definition hasTableEntries :: "nte \<Rightarrow> bool" where
  "hasTableEntries e \<longleftrightarrow>
     nte_fib e \<noteq> None \<or> nte_pit e \<noteq> [] \<or> nte_meas e \<noteq> None \<or> nte_sc e \<noteq> None"

definition nte_isEmpty :: "nte \<Rightarrow> bool" where
  "nte_isEmpty e \<longleftrightarrow> nte_children e = [] \<and> \<not> hasTableEntries e"

text \<open>
  Removing a PIT entry moves the last one into its place, as
  \<^verbatim>\<open>*it = m_pitEntries.back(); pop_back()\<close> does.
\<close>

definition erase_swap :: "'a \<Rightarrow> 'a list \<Rightarrow> 'a list" where
  "erase_swap x xs =
     (let it = length (takeWhile (\<lambda>y. y \<noteq> x) xs) in
      if it < length xs then butlast (xs[it := last xs]) else xs)"

section \<open>Lemmas on records\<close>

lemma find_rec_face: "find_rec face rs = Some r \<Longrightarrow> fr_face r = face \<and> r \<in> set rs"
  by (induction rs) (auto split: if_splits)

lemma find_rec_None: "find_rec face rs = None \<longleftrightarrow> face \<notin> fr_face ` set rs"
  by (induction rs) auto

lemma find_rec_Some_iff:
  "distinct (map fr_face rs) \<Longrightarrow> find_rec face rs = Some r \<longleftrightarrow> r \<in> set rs \<and> fr_face r = face"
  by (induction rs) auto

lemma faces_update_rec:
  assumes "\<And>r. fr_face (f r) = fr_face r"
  shows "map fr_face (update_rec face f rs) = map fr_face rs"
  by (induction rs) (simp_all add: assms)

lemma set_update_rec: "set (update_rec face f rs) \<subseteq> set rs \<union> {f r | r. r \<in> set rs \<and> fr_face r = face}"
  by (induction rs) auto

lemma find_update_rec [simp]:
  assumes "\<And>r. fr_face (f r) = fr_face r"
  shows "find_rec face' (update_rec face f rs) =
    (if face' = face then map_option f (find_rec face rs) else find_rec face' rs)"
  by (induction rs) (auto simp: assms)

lemma set_delete_rec: "set (delete_rec face rs) \<subseteq> set rs"
  by (induction rs) auto

lemma faces_delete_rec:
  "distinct (map fr_face rs) \<Longrightarrow>
     distinct (map fr_face (delete_rec face rs)) \<and>
     fr_face ` set (delete_rec face rs) = fr_face ` set rs - {face}"
proof (induction rs)
  case (Cons r rs)
  then show ?case using set_delete_rec [of face rs] by (auto intro: rev_image_eqI)
qed simp

lemma find_delete_rec:
  "distinct (map fr_face rs) \<Longrightarrow>
     find_rec face' (delete_rec face rs) = (if face' = face then None else find_rec face' rs)"
  by (induction rs) (auto simp: find_rec_None)

lemma update_face [simp]:
  "fr_face (FaceRecord_update now i r) = fr_face r"
  "fr_face (InRecord_update now i q) = fr_face q"
  by (simp_all add: FaceRecord_update_def InRecord_update_def)

lemma update_expiry [simp]:
  "fr_expiry (FaceRecord_update now i r) = now + ms (min (i_lifetime i) MAX_LIFETIME)"
  "fr_expiry (InRecord_update now i q) = now + ms (min (i_lifetime i) MAX_LIFETIME)"
  "fr_lastRenewed (FaceRecord_update now i r) = now"
  "fr_lastRenewed (InRecord_update now i q) = now"
  "fr_lastNonce (FaceRecord_update now i r) = i_nonce i"
  "fr_lastNonce (InRecord_update now i q) = i_nonce i"
  "ir_interest (InRecord_update now i q) = i"
  by (simp_all add: FaceRecord_update_def InRecord_update_def)

lemma new_face [simp]:
  "fr_face (InRecord_new face i) = face" "fr_face (OutRecord_new face) = face"
  by (simp_all add: InRecord_new_def OutRecord_new_def)

lemma record_frame [simp, record_laws]:
  "pe_interest (insertOrUpdateInRecord now face i e) = pe_interest e"
  "pe_nte (insertOrUpdateInRecord now face i e) = pe_nte e"
  "pe_interest (insertOrUpdateOutRecord now face i e) = pe_interest e"
  "pe_nte (insertOrUpdateOutRecord now face i e) = pe_nte e"
  "pe_interest (deleteInRecord face e) = pe_interest e" "pe_nte (deleteInRecord face e) = pe_nte e"
  "pe_interest (deleteOutRecord face e) = pe_interest e" "pe_nte (deleteOutRecord face e) = pe_nte e"
  "pe_interest (clearInRecords e) = pe_interest e" "pe_nte (clearInRecords e) = pe_nte e"
  by (simp_all add: insertOrUpdateInRecord_def insertOrUpdateOutRecord_def deleteInRecord_def
      deleteOutRecord_def clearInRecords_def split: option.splits)

lemma PitEntry_new_ok [simp, record_laws]: "pit_entry_ok (PitEntry_new i)"
  by (simp add: pit_entry_ok_def PitEntry_new_def)

lemma insertOrUpdateInRecord_ok [simp, record_laws]:
  "pit_entry_ok e \<Longrightarrow> pit_entry_ok (insertOrUpdateInRecord now face i e)"
  by (auto simp: pit_entry_ok_def insertOrUpdateInRecord_def faces_update_rec find_rec_None
           split: option.splits)

lemma insertOrUpdateOutRecord_ok [simp, record_laws]:
  "pit_entry_ok e \<Longrightarrow> pit_entry_ok (insertOrUpdateOutRecord now face i e)"
  by (auto simp: pit_entry_ok_def insertOrUpdateOutRecord_def faces_update_rec find_rec_None
           split: option.splits)

lemma delete_records_ok [simp, record_laws]:
  "pit_entry_ok e \<Longrightarrow> pit_entry_ok (deleteInRecord face e)"
  "pit_entry_ok e \<Longrightarrow> pit_entry_ok (deleteOutRecord face e)"
  "pit_entry_ok e \<Longrightarrow> pit_entry_ok (clearInRecords e)"
  by (auto simp: pit_entry_ok_def deleteInRecord_def deleteOutRecord_def clearInRecords_def
      dest: faces_delete_rec)

lemma getInRecord_insert [simp]:
  "getInRecord (insertOrUpdateInRecord now face i e) face' =
     (if face' = face
      then Some (InRecord_update now i
             (case getInRecord e face of None \<Rightarrow> InRecord_new face i | Some r \<Rightarrow> r))
      else getInRecord e face')"
  by (auto simp: getInRecord_def insertOrUpdateInRecord_def split: option.splits)

lemma getInRecord_delete [simp]:
  "pit_entry_ok e \<Longrightarrow>
     getInRecord (deleteInRecord face e) face' = (if face' = face then None else getInRecord e face')"
  by (simp add: getInRecord_def deleteInRecord_def pit_entry_ok_def find_delete_rec)

lemma getOutRecord_insert [simp]:
  "getOutRecord (insertOrUpdateOutRecord now face i e) face' =
     (if face' = face
      then Some (FaceRecord_update now i
             (case getOutRecord e face of None \<Rightarrow> OutRecord_new face | Some r \<Rightarrow> r))
      else getOutRecord e face')"
  by (auto simp: getOutRecord_def insertOrUpdateOutRecord_def split: option.splits)

section \<open>Lemmas on nexthops\<close>

lemma findNextHop_pos_le: "findNextHop_pos face hs \<le> length hs"
  by (induction hs) auto

lemma findNextHop_pos_length:
  "findNextHop_pos face hs = length hs \<longleftrightarrow> face \<notin> nh_face ` set hs"
  by (induction hs) auto

lemma findNextHop_pos_nth:
  "findNextHop_pos face hs < length hs \<Longrightarrow> nh_face (hs ! findNextHop_pos face hs) = face"
  by (induction hs) auto

lemma hasNextHop_iff: "hasNextHop e face \<longleftrightarrow> face \<in> nh_face ` set (fe_nextHops e)"
  by (auto simp: hasNextHop_def findNextHop_def findNextHop_pos_length)

text \<open>The update and the removal, before sorting, as recursions over the list.\<close>

fun put_hop :: "face \<Rightarrow> nat \<Rightarrow> next_hop list \<Rightarrow> next_hop list" where
  "put_hop face cost [] = [\<lparr>nh_face = face, nh_cost = cost\<rparr>]"
| "put_hop face cost (h # hs) =
     (if nh_face h = face then h\<lparr>nh_cost := cost\<rparr> # hs else h # put_hop face cost hs)"

fun del_hop :: "face \<Rightarrow> next_hop list \<Rightarrow> next_hop list" where
  "del_hop face [] = []"
| "del_hop face (h # hs) = (if nh_face h = face then hs else h # del_hop face hs)"

lemma put_hop_eq:
  "(let it = findNextHop_pos face hs;
        hs1 = (if it = length hs then hs @ [\<lparr>nh_face = face, nh_cost = 0\<rparr>] else hs)
    in hs1[it := (hs1 ! it)\<lparr>nh_cost := cost\<rparr>]) = put_hop face cost hs"
  by (induction hs) (auto simp: Let_def split: if_splits)

lemma del_hop_eq:
  "(let it = findNextHop_pos face hs in
    if it \<noteq> length hs then take it hs @ drop (Suc it) hs else hs) = del_hop face hs"
  by (induction hs) (auto simp: Let_def split: if_splits)

lemma addOrUpdate_eq:
  "Entry_addOrUpdateNextHop face cost e =
     (e\<lparr>fe_nextHops := sort_key nh_cost (put_hop face cost (fe_nextHops e))\<rparr>,
      findNextHop e face, \<not> hasNextHop e face)"
  using put_hop_eq [of face "fe_nextHops e" cost]
  by (simp add: Entry_addOrUpdateNextHop_def hasNextHop_def findNextHop_def sortNextHops_def Let_def)

lemma removeNextHop_eq:
  "Entry_removeNextHop face e =
     (e\<lparr>fe_nextHops := del_hop face (fe_nextHops e)\<rparr>, hasNextHop e face)"
  using del_hop_eq [of face "fe_nextHops e"]
  by (auto simp: Entry_removeNextHop_def hasNextHop_def findNextHop_def Let_def)

lemma put_hop_props:
  assumes "distinct (map nh_face hs)"
  shows "set (put_hop face cost hs) =
      insert \<lparr>nh_face = face, nh_cost = cost\<rparr> {h \<in> set hs. nh_face h \<noteq> face}"
    and "nh_face ` set (put_hop face cost hs) = insert face (nh_face ` set hs)"
    and "distinct (map nh_face (put_hop face cost hs))"
  using assms by (induction hs) (auto intro: rev_image_eqI)

lemma del_hop_props:
  assumes "distinct (map nh_face hs)"
  shows "set (del_hop face hs) = {h \<in> set hs. nh_face h \<noteq> face}"
    and "distinct (map nh_face (del_hop face hs))"
  using assms by (induction hs) (auto intro: rev_image_eqI)

lemma sorted_del_hop: "sorted (map nh_cost hs) \<Longrightarrow> sorted (map nh_cost (del_hop face hs))"
proof (induction hs)
  case (Cons h hs)
  have "set (del_hop face hs) \<subseteq> set hs" by (induction hs) auto
  then show ?case using Cons by auto
qed simp

lemma distinct_sort_key_map: "distinct (map f (sort_key k hs)) \<longleftrightarrow> distinct (map f hs)"
  by (simp add: distinct_map)

lemma addOrUpdate_ok:
  "fib_entry_ok e \<Longrightarrow> fib_entry_ok (fst (Entry_addOrUpdateNextHop face cost e))"
  by (simp add: addOrUpdate_eq fib_entry_ok_def distinct_sort_key_map put_hop_props)

lemma addOrUpdate_set:
  "fib_entry_ok e \<Longrightarrow> set (fe_nextHops (fst (Entry_addOrUpdateNextHop face cost e))) =
     insert \<lparr>nh_face = face, nh_cost = cost\<rparr> {h \<in> set (fe_nextHops e). nh_face h \<noteq> face}"
  by (simp add: addOrUpdate_eq fib_entry_ok_def put_hop_props)

lemma removeNextHop_ok:
  "fib_entry_ok e \<Longrightarrow> fib_entry_ok (fst (Entry_removeNextHop face e))"
  by (simp add: removeNextHop_eq fib_entry_ok_def del_hop_props sorted_del_hop)

lemma removeNextHop_set:
  "fib_entry_ok e \<Longrightarrow> set (fe_nextHops (fst (Entry_removeNextHop face e))) =
     {h \<in> set (fe_nextHops e). nh_face h \<noteq> face}"
  by (simp add: removeNextHop_eq fib_entry_ok_def del_hop_props)

lemma erase_swap_mset:
  "x \<in> set xs \<Longrightarrow> mset (erase_swap x xs) = mset xs - {#x#}"
proof -
  assume "x \<in> set xs"
  then obtain ys zs where xs: "xs = ys @ x # zs" "x \<notin> set ys"
    by (meson split_list_first)
  have it: "takeWhile (\<lambda>y. y \<noteq> x) (ys @ x # us) = ys" for us
    using xs(2) by (induction ys) auto
  show ?thesis
    by (cases zs rule: rev_cases) (simp_all add: erase_swap_def it Let_def xs(1) list_update_append butlast_append)
qed

lemma erase_swap_notin: "x \<notin> set xs \<Longrightarrow> erase_swap x xs = xs"
proof -
  assume "x \<notin> set xs"
  then have "takeWhile (\<lambda>y. y \<noteq> x) xs = xs" by (induction xs) auto
  then show ?thesis by (simp only: erase_swap_def Let_def less_irrefl if_False)
qed

lemma set_erase_swap:
  assumes "distinct xs"
  shows "set (erase_swap x xs) = set xs - {x}" and "distinct (erase_swap x xs)"
proof -
  have "mset (erase_swap x xs) = mset (remove1 x xs)"
    by (cases "x \<in> set xs") (simp_all add: erase_swap_mset erase_swap_notin remove1_idem)
  then have eq: "set (erase_swap x xs) = set (remove1 x xs)"
      "distinct (erase_swap x xs) = distinct (remove1 x xs)"
    by (rule mset_eq_setD, rule mset_eq_imp_distinct_iff)
  show "set (erase_swap x xs) = set xs - {x}" "distinct (erase_swap x xs)"
    using assms by (simp_all add: eq)
qed

end
