(* ===== verification/Name_Tree.thy ===== *)
theory Name_Tree
  imports Table_Entries
begin

text \<open>
  The name tree (\<^verbatim>\<open>name-tree.cpp\<close>, \<^verbatim>\<open>name-tree-entry.cpp\<close>, \<^verbatim>\<open>name-tree-iterator.cpp\<close>): one
  node per name, linked to its parent and its children, carrying the entries of the FIB,
  the PIT, the measurements table and the strategy choice table.  The node table is a
  finite map from names to nodes; \<^verbatim>\<open>Name_Tree_Hashtable\<close> shows that the bucket table of
  the implementation is one.  A node is referred to by its name.

  The invariant \<^verbatim>\<open>nt_ok\<close> links parents and children both ways; clients look at the
  tree only through the attached entries (\<^verbatim>\<open>fib_at\<close>, \<^verbatim>\<open>pit_at\<close>, \<^verbatim>\<open>meas_at\<close>,
  \<^verbatim>\<open>sc_at\<close>), which inserting and erasing empty nodes does not change.
\<close>

named_theorems nt_laws

type_synonym name_tree = "(name \<times> nte) list"

section \<open>Operations\<close>

definition getMaxDepth :: nat where
  "getMaxDepth = 32"

definition ht_insert :: "name \<Rightarrow> name_tree \<Rightarrow> name_tree \<times> bool" where
  "ht_insert k t =
     (case tab_get t k of Some _ \<Rightarrow> (t, False) | None \<Rightarrow> (tab_put k nte_new t, True))"

definition setParent :: "name \<Rightarrow> name \<Rightarrow> name_tree \<Rightarrow> name_tree" where
  "setParent k p t =
     tab_modify p (\<lambda>e. e\<lparr>nte_children := nte_children e @ [k]\<rparr>)
       (tab_modify k (\<lambda>e. e\<lparr>nte_parent := Some p\<rparr>) t)"

definition unsetParent :: "name \<Rightarrow> name \<Rightarrow> name_tree \<Rightarrow> name_tree" where
  "unsetParent k p t =
     tab_modify k (\<lambda>e. e\<lparr>nte_parent := None\<rparr>)
       (tab_modify p (\<lambda>e. e\<lparr>nte_children := remove1 k (nte_children e)\<rparr>) t)"

definition lookup_step :: "name \<Rightarrow> nat \<Rightarrow> name_tree \<Rightarrow> name_tree" where
  "lookup_step n i t =
     (let (t', isNew) = ht_insert (take i n) t in
      if isNew \<and> i > 0 then setParent (take i n) (take (i - 1) n) t' else t')"

definition nt_lookup :: "name \<Rightarrow> nat \<Rightarrow> name_tree \<Rightarrow> name_tree" where
  "nt_lookup n prefixLen t = fold (lookup_step n) [0..<Suc prefixLen] t"

lemma length_tab_modify [simp]: "length (tab_modify k f t) = length t"
  by (simp add: tab_modify_def)

lemma length_tab_del_le: "length (tab_del k t) \<le> length t"
  by (simp add: AList.delete_eq)

lemma length_tab_del: "tab_get t k \<noteq> None \<Longrightarrow> length (tab_del k t) < length t"
  by (induction t) (auto simp: AList.delete_eq less_Suc_eq_le split: if_splits)

text \<open>
  \<^verbatim>\<open>eraseIfEmpty\<close> removes an empty node and, on the way up, every ancestor that
  becomes empty.  Each round removes a node, so the loop ends.
\<close>

function eraseIfEmpty :: "name \<Rightarrow> bool \<Rightarrow> name_tree \<Rightarrow> name_tree \<times> nat" where
  "eraseIfEmpty k canEraseAncestors t =
     (case tab_get t k of
        None \<Rightarrow> (t, 0)
      | Some e \<Rightarrow>
          if nte_isEmpty e then
            (let t1 = (case nte_parent e of None \<Rightarrow> t | Some p \<Rightarrow> unsetParent k p t);
                 t2 = tab_del k t1
             in if \<not> canEraseAncestors then (t2, 1)
                else case nte_parent e of
                       None \<Rightarrow> (t2, 1)
                     | Some p \<Rightarrow> (let (t3, nErased) = eraseIfEmpty p canEraseAncestors t2
                                 in (t3, Suc nErased)))
          else (t, 0))"
  by pat_completeness auto
termination
proof (relation "measure (\<lambda>(k, c, t). length t)", goal_cases)
  case (2 k c t e t1 t2 p)
  have "tab_get (unsetParent k p t) k \<noteq> None"
    using 2 by (auto simp: unsetParent_def)
  from length_tab_del [OF this] show ?case
    using 2 by (simp add: unsetParent_def)
qed simp

declare eraseIfEmpty.simps [simp del]

definition findExactMatch :: "name \<Rightarrow> nat \<Rightarrow> name_tree \<Rightarrow> name option" where
  "findExactMatch n prefixLen t =
     (let l = min (length n) prefixLen in
      if l > getMaxDepth then None
      else case tab_get t (take l n) of None \<Rightarrow> None | Some _ \<Rightarrow> Some (take l n))"

primrec lpm_loop :: "name \<Rightarrow> (nte \<Rightarrow> bool) \<Rightarrow> name_tree \<Rightarrow> nat \<Rightarrow> name option" where
  "lpm_loop n sel t 0 =
     (case tab_get t [] of Some e \<Rightarrow> if sel e then Some [] else None | None \<Rightarrow> None)"
| "lpm_loop n sel t (Suc i) =
     (case tab_get t (take (Suc i) n) of
        Some e \<Rightarrow> if sel e then Some (take (Suc i) n) else lpm_loop n sel t i
      | None \<Rightarrow> lpm_loop n sel t i)"

definition findLongestPrefixMatch :: "name \<Rightarrow> (nte \<Rightarrow> bool) \<Rightarrow> name_tree \<Rightarrow> name option" where
  "findLongestPrefixMatch n sel t = lpm_loop n sel t (min (length n) getMaxDepth)"

text \<open>
  Walking up the parent links.  The fuel is the number of nodes, which is enough because
  the nodes on the way are distinct.
\<close>

fun lpm_walk :: "nat \<Rightarrow> name \<Rightarrow> (nte \<Rightarrow> bool) \<Rightarrow> name_tree \<Rightarrow> name option" where
  "lpm_walk 0 k sel t = None"
| "lpm_walk (Suc fuel) k sel t =
     (case tab_get t k of
        None \<Rightarrow> None
      | Some e \<Rightarrow>
          if sel e then Some k
          else case nte_parent e of None \<Rightarrow> None | Some p \<Rightarrow> lpm_walk fuel p sel t)"

definition findLongestPrefixMatch_entry :: "name \<Rightarrow> (nte \<Rightarrow> bool) \<Rightarrow> name_tree \<Rightarrow> name option" where
  "findLongestPrefixMatch_entry k sel t = lpm_walk (length t) k sel t"

text \<open>The overload for PIT entries goes down to a longer node first, where there is one.\<close>

fun go_deeper :: "name \<Rightarrow> name \<Rightarrow> nat list \<Rightarrow> name_tree \<Rightarrow> name" where
  "go_deeper k n [] t = k"
| "go_deeper k n (i # is) t =
     (case findExactMatch n i t of None \<Rightarrow> k | Some exact \<Rightarrow> go_deeper exact n is t)"

definition findLongestPrefixMatch_pit ::
  "name \<Rightarrow> name \<Rightarrow> (nte \<Rightarrow> bool) \<Rightarrow> name_tree \<Rightarrow> name option" where
  "findLongestPrefixMatch_pit k n sel t =
     (let depth = min (length n) getMaxDepth;
          k' = (if length k < length n then go_deeper k n [length k + 1..<Suc depth] t else k)
      in findLongestPrefixMatch_entry k' sel t)"

text \<open>The ancestors-or-self of a node that a selector accepts, longest first.\<close>

fun matches_up :: "nat \<Rightarrow> name \<Rightarrow> (nte \<Rightarrow> bool) \<Rightarrow> name_tree \<Rightarrow> name list" where
  "matches_up 0 k sel t = []"
| "matches_up (Suc fuel) k sel t =
     (case tab_get t k of
        None \<Rightarrow> []
      | Some e \<Rightarrow>
          (if sel e then [k] else []) @
          (case nte_parent e of None \<Rightarrow> [] | Some p \<Rightarrow> matches_up fuel p sel t))"

definition findAllMatches :: "name \<Rightarrow> (nte \<Rightarrow> bool) \<Rightarrow> name_tree \<Rightarrow> name list" where
  "findAllMatches n sel t =
     (case findLongestPrefixMatch n sel t of
        None \<Rightarrow> [] | Some k \<Rightarrow> matches_up (length t) k sel t)"

text \<open>All nodes, in table order; the source leaves the order unspecified.\<close>

definition fullEnumerate :: "(nte \<Rightarrow> bool) \<Rightarrow> name_tree \<Rightarrow> name list" where
  "fullEnumerate sel t = map fst (filter (\<lambda>(k, e). sel e) t)"

text \<open>
  Pre-order traversal of a subtree; the selector says whether to visit the node and
  whether to go into its children.  The fuel bounds the depth.
\<close>

fun partial_walk :: "nat \<Rightarrow> (name \<Rightarrow> nte \<Rightarrow> bool \<times> bool) \<Rightarrow> name_tree \<Rightarrow> name \<Rightarrow> name list" where
  "partial_walk 0 sel t k = []"
| "partial_walk (Suc fuel) sel t k =
     (case tab_get t k of
        None \<Rightarrow> []
      | Some e \<Rightarrow>
          (let (wantSelf, wantChildren) = sel k e in
           (if wantSelf then [k] else []) @
           (if wantChildren then concat (map (partial_walk fuel sel t) (nte_children e)) else [])))"

definition partialEnumerate :: "name \<Rightarrow> (name \<Rightarrow> nte \<Rightarrow> bool \<times> bool) \<Rightarrow> name_tree \<Rightarrow> name list" where
  "partialEnumerate p sel t =
     (case findExactMatch p (length p) t of
        None \<Rightarrow> [] | Some k \<Rightarrow> partial_walk (Suc getMaxDepth) sel t k)"

subsection \<open>Attaching entries\<close>

definition setFibEntry :: "name \<Rightarrow> fib_entry option \<Rightarrow> name_tree \<Rightarrow> name_tree" where
  "setFibEntry k v t = tab_modify k (\<lambda>e. e\<lparr>nte_fib := v\<rparr>) t"

definition insertPitEntry :: "name \<Rightarrow> nat \<Rightarrow> name_tree \<Rightarrow> name_tree" where
  "insertPitEntry k pid t = tab_modify k (\<lambda>e. e\<lparr>nte_pit := nte_pit e @ [pid]\<rparr>) t"

definition erasePitEntry :: "name \<Rightarrow> nat \<Rightarrow> name_tree \<Rightarrow> name_tree" where
  "erasePitEntry k pid t = tab_modify k (\<lambda>e. e\<lparr>nte_pit := erase_swap pid (nte_pit e)\<rparr>) t"

definition setMeasurementsEntry :: "name \<Rightarrow> meas_entry option \<Rightarrow> name_tree \<Rightarrow> name_tree" where
  "setMeasurementsEntry k v t = tab_modify k (\<lambda>e. e\<lparr>nte_meas := v\<rparr>) t"

definition setStrategyChoiceEntry :: "name \<Rightarrow> sc_entry option \<Rightarrow> name_tree \<Rightarrow> name_tree" where
  "setStrategyChoiceEntry k v t = tab_modify k (\<lambda>e. e\<lparr>nte_sc := v\<rparr>) t"

section \<open>Invariant and views\<close>

definition nt_ok :: "name_tree \<Rightarrow> bool" where
  "nt_ok t \<longleftrightarrow> distinct (map fst t) \<and>
     (\<forall>k e. tab_get t k = Some e \<longrightarrow>
        length k \<le> getMaxDepth \<and>
        nte_parent e = (if k = [] then None else Some (butlast k)) \<and>
        (k \<noteq> [] \<longrightarrow> tab_get t (butlast k) \<noteq> None) \<and>
        distinct (nte_children e) \<and>
        (\<forall>c. c \<in> set (nte_children e) \<longleftrightarrow> c \<noteq> [] \<and> butlast c = k \<and> tab_get t c \<noteq> None))"

definition node_view :: "name_tree \<Rightarrow> name \<Rightarrow>
    fib_entry option \<times> nat list \<times> meas_entry option \<times> sc_entry option" where
  "node_view t k =
     (case tab_get t k of
        None \<Rightarrow> (None, [], None, None)
      | Some e \<Rightarrow> (nte_fib e, nte_pit e, nte_meas e, nte_sc e))"

definition fib_at :: "name_tree \<Rightarrow> name \<Rightarrow> fib_entry option" where
  "fib_at t k = fst (node_view t k)"

definition pit_at :: "name_tree \<Rightarrow> name \<Rightarrow> nat list" where
  "pit_at t k = fst (snd (node_view t k))"

definition meas_at :: "name_tree \<Rightarrow> name \<Rightarrow> meas_entry option" where
  "meas_at t k = fst (snd (snd (node_view t k)))"

definition sc_at :: "name_tree \<Rightarrow> name \<Rightarrow> sc_entry option" where
  "sc_at t k = snd (snd (snd (node_view t k)))"

section \<open>Inserting nodes\<close>

lemma view_eqI:
  "(\<And>k. node_view t' k = node_view t k) \<Longrightarrow>
     fib_at t' = fib_at t \<and> pit_at t' = pit_at t \<and> meas_at t' = meas_at t \<and> sc_at t' = sc_at t"
  by (auto simp: fib_at_def pit_at_def meas_at_def sc_at_def fun_eq_iff)

lemma view_setParent [simp, nt_laws]: "node_view (setParent k p t) j = node_view t j"
  by (auto simp: setParent_def node_view_def split: option.splits)

lemma view_unsetParent [simp, nt_laws]: "node_view (unsetParent k p t) j = node_view t j"
  by (auto simp: unsetParent_def node_view_def split: option.splits)

lemma view_lookup_step [simp, nt_laws]: "node_view (lookup_step n i t) k = node_view t k"
  by (auto simp: lookup_step_def ht_insert_def Let_def split: option.splits)
     (auto simp: node_view_def nte_new_def)

lemma view_lookup [simp, nt_laws]: "node_view (nt_lookup n l t) k = node_view t k"
  unfolding nt_lookup_def
  by (rule fold_inv [where P = "\<lambda>t'. node_view t' k = node_view t k"]) simp_all

lemma nt_lookup_Suc: "nt_lookup n (Suc l) t = lookup_step n (Suc l) (nt_lookup n l t)"
  by (simp add: nt_lookup_def)

lemma nt_lookup_0: "nt_lookup n 0 t = lookup_step n 0 t"
  by (simp add: nt_lookup_def)

lemma nt_okD:
  assumes "nt_ok t" and "tab_get t k = Some e"
  shows "length k \<le> getMaxDepth" and "nte_parent e = (if k = [] then None else Some (butlast k))"
    and "k \<noteq> [] \<Longrightarrow> \<exists>p. tab_get t (butlast k) = Some p" and "distinct (nte_children e)"
    and "c \<in> set (nte_children e) \<longleftrightarrow> c \<noteq> [] \<and> butlast c = k \<and> tab_get t c \<noteq> None"
  using assms unfolding nt_ok_def by auto

lemma dom_lookup_step:
  "dom (tab_get (lookup_step n i t)) = insert (take i n) (dom (tab_get t))"
  by (auto simp: lookup_step_def ht_insert_def setParent_def Let_def dom_def split: option.splits)

lemma butlast_neq: "c \<noteq> [] \<Longrightarrow> butlast c \<noteq> c"
  by (metis append_butlast_last_id append_self_conv not_Cons_self2)

lemma nte_new_simps [simp]:
  "nte_parent nte_new = None" "nte_children nte_new = []" "nte_fib nte_new = None"
  "nte_pit nte_new = []" "nte_meas nte_new = None" "nte_sc nte_new = None"
  by (simp_all add: nte_new_def)

lemma nt_ok_add_child:
  assumes ok: "nt_ok t" and new: "tab_get t k = None" and k: "k \<noteq> []" "length k \<le> getMaxDepth"
    and par: "tab_get t (butlast k) = Some p"
  shows "nt_ok (setParent k (butlast k) (tab_put k nte_new t))"
proof -
  let ?t = "setParent k (butlast k) (tab_put k nte_new t)"
  have neq: "butlast k \<noteq> k" using k by (simp add: butlast_neq)
  have get: "tab_get ?t j =
     (if j = k then Some (nte_new\<lparr>nte_parent := Some (butlast k)\<rparr>)
      else if j = butlast k then Some (p\<lparr>nte_children := nte_children p @ [k]\<rparr>)
      else tab_get t j)" for j
    using neq par by (auto simp: setParent_def)
  have keys: "distinct (map fst ?t)"
    using ok by (simp add: setParent_def nt_ok_def distinct_update)
  have nochild: "tab_get t c = None" if "c \<noteq> []" "butlast c = k" for c
    using that new nt_okD(3) [OF ok, of c] by (cases "tab_get t c") auto
  have kp: "k \<notin> set (nte_children p)" using nt_okD(5) [OF ok par, of k] new by simp
  show ?thesis
    unfolding nt_ok_def
  proof (intro conjI allI impI keys)
    fix j e assume e: "tab_get ?t j = Some e"
    show "length j \<le> getMaxDepth"
      using e k nt_okD(1) [OF ok] par by (auto simp: get split: if_splits)
    show "nte_parent e = (if j = [] then None else Some (butlast j))"
      using e k nt_okD(2) [OF ok] par by (auto simp: get split: if_splits)
    show "tab_get ?t (butlast j) \<noteq> None" if "j \<noteq> []"
      using e that nt_okD(3) [OF ok] par by (auto simp: get split: if_splits)
    show "distinct (nte_children e)"
      using e nt_okD(4) [OF ok] par kp by (auto simp: get split: if_splits)
    show "(c \<in> set (nte_children e)) \<longleftrightarrow> c \<noteq> [] \<and> butlast c = j \<and> tab_get ?t c \<noteq> None" for c
      using e nt_okD(5) [OF ok, of _ _ c] par k nochild [of c] neq
      by (auto simp: get split: if_splits)
  qed
qed

lemma nt_ok_add_root:
  assumes ok: "nt_ok t" and new: "tab_get t [] = None"
  shows "nt_ok (tab_put [] nte_new t)"
proof -
  have none: "tab_get t k = None" for k
  proof (induction k rule: rev_induct)
    case (snoc c k)
    then show ?case using nt_okD(3) [OF ok, of "k @ [c]"] by (cases "tab_get t (k @ [c])") auto
  qed (rule new)
  show ?thesis using ok
    by (auto simp: nt_ok_def none distinct_update nte_new_def getMaxDepth_def)
qed

lemma nt_ok_lookup_step:
  assumes ok: "nt_ok t" and i: "i \<le> length n" "i \<le> getMaxDepth"
    and par: "i > 0 \<Longrightarrow> tab_get t (take (i - 1) n) \<noteq> None"
  shows "nt_ok (lookup_step n i t)"
proof (cases "tab_get t (take i n)")
  case None
  show ?thesis
  proof (cases i)
    case 0
    then show ?thesis using None nt_ok_add_root [OF ok]
      by (simp add: lookup_step_def ht_insert_def)
  next
    case (Suc j)
    have b: "butlast (take i n) = take j n" using Suc i by (simp add: butlast_take)
    have ne: "n \<noteq> []" using Suc i by auto
    obtain p where "tab_get t (take j n) = Some p" using par Suc by auto
    then have "nt_ok (setParent (take i n) (take j n) (tab_put (take i n) nte_new t))"
      using nt_ok_add_child [OF ok None] b i Suc ne by auto
    then show ?thesis using None Suc by (simp add: lookup_step_def ht_insert_def)
  qed
qed (simp add: lookup_step_def ht_insert_def ok)

lemma nt_lookup_ok:
  assumes "nt_ok t" and "l \<le> length n" and "l \<le> getMaxDepth"
  shows "nt_ok (nt_lookup n l t) \<and>
    dom (tab_get (nt_lookup n l t)) = dom (tab_get t) \<union> (\<lambda>i. take i n) ` {..l}"
  using assms
proof (induction l)
  case 0
  then show ?case by (simp add: nt_lookup_0 nt_ok_lookup_step dom_lookup_step)
next
  case (Suc l)
  then have IH: "nt_ok (nt_lookup n l t)"
    and d: "dom (tab_get (nt_lookup n l t)) = dom (tab_get t) \<union> (\<lambda>i. take i n) ` {..l}" by auto
  have "take l n \<in> dom (tab_get (nt_lookup n l t))" using d by auto
  then have "nt_ok (lookup_step n (Suc l) (nt_lookup n l t))"
    using Suc.prems IH by (intro nt_ok_lookup_step) (auto simp: dom_def)
  then show ?case using d
    by (auto simp: nt_lookup_Suc dom_lookup_step atMost_Suc)
qed

section \<open>Erasing nodes\<close>

lemma distinct_keys_del [simp]: "distinct (map fst t) \<Longrightarrow> distinct (map fst (tab_del k t))"
  by (rule distinct_delete)

text \<open>One round of \<^verbatim>\<open>eraseIfEmpty\<close>.\<close>

definition erase_node :: "name \<Rightarrow> nte \<Rightarrow> name_tree \<Rightarrow> name_tree" where
  "erase_node k e t =
     tab_del k (case nte_parent e of None \<Rightarrow> t | Some p \<Rightarrow> unsetParent k p t)"

lemma eraseIfEmpty_unfold:
  "eraseIfEmpty k c t =
     (case tab_get t k of
        None \<Rightarrow> (t, 0)
      | Some e \<Rightarrow>
          if nte_isEmpty e then
            (if \<not> c then (erase_node k e t, 1)
             else case nte_parent e of
                    None \<Rightarrow> (erase_node k e t, 1)
                  | Some p \<Rightarrow> (let (t3, m) = eraseIfEmpty p c (erase_node k e t) in (t3, Suc m)))
          else (t, 0))"
  by (subst eraseIfEmpty.simps) (auto simp: erase_node_def Let_def split: option.splits)

lemma view_erase_node:
  assumes "tab_get t k = Some e" and "nte_isEmpty e"
  shows "node_view (erase_node k e t) j = node_view t j"
proof -
  have del: "node_view (tab_del k t') j = (if j = k then (None, [], None, None) else node_view t' j)"
    for t' by (simp add: node_view_def)
  have "node_view t k = (None, [], None, None)"
    using assms by (auto simp: node_view_def nte_isEmpty_def hasTableEntries_def)
  then show ?thesis by (auto simp: erase_node_def del split: option.splits)
qed

lemma nt_ok_erase_node:
  assumes ok: "nt_ok t" and e: "tab_get t k = Some e" and emp: "nte_isEmpty e"
  shows "nt_ok (erase_node k e t)"
proof -
  have nochild: "tab_get t c = None" if "c \<noteq> []" "butlast c = k" for c
    using that nt_okD(5) [OF ok e, of c] emp by (auto simp: nte_isEmpty_def)
  have par: "nte_parent e = (if k = [] then None else Some (butlast k))"
    by (rule nt_okD(2) [OF ok e])
  have get: "tab_get (erase_node k e t) j =
     (if j = k then None
      else if k \<noteq> [] \<and> j = butlast k
      then map_option (\<lambda>p. p\<lparr>nte_children := remove1 k (nte_children p)\<rparr>) (tab_get t j)
      else tab_get t j)" for j
    by (auto simp: erase_node_def par unsetParent_def)
  have keys: "distinct (map fst (erase_node k e t))"
    using ok by (auto simp: erase_node_def unsetParent_def nt_ok_def split: option.splits)
  show ?thesis
    unfolding nt_ok_def
  proof (intro conjI allI impI keys)
    fix j e' assume j: "tab_get (erase_node k e t) j = Some e'"
    then obtain e0 where e0: "tab_get t j = Some e0" and jk: "j \<noteq> k"
      and e': "e' = (if k \<noteq> [] \<and> j = butlast k
                     then e0\<lparr>nte_children := remove1 k (nte_children e0)\<rparr> else e0)"
      by (auto simp: get split: if_splits)
    note D = nt_okD [OF ok e0]
    show "length j \<le> getMaxDepth" by (rule D(1))
    show "nte_parent e' = (if j = [] then None else Some (butlast j))" using D(2) e' by auto
    show "tab_get (erase_node k e t) (butlast j) \<noteq> None" if "j \<noteq> []"
      using D(3) [OF that] nochild [of j] that e0 by (auto simp: get)
    show "distinct (nte_children e')" using D(4) e' by auto
    show "(c \<in> set (nte_children e')) \<longleftrightarrow>
        c \<noteq> [] \<and> butlast c = j \<and> tab_get (erase_node k e t) c \<noteq> None" for c
      using D(4) D(5) [of c] e' jk by (auto simp: get)
  qed
qed

lemma eraseIfEmpty_props:
  "nt_ok t \<Longrightarrow> nt_ok (fst (eraseIfEmpty k c t)) \<and>
     (\<forall>j. node_view (fst (eraseIfEmpty k c t)) j = node_view t j)"
proof (induction k c t rule: eraseIfEmpty.induct)
  case (1 k c t)
  show ?case
  proof (cases "\<exists>e. tab_get t k = Some e \<and> nte_isEmpty e")
    case False
    then show ?thesis using 1(2) by (subst (1 2) eraseIfEmpty_unfold) (auto split: option.splits)
  next
    case True
    then obtain e where e: "tab_get t k = Some e" "nte_isEmpty e" by auto
    note ok = nt_ok_erase_node [OF 1(2) e] and view = view_erase_node [OF e]
    show ?thesis
    proof (cases "c \<and> nte_parent e \<noteq> None")
      case True
      then obtain p where p: "nte_parent e = Some p" and c: c by auto
      have IH: "nt_ok (fst (eraseIfEmpty p c (erase_node k e t))) \<and>
          (\<forall>j. node_view (fst (eraseIfEmpty p c (erase_node k e t))) j =
               node_view (erase_node k e t) j)"
        using 1(1) [OF e refl refl _ p] c ok p by (simp add: erase_node_def)
      have "fst (eraseIfEmpty k c t) = fst (eraseIfEmpty p c (erase_node k e t))"
        using e p c by (subst eraseIfEmpty_unfold) (simp add: Let_def split: prod.splits)
      then show ?thesis using IH view by simp
    next
      case False
      then have "fst (eraseIfEmpty k c t) = erase_node k e t"
        using e by (subst eraseIfEmpty_unfold) (auto split: option.splits)
      then show ?thesis using ok view by simp
    qed
  qed
qed

lemmas eraseIfEmpty_ok [simp, nt_laws] = eraseIfEmpty_props [THEN conjunct1]

lemma view_eraseIfEmpty [simp, nt_laws]:
  "nt_ok t \<Longrightarrow> node_view (fst (eraseIfEmpty k c t)) j = node_view t j"
  using eraseIfEmpty_props by blast

section \<open>Longest prefix match\<close>

definition accepted :: "name_tree \<Rightarrow> (nte \<Rightarrow> bool) \<Rightarrow> name \<Rightarrow> bool" where
  "accepted t sel k \<longleftrightarrow> (case tab_get t k of None \<Rightarrow> False | Some e \<Rightarrow> sel e)"

lemma lpm_loop_accepted:
  "lpm_loop n sel t 0 = (if accepted t sel [] then Some [] else None)"
  "lpm_loop n sel t (Suc i) =
     (if accepted t sel (take (Suc i) n) then Some (take (Suc i) n) else lpm_loop n sel t i)"
  by (auto simp: accepted_def split: option.splits)

lemma lpm_loop_cong:
  "(\<And>j. j \<le> i \<Longrightarrow> accepted t sel (take j n) = accepted t' sel' (take j n')) \<Longrightarrow>
   (\<And>j. j \<le> i \<Longrightarrow> take j n = take j n') \<Longrightarrow>
   lpm_loop n sel t i = lpm_loop n' sel' t' i"
proof (induction i)
  case 0
  then show ?case by (simp only: lpm_loop_accepted) (metis order_refl take0)
next
  case (Suc i)
  have "lpm_loop n sel t i = lpm_loop n' sel' t' i" by (rule Suc.IH) (use Suc.prems in auto)
  then show ?case using Suc.prems [of "Suc i"] by (simp only: lpm_loop_accepted order_refl)
qed

lemma lpm_loop_Some:
  "lpm_loop n sel t i = Some k \<longleftrightarrow>
     (\<exists>j \<le> i. k = take j n \<and> accepted t sel k \<and> (\<forall>j'. j < j' \<and> j' \<le> i \<longrightarrow> \<not> accepted t sel (take j' n)))"
proof (induction i)
  case 0
  then show ?case by (auto simp: lpm_loop_accepted simp del: lpm_loop.simps)
next
  case (Suc i)
  show ?case
  proof (cases "accepted t sel (take (Suc i) n)")
    case True
    then show ?thesis
      by (auto simp: lpm_loop_accepted le_Suc_eq simp del: lpm_loop.simps intro: exI [of _ "Suc i"])
  next
    case False
    then show ?thesis using Suc
      by (auto simp: lpm_loop_accepted le_Suc_eq simp del: lpm_loop.simps)
  qed
qed

lemma lpm_loop_None:
  "lpm_loop n sel t i = None \<longleftrightarrow> (\<forall>j \<le> i. \<not> accepted t sel (take j n))"
  by (induction i) (auto simp: lpm_loop_accepted le_Suc_eq simp del: lpm_loop.simps)

text \<open>The longest prefix match, as a specification over prefixes.\<close>

lemma findLongestPrefixMatch_spec:
  "findLongestPrefixMatch n sel t = Some k \<longleftrightarrow>
     prefix k n \<and> length k \<le> getMaxDepth \<and> accepted t sel k \<and>
     (\<forall>p. prefix p n \<and> length p \<le> getMaxDepth \<and> accepted t sel p \<longrightarrow> length p \<le> length k)"
proof -
  have "lpm_loop n sel t (min (length n) getMaxDepth) = Some k \<longleftrightarrow>
      (\<exists>j \<le> min (length n) getMaxDepth. k = take j n \<and> accepted t sel k \<and>
        (\<forall>j'. j < j' \<and> j' \<le> min (length n) getMaxDepth \<longrightarrow> \<not> accepted t sel (take j' n)))"
    by (rule lpm_loop_Some)
  also have "\<dots> \<longleftrightarrow> prefix k n \<and> length k \<le> getMaxDepth \<and> accepted t sel k \<and>
     (\<forall>p. prefix p n \<and> length p \<le> getMaxDepth \<and> accepted t sel p \<longrightarrow> length p \<le> length k)"
    (is "?L \<longleftrightarrow> ?R")
  proof
    assume ?L
    then obtain j where j: "j \<le> length n" "j \<le> getMaxDepth" "k = take j n" "accepted t sel k"
      and no: "\<And>j'. j < j' \<Longrightarrow> j' \<le> length n \<Longrightarrow> j' \<le> getMaxDepth \<Longrightarrow> \<not> accepted t sel (take j' n)"
      by auto
    have "length p \<le> length k" if "prefix p n" "length p \<le> getMaxDepth" "accepted t sel p" for p
    proof (rule ccontr)
      assume "\<not> length p \<le> length k"
      moreover have "p = take (length p) n" "length p \<le> length n"
        using that(1) by (auto simp: prefix_def)
      ultimately show False using no [of "length p"] that j by auto
    qed
    then show ?R using j by (auto simp: take_is_prefix)
  next
    assume r: ?R
    then have k: "k = take (length k) n" "length k \<le> length n" by (auto simp: prefix_def)
    moreover have "\<not> accepted t sel (take j' n)"
      if "length k < j'" "j' \<le> min (length n) getMaxDepth" for j'
      using r that take_is_prefix [of j' n] by fastforce
    ultimately show ?L using r by (intro exI [of _ "length k"]) auto
  qed
  finally show ?thesis by (simp add: findLongestPrefixMatch_def)
qed

lemma findLongestPrefixMatch_cong:
  "(\<And>k. accepted t sel k = accepted t' sel k) \<Longrightarrow>
     findLongestPrefixMatch n sel t = findLongestPrefixMatch n sel t'"
  unfolding findLongestPrefixMatch_def by (rule lpm_loop_cong) auto

section \<open>Walking up\<close>

lemma nt_prefix_closed:
  assumes "nt_ok t" and "tab_get t k \<noteq> None" and "prefix p k"
  shows "tab_get t p \<noteq> None"
  using assms(2,3)
proof (induction k rule: rev_induct)
  case (snoc c k)
  then show ?case using nt_okD(3) [OF assms(1), of "k @ [c]"]
    by (cases "p = k @ [c]") (auto simp: prefix_snoc)
qed simp

lemma depth_less_nodes:
  assumes "nt_ok t" and "tab_get t k \<noteq> None"
  shows "length k < length t"
proof -
  have "(\<lambda>i. take i k) ` {..length k} \<subseteq> fst ` set t"
    using nt_prefix_closed [OF assms] by (fastforce simp: tab_get_None_keys take_is_prefix)
  then have "card ((\<lambda>i. take i k) ` {..length k}) \<le> card (fst ` set t)"
    by (intro card_mono) auto
  moreover have "inj_on (\<lambda>i. take i k) {..length k}"
    by (rule inj_onI) (metis atMost_iff length_take min.absorb2)
  moreover have "card (fst ` set t) \<le> length t"
    by (metis card_length length_map set_map)
  ultimately show ?thesis by (simp add: card_image)
qed

lemma lpm_loop_append:
  "i \<le> length k \<Longrightarrow> lpm_loop (k @ x) sel t i = lpm_loop k sel t i"
  by (rule lpm_loop_cong) auto

lemma lpm_walk_eq:
  assumes "nt_ok t"
  shows "tab_get t k \<noteq> None \<Longrightarrow> length k < fuel \<Longrightarrow>
    lpm_walk fuel k sel t = lpm_loop k sel t (length k)"
proof (induction k arbitrary: fuel rule: rev_induct)
  case Nil
  then obtain e f where e: "tab_get t [] = Some e" and f: "fuel = Suc f"
    by (cases fuel) auto
  have "nte_parent e = None" using nt_okD(2) [OF assms e] by simp
  then show ?case using e f by (simp add: accepted_def)
next
  case (snoc c k)
  then obtain e f where e: "tab_get t (k @ [c]) = Some e" and f: "fuel = Suc f"
    by (cases fuel) auto
  have "tab_get t k \<noteq> None" using nt_okD(3) [OF assms e] by auto
  then have "lpm_walk f k sel t = lpm_loop k sel t (length k)" using snoc f by auto
  moreover have "nte_parent e = Some k" using nt_okD(2) [OF assms e] by simp
  ultimately show ?case using e f by (simp add: lpm_loop_append)
qed

lemma findLongestPrefixMatch_entry_eq:
  assumes "nt_ok t" and "tab_get t k \<noteq> None"
  shows "findLongestPrefixMatch_entry k sel t = findLongestPrefixMatch k sel t"
proof -
  have "length k \<le> getMaxDepth" using nt_okD(1) [OF assms(1)] assms(2) by auto
  then show ?thesis
    using lpm_walk_eq [OF assms depth_less_nodes [OF assms]]
    by (simp add: findLongestPrefixMatch_entry_def findLongestPrefixMatch_def min_def)
qed

lemma matches_up_eq:
  assumes "nt_ok t"
  shows "tab_get t k \<noteq> None \<Longrightarrow> length k < fuel \<Longrightarrow>
    matches_up fuel k sel t =
      filter (accepted t sel) (map (\<lambda>i. take i k) (rev [0..<Suc (length k)]))"
proof (induction k arbitrary: fuel rule: rev_induct)
  case Nil
  then obtain e f where e: "tab_get t [] = Some e" and f: "fuel = Suc f"
    by (cases fuel) auto
  have "nte_parent e = None" using nt_okD(2) [OF assms e] by simp
  then show ?case using e f by (simp add: accepted_def)
next
  case (snoc c k)
  then obtain e f where e: "tab_get t (k @ [c]) = Some e" and f: "fuel = Suc f"
    by (cases fuel) auto
  have "tab_get t k \<noteq> None" using nt_okD(3) [OF assms e] by auto
  then have "matches_up f k sel t =
      filter (accepted t sel) (map (\<lambda>i. take i k) (rev [0..<Suc (length k)]))"
    using snoc f by auto
  moreover have "map (\<lambda>i. take i (k @ [c])) (rev [0..<Suc (length (k @ [c]))]) =
      (k @ [c]) # map (\<lambda>i. take i k) (rev [0..<Suc (length k)])"
  proof -
    have "map (\<lambda>i. take i (k @ [c])) (rev [0..<Suc (length k)]) =
        map (\<lambda>i. take i k) (rev [0..<Suc (length k)])"
      by (rule map_cong) auto
    then show ?thesis by simp
  qed
  moreover have "matches_up fuel (k @ [c]) sel t =
      (if accepted t sel (k @ [c]) then [k @ [c]] else []) @ matches_up f k sel t"
    using e f nt_okD(2) [OF assms e] by (simp add: accepted_def)
  ultimately show ?case by (simp only: filter.simps) simp
qed

lemma accepted_present: "accepted t sel k \<Longrightarrow> tab_get t k \<noteq> None"
  by (auto simp: accepted_def split: option.splits)

lemma findAllMatches_eq:
  assumes "nt_ok t"
  shows "findAllMatches n sel t =
    filter (accepted t sel) (map (\<lambda>i. take i n) (rev [0..<Suc (min (length n) getMaxDepth)]))"
proof (cases "findLongestPrefixMatch n sel t")
  case None
  then have "\<forall>j \<le> min (length n) getMaxDepth. \<not> accepted t sel (take j n)"
    by (simp only: findLongestPrefixMatch_def lpm_loop_None)
  then have "filter (accepted t sel)
      (map (\<lambda>i. take i n) (rev [0..<Suc (min (length n) getMaxDepth)])) = []"
    by (auto simp: filter_empty_conv)
  then show ?thesis using None by (simp add: findAllMatches_def)
next
  case (Some k)
  define d where "d = min (length n) getMaxDepth"
  from Some obtain j where j: "j \<le> d" "k = take j n" "accepted t sel k"
    and no: "\<And>j'. j < j' \<Longrightarrow> j' \<le> d \<Longrightarrow> \<not> accepted t sel (take j' n)"
    by (auto simp: findLongestPrefixMatch_def lpm_loop_Some d_def)
  have len: "length k = j" using j by (simp add: d_def)
  have present: "tab_get t k \<noteq> None" by (rule accepted_present [OF j(3)])
  have "[0..<Suc d] = [0..<Suc j] @ [Suc j..<Suc d]"
    using j(1) by (metis Suc_le_mono le_add_diff_inverse upt_add_eq_append zero_le)
  moreover have "filter (accepted t sel) (map (\<lambda>i. take i n) (rev [Suc j..<Suc d])) = []"
    using no by (auto simp: filter_empty_conv)
  moreover have eq: "map (\<lambda>i. take i k) (rev [0..<Suc j]) = map (\<lambda>i. take i n) (rev [0..<Suc j])"
    using j(2) by (intro map_cong) auto
  ultimately have "filter (accepted t sel) (map (\<lambda>i. take i n) (rev [0..<Suc d])) =
      filter (accepted t sel) (map (\<lambda>i. take i k) (rev [0..<Suc j]))"
    by (simp only: eq rev_append map_append filter_append append_Nil)
  then show ?thesis
    using matches_up_eq [OF assms present depth_less_nodes [OF assms present]] Some len
    by (simp add: findAllMatches_def d_def del: upt_Suc)
qed

lemma set_findAllMatches:
  assumes "nt_ok t"
  shows "k \<in> set (findAllMatches n sel t) \<longleftrightarrow>
    prefix k n \<and> length k \<le> getMaxDepth \<and> accepted t sel k"
proof -
  have "(\<exists>i \<le> min (length n) getMaxDepth. k = take i n) \<longleftrightarrow> prefix k n \<and> length k \<le> getMaxDepth"
  proof
    assume "prefix k n \<and> length k \<le> getMaxDepth"
    then show "\<exists>i \<le> min (length n) getMaxDepth. k = take i n"
      by (intro exI [of _ "length k"]) (auto simp: prefix_def)
  qed (auto simp: take_is_prefix)
  then show ?thesis
    by (auto simp: findAllMatches_eq [OF assms] less_Suc_eq_le simp del: upt_Suc)
qed

lemma go_deeper_props:
  assumes "nt_ok t" and "d \<le> length n" and "d \<le> getMaxDepth"
  shows "m \<le> d \<Longrightarrow> tab_get t (take m n) \<noteq> None \<Longrightarrow>
    \<exists>m'. m \<le> m' \<and> m' \<le> d \<and> go_deeper (take m n) n [Suc m..<Suc d] t = take m' n \<and>
      tab_get t (take m' n) \<noteq> None \<and> (m' = d \<or> tab_get t (take (Suc m') n) = None)"
proof (induction "d - m" arbitrary: m)
  case 0
  then show ?case by (intro exI [of _ m]) auto
next
  case (Suc x)
  then have m: "m < d" by linarith
  then have u: "[Suc m..<Suc d] = Suc m # [Suc (Suc m)..<Suc d]" by (subst upt_rec) simp
  have f: "findExactMatch n (Suc m) t =
      (case tab_get t (take (Suc m) n) of None \<Rightarrow> None | Some _ \<Rightarrow> Some (take (Suc m) n))"
  proof -
    have "min (length n) (Suc m) = Suc m" "\<not> getMaxDepth < Suc m" using m assms by linarith+
    then show ?thesis by (simp add: findExactMatch_def)
  qed
  show ?case
  proof (cases "tab_get t (take (Suc m) n)")
    case None
    then show ?thesis using m Suc.prems by (intro exI [of _ m]) (simp add: u f del: upt_Suc)
  next
    case (Some e)
    have "\<exists>m'. Suc m \<le> m' \<and> m' \<le> d \<and> go_deeper (take (Suc m) n) n [Suc (Suc m)..<Suc d] t = take m' n \<and>
        tab_get t (take m' n) \<noteq> None \<and> (m' = d \<or> tab_get t (take (Suc m') n) = None)"
      using Suc.hyps(2) m Some by (intro Suc.hyps(1)) auto
    then obtain m' where "Suc m \<le> m'" "m' \<le> d" "tab_get t (take m' n) \<noteq> None"
        "go_deeper (take (Suc m) n) n [Suc (Suc m)..<Suc d] t = take m' n"
        "m' = d \<or> tab_get t (take (Suc m') n) = None" by blast
    then show ?thesis by (intro exI [of _ m']) (simp add: u f Some del: upt_Suc)
  qed
qed

text \<open>The overload for PIT entries finds the same node as a search by name.\<close>

lemma findLongestPrefixMatch_pit_eq:
  assumes ok: "nt_ok t" and k: "k = take m n" "m \<le> length n" "tab_get t k \<noteq> None"
  shows "findLongestPrefixMatch_pit k n sel t = findLongestPrefixMatch n sel t"
proof (cases "m < length n")
  case False
  then have "k = n" using k by simp
  then show ?thesis
    using findLongestPrefixMatch_entry_eq [OF ok] k
    by (simp add: findLongestPrefixMatch_pit_def Let_def)
next
  case True
  define d where "d = min (length n) getMaxDepth"
  have md: "m \<le> d" using k nt_okD(1) [OF ok] by (fastforce simp: d_def)
  obtain m' where m': "m' \<le> d" "go_deeper (take m n) n [Suc m..<Suc d] t = take m' n"
      "tab_get t (take m' n) \<noteq> None" "m' = d \<or> tab_get t (take (Suc m') n) = None"
    using go_deeper_props [OF ok, of d n m] md k by (auto simp: d_def)
  have beyond: "\<not> accepted t sel (take j n)" if "m' < j" "j \<le> d" for j
  proof -
    have "tab_get t (take (Suc m') n) = None" using that m' by auto
    moreover have "prefix (take (Suc m') n) (take j n)"
      using that by (metis Suc_leI min.absorb1 take_is_prefix take_take)
    ultimately show ?thesis using nt_prefix_closed [OF ok] accepted_present by blast
  qed
  have "findLongestPrefixMatch_pit k n sel t = findLongestPrefixMatch_entry (take m' n) sel t"
    using True k m'(2) by (simp add: findLongestPrefixMatch_pit_def Let_def d_def del: upt_Suc)
  also have "\<dots> = findLongestPrefixMatch (take m' n) sel t"
    by (rule findLongestPrefixMatch_entry_eq [OF ok m'(3)])
  also have "\<dots> = lpm_loop n sel t m'"
  proof -
    have "min (length (take m' n)) getMaxDepth = m'" using m'(1) by (simp add: d_def)
    then show ?thesis unfolding findLongestPrefixMatch_def by (auto intro: lpm_loop_cong)
  qed
  also have "lpm_loop n sel t m' = lpm_loop n sel t d"
    using m'(1) beyond
  proof (induction d)
    case (Suc d)
    then show ?case
      by (cases "m' = Suc d") (auto simp: lpm_loop_accepted simp del: lpm_loop.simps)
  qed simp
  finally show ?thesis by (simp add: findLongestPrefixMatch_def d_def)
qed

section \<open>Subtree enumeration\<close>

lemma prefix_step:
  assumes "prefix p j" and "j \<noteq> p" and "prefix j k" and "prefix (p @ [x]) k"
  shows "prefix (p @ [x]) j"
proof -
  obtain zs where j: "j = p @ zs" using assms(1) by (auto simp: prefix_def)
  then show ?thesis using assms(2-4) by (cases zs) (auto simp: prefix_def)
qed

lemma partial_walk_mem:
  assumes ok: "nt_ok t"
  shows "tab_get t p \<noteq> None \<Longrightarrow> getMaxDepth < fuel + length p \<Longrightarrow>
    k \<in> set (partial_walk fuel sel t p) \<longleftrightarrow>
      prefix p k \<and> (\<exists>e. tab_get t k = Some e \<and> fst (sel k e)) \<and>
      (\<forall>j. prefix p j \<and> strict_prefix j k \<longrightarrow> (\<exists>e. tab_get t j = Some e \<and> snd (sel j e)))"
proof (induction fuel arbitrary: p)
  case 0
  then show ?case using nt_okD(1) [OF ok] by fastforce
next
  case (Suc fuel)
  then obtain e where e: "tab_get t p = Some e" by auto
  have child: "c \<in> set (nte_children e) \<longleftrightarrow> (\<exists>x. c = p @ [x]) \<and> tab_get t c \<noteq> None" for c
    using nt_okD(5) [OF ok e, of c] by (cases c rule: rev_cases) auto
  have IH: "k \<in> set (partial_walk fuel sel t (p @ [x])) \<longleftrightarrow>
      prefix (p @ [x]) k \<and> (\<exists>e. tab_get t k = Some e \<and> fst (sel k e)) \<and>
      (\<forall>j. prefix (p @ [x]) j \<and> strict_prefix j k \<longrightarrow> (\<exists>e. tab_get t j = Some e \<and> snd (sel j e)))"
    if "tab_get t (p @ [x]) \<noteq> None" for x
    using Suc.IH [of "p @ [x]"] Suc.prems that by simp
  have walk: "k \<in> set (partial_walk (Suc fuel) sel t p) \<longleftrightarrow>
      (k = p \<and> fst (sel p e)) \<or>
      (snd (sel p e) \<and> (\<exists>x. tab_get t (p @ [x]) \<noteq> None \<and> k \<in> set (partial_walk fuel sel t (p @ [x]))))"
  proof -
    have "k \<in> set (partial_walk (Suc fuel) sel t p) \<longleftrightarrow>
        (k = p \<and> fst (sel p e)) \<or>
        (snd (sel p e) \<and> (\<exists>c \<in> set (nte_children e). k \<in> set (partial_walk fuel sel t c)))"
      using e by (auto simp: Let_def case_prod_beta)
    moreover have "(\<exists>c \<in> set (nte_children e). k \<in> set (partial_walk fuel sel t c)) \<longleftrightarrow>
        (\<exists>x. tab_get t (p @ [x]) \<noteq> None \<and> k \<in> set (partial_walk fuel sel t (p @ [x])))"
      unfolding Bex_def child by auto
    ultimately show ?thesis by simp
  qed
  show ?case
  proof (cases "k = p")
    case True
    have "\<not> prefix (p @ [x]) p" for x by (simp add: prefix_def)
    then have "\<not> (\<exists>x. tab_get t (p @ [x]) \<noteq> None \<and> p \<in> set (partial_walk fuel sel t (p @ [x])))"
      using IH True by blast
    then have "k \<in> set (partial_walk (Suc fuel) sel t p) \<longleftrightarrow> fst (sel p e)"
      using walk True by blast
    moreover have "\<not> (prefix p j \<and> strict_prefix j p)" for j
      by (auto simp: strict_prefix_def dest: prefix_order.antisym)
    ultimately show ?thesis using e True by (auto simp del: partial_walk.simps)
  next
    case False
    show ?thesis
    proof
      assume "k \<in> set (partial_walk (Suc fuel) sel t p)"
      then obtain x where x: "snd (sel p e)" "tab_get t (p @ [x]) \<noteq> None"
          "k \<in> set (partial_walk fuel sel t (p @ [x]))" using walk False by auto
      note kx = IH [OF x(2), THEN iffD1, OF x(3)]
      have "\<exists>e. tab_get t j = Some e \<and> snd (sel j e)" if "prefix p j" "strict_prefix j k" for j
      proof (cases "j = p")
        case False
        then have "prefix (p @ [x]) j"
          using that kx by (intro prefix_step [of p j k]) (auto simp: strict_prefix_def)
        then show ?thesis using kx that by blast
      qed (use e x in auto)
      then show "prefix p k \<and> (\<exists>e. tab_get t k = Some e \<and> fst (sel k e)) \<and>
          (\<forall>j. prefix p j \<and> strict_prefix j k \<longrightarrow> (\<exists>e. tab_get t j = Some e \<and> snd (sel j e)))"
        using kx append_prefixD by blast
    next
      assume R: "prefix p k \<and> (\<exists>e. tab_get t k = Some e \<and> fst (sel k e)) \<and>
          (\<forall>j. prefix p j \<and> strict_prefix j k \<longrightarrow> (\<exists>e. tab_get t j = Some e \<and> snd (sel j e)))"
      then obtain zs where "k = p @ zs" "zs \<noteq> []" using False by (auto simp: prefix_def)
      then obtain x ys where k: "k = (p @ [x]) @ ys" by (cases zs) auto
      have px: "tab_get t (p @ [x]) \<noteq> None"
        using R k nt_prefix_closed [OF ok, of k "p @ [x]"] by (auto simp: prefix_def)
      have "snd (sel p e)" using R e False by (auto simp: strict_prefix_def)
      moreover have "k \<in> set (partial_walk fuel sel t (p @ [x]))"
      proof -
        have "prefix p j" if "prefix (p @ [x]) j" for j using that append_prefixD by blast
        moreover have "prefix (p @ [x]) k" using k by (simp add: prefix_def)
        ultimately show ?thesis unfolding IH [OF px] using R by blast
      qed
      ultimately show "k \<in> set (partial_walk (Suc fuel) sel t p)" using walk px by blast
    qed
  qed
qed

section \<open>Views after attaching entries\<close>

lemma nt_ok_modify:
  assumes f: "\<And>e. nte_parent (f e) = nte_parent e" "\<And>e. nte_children (f e) = nte_children e"
    and ok: "nt_ok t"
  shows "nt_ok (tab_modify k f t)"
  unfolding nt_ok_def
proof (intro conjI allI impI)
  show "distinct (map fst (tab_modify k f t))" using ok by (simp add: nt_ok_def)
next
  have some: "(tab_get (tab_modify k f t) c \<noteq> None) = (tab_get t c \<noteq> None)" for c by auto
  fix j e assume "tab_get (tab_modify k f t) j = Some e"
  then obtain e0 where e0: "tab_get t j = Some e0" and e: "e = f e0 \<or> e = e0"
    by (auto split: if_splits)
  note D = nt_okD [OF ok e0]
  have same: "nte_parent e = nte_parent e0" "nte_children e = nte_children e0" using e f by auto
  show "length j \<le> getMaxDepth" by (rule D(1))
  show "nte_parent e = (if j = [] then None else Some (butlast j))" using D(2) same by simp
  show "j \<noteq> [] \<Longrightarrow> tab_get (tab_modify k f t) (butlast j) \<noteq> None" using D(3) some by simp
  show "distinct (nte_children e)" using D(4) same by simp
  show "(c \<in> set (nte_children e)) =
      (c \<noteq> [] \<and> butlast c = j \<and> tab_get (tab_modify k f t) c \<noteq> None)" for c
    using D(5) [of c] same some by simp
qed

lemma nt_ok_attach [simp, nt_laws]:
  assumes "nt_ok t"
  shows "nt_ok (setFibEntry k v t)" "nt_ok (insertPitEntry k pid t)" "nt_ok (erasePitEntry k pid t)"
    "nt_ok (setMeasurementsEntry k mv t)" "nt_ok (setStrategyChoiceEntry k sv t)"
  using assms by (simp_all add: setFibEntry_def insertPitEntry_def erasePitEntry_def
      setMeasurementsEntry_def setStrategyChoiceEntry_def nt_ok_modify)

lemmas view_defs = fib_at_def pit_at_def meas_at_def sc_at_def node_view_def

lemma fib_at_attach [simp, nt_laws]:
  "fib_at (setFibEntry k v t) j = (if j = k \<and> tab_get t k \<noteq> None then v else fib_at t j)"
  "fib_at (insertPitEntry k pid t) j = fib_at t j"
  "fib_at (erasePitEntry k pid t) j = fib_at t j"
  "fib_at (setMeasurementsEntry k mv t) j = fib_at t j"
  "fib_at (setStrategyChoiceEntry k sv t) j = fib_at t j"
  by (auto simp: setFibEntry_def insertPitEntry_def erasePitEntry_def setMeasurementsEntry_def
      setStrategyChoiceEntry_def view_defs split: option.splits)

lemma erase_swap_Nil [simp]: "erase_swap x [] = []"
  by (simp add: erase_swap_def)

lemma pit_at_attach [simp, nt_laws]:
  "pit_at (setFibEntry k v t) j = pit_at t j"
  "pit_at (insertPitEntry k pid t) j =
     (if j = k \<and> tab_get t k \<noteq> None then pit_at t j @ [pid] else pit_at t j)"
  "pit_at (erasePitEntry k pid t) j =
     (if j = k then erase_swap pid (pit_at t j) else pit_at t j)"
  "pit_at (setMeasurementsEntry k mv t) j = pit_at t j"
  "pit_at (setStrategyChoiceEntry k sv t) j = pit_at t j"
  by (auto simp: setFibEntry_def insertPitEntry_def erasePitEntry_def setMeasurementsEntry_def
      setStrategyChoiceEntry_def view_defs split: option.splits)

lemma meas_at_attach [simp, nt_laws]:
  "meas_at (setFibEntry k v t) j = meas_at t j"
  "meas_at (insertPitEntry k pid t) j = meas_at t j"
  "meas_at (erasePitEntry k pid t) j = meas_at t j"
  "meas_at (setMeasurementsEntry k mv t) j =
     (if j = k \<and> tab_get t k \<noteq> None then mv else meas_at t j)"
  "meas_at (setStrategyChoiceEntry k sv t) j = meas_at t j"
  by (auto simp: setFibEntry_def insertPitEntry_def erasePitEntry_def setMeasurementsEntry_def
      setStrategyChoiceEntry_def view_defs split: option.splits)

lemma sc_at_attach [simp, nt_laws]:
  "sc_at (setFibEntry k v t) j = sc_at t j"
  "sc_at (insertPitEntry k pid t) j = sc_at t j"
  "sc_at (erasePitEntry k pid t) j = sc_at t j"
  "sc_at (setMeasurementsEntry k mv t) j = sc_at t j"
  "sc_at (setStrategyChoiceEntry k sv t) j =
     (if j = k \<and> tab_get t k \<noteq> None then sv else sc_at t j)"
  by (auto simp: setFibEntry_def insertPitEntry_def erasePitEntry_def setMeasurementsEntry_def
      setStrategyChoiceEntry_def view_defs split: option.splits)

lemma views_lookup [simp, nt_laws]:
  "fib_at (nt_lookup n l t) = fib_at t" "pit_at (nt_lookup n l t) = pit_at t"
  "meas_at (nt_lookup n l t) = meas_at t" "sc_at (nt_lookup n l t) = sc_at t"
  by (simp_all add: fib_at_def pit_at_def meas_at_def sc_at_def fun_eq_iff)

lemma views_erase [simp, nt_laws]:
  assumes "nt_ok t"
  shows "fib_at (fst (eraseIfEmpty k c t)) = fib_at t" "pit_at (fst (eraseIfEmpty k c t)) = pit_at t"
    "meas_at (fst (eraseIfEmpty k c t)) = meas_at t" "sc_at (fst (eraseIfEmpty k c t)) = sc_at t"
  using assms by (simp_all add: fib_at_def pit_at_def meas_at_def sc_at_def fun_eq_iff)

lemma present_after_lookup [simp]:
  assumes "nt_ok t" "l \<le> length n" "l \<le> getMaxDepth" "i \<le> l"
  shows "tab_get (nt_lookup n l t) (take i n) \<noteq> None"
proof -
  have "take i n \<in> dom (tab_get (nt_lookup n l t))"
    using nt_lookup_ok [OF assms(1-3)] assms(4) by auto
  then show ?thesis by auto
qed

lemma nt_ok_lookup [simp, nt_laws]:
  "nt_ok t \<Longrightarrow> l \<le> length n \<Longrightarrow> l \<le> getMaxDepth \<Longrightarrow> nt_ok (nt_lookup n l t)"
  using nt_lookup_ok by blast

lemma accepted_views:
  "accepted t (\<lambda>e. nte_fib e \<noteq> None) k \<longleftrightarrow> fib_at t k \<noteq> None"
  "accepted t (\<lambda>e. nte_pit e \<noteq> []) k \<longleftrightarrow> pit_at t k \<noteq> []"
  "accepted t (\<lambda>e. nte_sc e \<noteq> None) k \<longleftrightarrow> sc_at t k \<noteq> None"
  by (auto simp: accepted_def view_defs split: option.splits)

lemma partialEnumerate_iff:
  assumes "nt_ok t" and "length p \<le> getMaxDepth"
  shows "k \<in> set (partialEnumerate p sel t) \<longleftrightarrow>
    prefix p k \<and> (\<exists>e. tab_get t k = Some e \<and> fst (sel k e)) \<and>
    (\<forall>j. prefix p j \<and> strict_prefix j k \<longrightarrow> (\<exists>e. tab_get t j = Some e \<and> snd (sel j e)))"
proof (cases "tab_get t p")
  case None
  then have "tab_get t k = None" if "prefix p k"
    using nt_prefix_closed [OF assms(1) _ that] by blast
  then show ?thesis using None assms(2) by (auto simp: partialEnumerate_def findExactMatch_def)
next
  case (Some e)
  then show ?thesis
    using partial_walk_mem [OF assms(1), of p "Suc getMaxDepth"] assms(2)
    by (simp add: partialEnumerate_def findExactMatch_def)
qed

section \<open>Garbage\<close>

text \<open>A node is garbage when it has neither children nor table entries.\<close>

definition garbage :: "name_tree \<Rightarrow> name set" where
  "garbage t = {k. \<exists>e. tab_get t k = Some e \<and> nte_isEmpty e}"

lemma erase_node_get:
  assumes "tab_get t k = Some e" and "nt_ok t"
  shows "tab_get (erase_node k e t) j =
    (if j = k then None
     else if k \<noteq> [] \<and> j = butlast k
       then map_option (\<lambda>p. p\<lparr>nte_children := remove1 k (nte_children p)\<rparr>) (tab_get t j)
     else tab_get t j)"
  using nt_okD(2) [OF assms(2,1)] assms(1)
  by (auto simp: erase_node_def unsetParent_def butlast_neq)

lemma garbage_erase_node:
  assumes "tab_get t k = Some e" and "nt_ok t"
  shows "garbage (erase_node k e t) \<subseteq> garbage t - {k} \<union> (if k = [] then {} else {butlast k})"
  by (auto simp: garbage_def erase_node_get [OF assms] split: if_splits)

lemma eraseIfEmpty_garbage:
  "nt_ok t \<Longrightarrow> c \<Longrightarrow> garbage (fst (eraseIfEmpty k c t)) \<subseteq> garbage t - {k}"
proof (induction k c t rule: eraseIfEmpty.induct)
  case (1 k c t)
  show ?case
  proof (cases "\<exists>e. tab_get t k = Some e \<and> nte_isEmpty e")
    case False
    then have "fst (eraseIfEmpty k c t) = t"
      by (subst eraseIfEmpty_unfold) (auto split: option.splits)
    moreover have "k \<notin> garbage t" using False by (auto simp: garbage_def)
    ultimately show ?thesis by auto
  next
    case True
    then obtain e where e: "tab_get t k = Some e" "nte_isEmpty e" by auto
    note ok = nt_ok_erase_node [OF 1(2) e] and g = garbage_erase_node [OF e(1) 1(2)]
    have par: "nte_parent e = (if k = [] then None else Some (butlast k))"
      by (rule nt_okD(2) [OF 1(2) e(1)])
    show ?thesis
    proof (cases "k = []")
      case False
      then have p: "nte_parent e = Some (butlast k)" using par by simp
      have "garbage (fst (eraseIfEmpty (butlast k) c (erase_node k e t))) \<subseteq>
          garbage (erase_node k e t) - {butlast k}"
        using 1(1) [OF e refl refl _ p] 1(3) ok p by (simp add: erase_node_def)
      moreover have "fst (eraseIfEmpty k c t) = fst (eraseIfEmpty (butlast k) c (erase_node k e t))"
        using e p 1(3) by (subst eraseIfEmpty_unfold) (simp add: Let_def split: prod.splits)
      ultimately show ?thesis using g False by auto
    next
      case True
      then have "fst (eraseIfEmpty k c t) = erase_node k e t"
        using e par by (subst eraseIfEmpty_unfold) auto
      then show ?thesis using g True by auto
    qed
  qed
qed

section \<open>Properties\<close>

text \<open>Looking up a name creates the nodes of all its prefixes up to the requested length
  and no others, keeps the tree well-formed (parents present, parent and child links
  agree, depth bounded), and changes no table entry.\<close>

theorem lookup_creates_prefixes:
  assumes "nt_ok t" and "l \<le> length n" and "l \<le> getMaxDepth"
  shows "nt_ok (nt_lookup n l t) \<and>
    dom (tab_get (nt_lookup n l t)) = dom (tab_get t) \<union> (\<lambda>i. take i n) ` {..l} \<and>
    node_view (nt_lookup n l t) = node_view t"
  using nt_lookup_ok [OF assms] by auto

theorem lookup_creates_prefixes_witness:
  "dom (tab_get (nt_lookup [Component 8 [65], Component 8 [66]] 1 [])) = {[], [Component 8 [65]]}"
proof -
  have "nt_ok []" by (simp add: nt_ok_def)
  from lookup_creates_prefixes [OF this, of 1 "[Component 8 [65], Component 8 [66]]"]
  show ?thesis by (simp add: getMaxDepth_def atMost_Suc insert_commute)
qed

text \<open>C25: erasing an emptied node removes it together with every ancestor that becomes
  empty: it leaves no empty node behind that was not there before, keeps the tree
  well-formed and changes no table entry.\<close>

theorem erase_leaves_no_garbage:
  assumes "nt_ok t" and "garbage t \<subseteq> {k}"
  shows "nt_ok (fst (eraseIfEmpty k True t)) \<and> garbage (fst (eraseIfEmpty k True t)) = {} \<and>
    node_view (fst (eraseIfEmpty k True t)) = node_view t"
  using eraseIfEmpty_garbage [OF assms(1), of True k] assms by auto

theorem erase_leaves_no_garbage_witness:
  "garbage (fst (eraseIfEmpty [Component 8 [65]] True (nt_lookup [Component 8 [65]] 1 []))) = {}"
proof -
  let ?t = "nt_lookup [Component 8 [65]] 1 []"
  have "nt_ok ?t" by (rule nt_ok_lookup) (simp_all add: nt_ok_def getMaxDepth_def)
  moreover have "garbage ?t \<subseteq> {[Component 8 [65]]}"
    by (auto simp: garbage_def nt_lookup_def lookup_step_def ht_insert_def setParent_def
        tab_modify_def nte_isEmpty_def split: if_splits)
  ultimately show ?thesis using erase_leaves_no_garbage by blast
qed

text \<open>C26: the longest prefix match that starts from a PIT entry's node, goes down to longer
  nodes and then walks up, finds what the lookup by name finds.\<close>

theorem pit_entry_lookup_is_name_lookup:
  assumes "nt_ok t" and "prefix k n" and "tab_get t k \<noteq> None"
  shows "findLongestPrefixMatch_pit k n sel t = findLongestPrefixMatch n sel t"
  using findLongestPrefixMatch_pit_eq [OF assms(1), of k "length k" n] assms(2,3)
  by (auto simp: prefix_def)

theorem pit_entry_lookup_is_name_lookup_witness:
  "findLongestPrefixMatch_pit [] [Component 8 [65]] (\<lambda>_. True) (nt_lookup [Component 8 [65]] 1 []) =
   findLongestPrefixMatch [Component 8 [65]] (\<lambda>_. True) (nt_lookup [Component 8 [65]] 1 [])"
proof (rule pit_entry_lookup_is_name_lookup)
  show "nt_ok (nt_lookup [Component 8 [65]] 1 [])"
    by (rule nt_ok_lookup) (simp_all add: nt_ok_def getMaxDepth_def)
  show "tab_get (nt_lookup [Component 8 [65]] 1 []) [] \<noteq> None"
    using present_after_lookup [of "[]" 1 "[Component 8 [65]]" 0] by (simp add: nt_ok_def getMaxDepth_def)
qed simp



end
