(* ===== verification/Name_Tree_Hashtable.thy ===== *)
theory Name_Tree_Hashtable
  imports Name_Tree
begin

unbundle bit_operations_syntax

text \<open>
  The node table of the name tree (\<^verbatim>\<open>name-tree-hashtable.cpp\<close>): buckets of linked nodes,
  expanded and shrunk with the load.  The hash of a component is a parameter \<^verbatim>\<open>H\<close>: the
  results hold for every hash function.  The locale \<^verbatim>\<open>node_map\<close> is the contract the name
  tree relies on; both the bucket table and the finite map of \<^verbatim>\<open>Name_Tree\<close> satisfy it,
  and so answer alike after any sequence of operations.
\<close>

section \<open>Definitions\<close>

record node =
  n_hash :: "64 word"
  n_name :: name
  n_entry :: nte

text \<open>Load factors are ratios; the source multiplies floats and truncates.\<close>

record ht_options =
  o_minSize :: nat
  o_expandLoadFactor :: "nat \<times> nat"
  o_expandFactor :: "nat \<times> nat"
  o_shrinkLoadFactor :: "nat \<times> nat"
  o_shrinkFactor :: "nat \<times> nat"

record hashtable =
  ht_buckets :: "node list list"
  ht_options :: ht_options
  ht_size :: nat
  ht_expandThreshold :: nat
  ht_shrinkThreshold :: nat

definition scale :: "nat \<times> nat \<Rightarrow> nat \<Rightarrow> nat" where
  "scale r n = n * fst r div snd r"

definition computeHash :: "(byte list \<Rightarrow> 64 word) \<Rightarrow> name \<Rightarrow> nat \<Rightarrow> 64 word" where
  "computeHash H n prefixLen =
     fold (\<lambda>c h. h XOR H (component_wireEncode c)) (take prefixLen n) 0"

fun hash_seq :: "(byte list \<Rightarrow> 64 word) \<Rightarrow> 64 word \<Rightarrow> name \<Rightarrow> 64 word list" where
  "hash_seq H h [] = [h]"
| "hash_seq H h (c # n) = h # hash_seq H (h XOR H (component_wireEncode c)) n"

definition computeHashes :: "(byte list \<Rightarrow> 64 word) \<Rightarrow> name \<Rightarrow> nat \<Rightarrow> 64 word list" where
  "computeHashes H n prefixLen = hash_seq H 0 (take prefixLen n)"

definition computeBucketIndex :: "nat \<Rightarrow> 64 word \<Rightarrow> nat" where
  "computeBucketIndex nBuckets h = unat h mod nBuckets"

definition attach :: "nat \<Rightarrow> node \<Rightarrow> node list list \<Rightarrow> node list list" where
  "attach bucket nd bs = bs[bucket := nd # bs ! bucket]"

fun remove_node :: "name \<Rightarrow> node list \<Rightarrow> node list" where
  "remove_node k [] = []"
| "remove_node k (nd # nds) = (if n_name nd = k then nds else nd # remove_node k nds)"

definition detach :: "nat \<Rightarrow> name \<Rightarrow> node list list \<Rightarrow> node list list" where
  "detach bucket k bs = bs[bucket := remove_node k (bs ! bucket)]"

fun search_bucket :: "64 word \<Rightarrow> name \<Rightarrow> nat \<Rightarrow> node list \<Rightarrow> node option" where
  "search_bucket h n prefixLen [] = None"
| "search_bucket h n prefixLen (nd # nds) =
     (if n_hash nd = h \<and>
         name_compare n 0 prefixLen (n_name nd) 0 (length (n_name nd)) = 0
      then Some nd else search_bucket h n prefixLen nds)"

definition computeThresholds :: "hashtable \<Rightarrow> hashtable" where
  "computeThresholds t =
     t\<lparr>ht_expandThreshold := scale (o_expandLoadFactor (ht_options t)) (length (ht_buckets t)),
       ht_shrinkThreshold := scale (o_shrinkLoadFactor (ht_options t)) (length (ht_buckets t))\<rparr>"

definition ht_resize :: "nat \<Rightarrow> hashtable \<Rightarrow> hashtable" where
  "ht_resize newNBuckets t =
     (if length (ht_buckets t) = newNBuckets then t
      else computeThresholds
        (t\<lparr>ht_buckets :=
            fold (\<lambda>head bs. fold (\<lambda>nd bs. attach (computeBucketIndex newNBuckets (n_hash nd)) nd bs) head bs)
              (ht_buckets t) (replicate newNBuckets [])\<rparr>))"

definition ht_findOrInsert ::
  "name \<Rightarrow> nat \<Rightarrow> 64 word \<Rightarrow> bool \<Rightarrow> hashtable \<Rightarrow> node option \<times> bool \<times> hashtable" where
  "ht_findOrInsert n prefixLen h allowInsert t =
     (let bucket = computeBucketIndex (length (ht_buckets t)) h in
      case search_bucket h n prefixLen (ht_buckets t ! bucket) of
        Some nd \<Rightarrow> (Some nd, False, t)
      | None \<Rightarrow>
         (if \<not> allowInsert then (None, False, t)
          else
           (let nd = \<lparr>n_hash = h, n_name = getPrefix n (int prefixLen), n_entry = nte_new\<rparr>;
                t1 = t\<lparr>ht_buckets := attach bucket nd (ht_buckets t), ht_size := Suc (ht_size t)\<rparr>;
                t2 = (if ht_size t1 > ht_expandThreshold t1
                      then ht_resize (scale (o_expandFactor (ht_options t1)) (length (ht_buckets t1))) t1
                      else t1)
            in (Some nd, True, t2))))"

definition ht_find :: "(byte list \<Rightarrow> 64 word) \<Rightarrow> name \<Rightarrow> nat \<Rightarrow> hashtable \<Rightarrow> node option" where
  "ht_find H n prefixLen t = fst (ht_findOrInsert n prefixLen (computeHash H n prefixLen) False t)"

definition ht_insert_node ::
  "(byte list \<Rightarrow> 64 word) \<Rightarrow> name \<Rightarrow> nat \<Rightarrow> hashtable \<Rightarrow> node option \<times> bool \<times> hashtable" where
  "ht_insert_node H n prefixLen t =
     ht_findOrInsert n prefixLen (computeHashes H n prefixLen ! prefixLen) True t"

definition ht_erase :: "node \<Rightarrow> hashtable \<Rightarrow> hashtable" where
  "ht_erase nd t =
     (let bucket = computeBucketIndex (length (ht_buckets t)) (n_hash nd);
          t1 = t\<lparr>ht_buckets := detach bucket (n_name nd) (ht_buckets t), ht_size := ht_size t - 1\<rparr>
      in if ht_size t1 < ht_shrinkThreshold t1
         then ht_resize (max (o_minSize (ht_options t1))
                (scale (o_shrinkFactor (ht_options t1)) (length (ht_buckets t1)))) t1
         else t1)"

definition ht_new :: "ht_options \<Rightarrow> nat \<Rightarrow> hashtable" where
  "ht_new opts initialSize =
     computeThresholds \<lparr>ht_buckets = replicate initialSize [], ht_options = opts, ht_size = 0,
                        ht_expandThreshold = 0, ht_shrinkThreshold = 0\<rparr>"

text \<open>The options of \<^verbatim>\<open>HashtableOptions\<close> and what the constructor asserts of them.\<close>

definition default_options :: "nat \<Rightarrow> ht_options" where
  "default_options sz =
     \<lparr>o_minSize = sz, o_expandLoadFactor = (1, 2), o_expandFactor = (2, 1),
      o_shrinkLoadFactor = (1, 10), o_shrinkFactor = (1, 2)\<rparr>"

definition options_ok :: "ht_options \<Rightarrow> bool" where
  "options_ok opts \<longleftrightarrow> 0 < o_minSize opts \<and> 0 < snd (o_expandFactor opts) \<and>
     snd (o_expandFactor opts) < fst (o_expandFactor opts)"

abbreviation ht_nodes :: "hashtable \<Rightarrow> node list" where
  "ht_nodes t \<equiv> concat (ht_buckets t)"

definition node_ok :: "(byte list \<Rightarrow> 64 word) \<Rightarrow> nat \<Rightarrow> nat \<Rightarrow> node \<Rightarrow> bool" where
  "node_ok H m b nd \<longleftrightarrow>
     n_hash nd = computeHash H (n_name nd) (length (n_name nd)) \<and>
     b = computeBucketIndex m (n_hash nd)"

definition bucket_ok :: "(byte list \<Rightarrow> 64 word) \<Rightarrow> node list list \<Rightarrow> bool" where
  "bucket_ok H bs \<longleftrightarrow> (\<forall>b < length bs. \<forall>nd \<in> set (bs ! b). node_ok H (length bs) b nd)"

definition ht_ok :: "(byte list \<Rightarrow> 64 word) \<Rightarrow> hashtable \<Rightarrow> bool" where
  "ht_ok H t \<longleftrightarrow> ht_buckets t \<noteq> [] \<and> options_ok (ht_options t) \<and> bucket_ok H (ht_buckets t) \<and>
     distinct (map n_name (ht_nodes t)) \<and> ht_size t = length (ht_nodes t)"

section \<open>Buckets\<close>

lemma fold_xor_seq:
  "i \<le> length n \<Longrightarrow> hash_seq H h n ! i = fold (\<lambda>c h. h XOR H (component_wireEncode c)) (take i n) h"
proof (induction n arbitrary: h i)
  case (Cons c n)
  then show ?case by (cases i) simp_all
qed simp

text \<open>The hash sequence holds the hash of every prefix.\<close>

lemma computeHashes_nth:
  "i \<le> prefixLen \<Longrightarrow> prefixLen \<le> length n \<Longrightarrow> computeHashes H n prefixLen ! i = computeHash H n i"
  by (simp add: computeHashes_def computeHash_def fold_xor_seq min_def)

lemma mset_concat_update:
  "b < length bs \<Longrightarrow> mset (concat (bs[b := x])) + mset (bs ! b) = mset (concat bs) + mset x"
proof (induction bs arbitrary: b)
  case (Cons y ys)
  then show ?case by (cases b) (auto simp: add.commute add.left_commute)
qed simp

lemma mset_attach:
  "b < length bs \<Longrightarrow> mset (concat (attach b nd bs)) = add_mset nd (mset (concat bs))"
  using mset_concat_update [of b bs "nd # bs ! b"] by (simp add: attach_def)

lemma mset_remove_node:
  "nd \<in> set nds \<Longrightarrow> distinct (map n_name nds) \<Longrightarrow>
     add_mset nd (mset (remove_node (n_name nd) nds)) = mset nds"
  by (induction nds) (auto simp: image_iff)

lemma bucket_index_less: "0 < m \<Longrightarrow> computeBucketIndex m h < m"
  by (simp add: computeBucketIndex_def)

lemma length_attach [simp]: "length (attach b nd bs) = length bs"
  by (simp add: attach_def)

lemma bucket_ok_attach:
  assumes "bucket_ok H bs" and "n_hash nd = computeHash H (n_name nd) (length (n_name nd))"
  shows "bucket_ok H (attach (computeBucketIndex (length bs) (n_hash nd)) nd bs)"
proof (cases "bs = []")
  case False
  define i where "i = computeBucketIndex (length bs) (n_hash nd)"
  have i: "i < length bs" using False by (simp add: i_def bucket_index_less)
  have "node_ok H (length bs) i nd" using assms(2) by (simp add: node_ok_def i_def)
  then show ?thesis using assms(1) i unfolding i_def [symmetric] bucket_ok_def
    by (auto simp: attach_def nth_list_update)
qed (simp add: bucket_ok_def attach_def)

lemma attach_all:
  assumes "0 < m"
  shows "length bs = m \<Longrightarrow> bucket_ok H bs \<Longrightarrow>
     (\<forall>nd \<in> set nds. n_hash nd = computeHash H (n_name nd) (length (n_name nd))) \<Longrightarrow>
     (let bs' = fold (\<lambda>nd bs. attach (computeBucketIndex m (n_hash nd)) nd bs) nds bs in
      length bs' = m \<and> bucket_ok H bs' \<and> mset (concat bs') = mset nds + mset (concat bs))"
proof (induction nds arbitrary: bs)
  case (Cons nd nds)
  have "bucket_ok H (attach (computeBucketIndex m (n_hash nd)) nd bs)"
    using bucket_ok_attach [of H bs nd] Cons.prems by simp
  then show ?case
    using Cons.IH [of "attach (computeBucketIndex m (n_hash nd)) nd bs"] Cons.prems
      mset_attach [of "computeBucketIndex m (n_hash nd)" bs nd] bucket_index_less [OF assms]
    by (simp add: Let_def)
qed simp

lemma fold_concat: "fold (\<lambda>head bs. fold f head bs) bss x = fold f (concat bss) x"
  by (induction bss arbitrary: x) simp_all

lemma nodes_in_buckets:
  "nd \<in> set (concat bs) \<longleftrightarrow> (\<exists>b < length bs. nd \<in> set (bs ! b))"
  by (auto simp: set_conv_nth [of bs])

lemma bucket_ok_node:
  assumes "bucket_ok H bs" and "nd \<in> set (concat bs)"
  shows "n_hash nd = computeHash H (n_name nd) (length (n_name nd))"
    and "nd \<in> set (bs ! computeBucketIndex (length bs) (n_hash nd))"
  using assms unfolding nodes_in_buckets bucket_ok_def node_ok_def by auto

lemma ht_resize_props:
  assumes "ht_ok H t" and "0 < m"
  shows "ht_ok H (ht_resize m t)" and "mset (ht_nodes (ht_resize m t)) = mset (ht_nodes t)"
proof -
  define bs' where "bs' =
    fold (\<lambda>nd bs. attach (computeBucketIndex m (n_hash nd)) nd bs) (ht_nodes t) (replicate m [])"
  have all: "\<forall>nd \<in> set (ht_nodes t). n_hash nd = computeHash H (n_name nd) (length (n_name nd))"
    using assms(1) bucket_ok_node(1) by (auto simp: ht_ok_def)
  have r: "bucket_ok H (replicate m [])" by (simp add: bucket_ok_def)
  have "concat (replicate m []) = []" by (induction m) auto
  then have bs': "length bs' = m" "bucket_ok H bs'" "mset (concat bs') = mset (ht_nodes t)"
    using attach_all [OF assms(2) _ r all] by (simp_all add: bs'_def Let_def)
  have res: "ht_buckets (ht_resize m t) = (if length (ht_buckets t) = m then ht_buckets t else bs')"
      "ht_options (ht_resize m t) = ht_options t" "ht_size (ht_resize m t) = ht_size t"
    by (simp_all add: ht_resize_def computeThresholds_def bs'_def fold_concat)
  have eq: "mset (map n_name (concat bs')) = mset (map n_name (ht_nodes t))"
    using bs'(3) by (simp add: mset_map)
  have ne: "bs' \<noteq> []" using bs'(1) assms(2) by auto
  show "mset (ht_nodes (ht_resize m t)) = mset (ht_nodes t)" using res bs' by simp
  show "ht_ok H (ht_resize m t)"
    using assms(1) res bs' ne mset_eq_imp_distinct_iff [OF eq] mset_eq_length [OF bs'(3)]
    unfolding ht_ok_def by simp
qed

lemma compare_prefix_zero:
  "l \<le> length n \<Longrightarrow> name_compare n 0 l m 0 (length m) = 0 \<longleftrightarrow> m = take l n"
  using compare_loop_sign [of "take l n" m] by (auto simp: name_compare_def)

lemma search_bucket_Some:
  "l \<le> length n \<Longrightarrow> search_bucket h n l nds = Some nd \<Longrightarrow>
     nd \<in> set nds \<and> n_hash nd = h \<and> n_name nd = take l n"
  by (induction nds) (auto simp: compare_prefix_zero split: if_splits)

lemma search_bucket_None:
  "l \<le> length n \<Longrightarrow> search_bucket h n l nds = None \<longleftrightarrow>
     (\<forall>nd \<in> set nds. \<not> (n_hash nd = h \<and> n_name nd = take l n))"
  by (induction nds) (auto simp: compare_prefix_zero)

text \<open>Finding a node by name, whatever bucket it is in.\<close>

lemma computeHash_take: "l \<le> length n \<Longrightarrow> computeHash H (take l n) l = computeHash H n l"
  by (simp add: computeHash_def)

lemma search_is_find:
  assumes ok: "ht_ok H t" and l: "l \<le> length n"
  shows "search_bucket (computeHash H n l) n l
      (ht_buckets t ! computeBucketIndex (length (ht_buckets t)) (computeHash H n l)) =
    find (\<lambda>nd. n_name nd = take l n) (ht_nodes t)" (is "?S = ?F")
proof (cases ?S)
  case None
  have "n_name nd \<noteq> take l n" if nd: "nd \<in> set (ht_nodes t)" for nd
  proof
    assume n: "n_name nd = take l n"
    have b: "bucket_ok H (ht_buckets t)" using ok by (simp add: ht_ok_def)
    have "n_hash nd = computeHash H n l"
      using bucket_ok_node(1) [OF b nd] n l by (simp add: computeHash_take min_def)
    then show False
      using bucket_ok_node(2) [OF b nd] n None search_bucket_None [OF l] by metis
  qed
  then have "?F = None" by (simp add: find_None_iff del: set_concat)
  then show ?thesis using None by simp
next
  case (Some nd)
  define b where "b = computeBucketIndex (length (ht_buckets t)) (computeHash H n l)"
  have bl: "b < length (ht_buckets t)" using ok by (simp add: b_def ht_ok_def bucket_index_less)
  have s: "nd \<in> set (ht_buckets t ! b)" "n_name nd = take l n"
    using search_bucket_Some [OF l Some] by (simp_all add: b_def)
  then have mem: "nd \<in> set (ht_nodes t)" using bl by (auto simp: nodes_in_buckets)
  have uniq: "x = nd" if "x \<in> set (ht_nodes t)" "n_name x = take l n" for x
    using that mem s ok by (auto simp: ht_ok_def distinct_map inj_on_def)
  show ?thesis
  proof (cases ?F)
    case None
    then have False using mem s unfolding find_None_iff by blast
    then show ?thesis ..
  next
    case (Some x)
    then have "x \<in> set (ht_nodes t) \<and> n_name x = take l n"
      by (auto simp: find_Some_iff simp del: set_concat)
    then show ?thesis using uniq Some \<open>?S = Some nd\<close> by auto
  qed
qed

section \<open>The contract\<close>

text \<open>What the name tree relies on when it finds, inserts and erases nodes.\<close>

datatype node_op = OpInsert name | OpErase name

fun run_ops :: "(name \<Rightarrow> 't \<Rightarrow> 't \<times> bool) \<Rightarrow> (name \<Rightarrow> 't \<Rightarrow> 't) \<Rightarrow> node_op list \<Rightarrow> 't \<Rightarrow> 't" where
  "run_ops ins del [] t = t"
| "run_ops ins del (OpInsert k # ops) t = run_ops ins del ops (fst (ins k t))"
| "run_ops ins del (OpErase k # ops) t = run_ops ins del ops (del k t)"

fun spec_ops :: "node_op list \<Rightarrow> (name \<Rightarrow> nte option) \<Rightarrow> name \<Rightarrow> nte option" where
  "spec_ops [] m = m"
| "spec_ops (OpInsert k # ops) m =
     spec_ops ops (\<lambda>j. if j = k \<and> m k = None then Some nte_new else m j)"
| "spec_ops (OpErase k # ops) m = spec_ops ops (\<lambda>j. if j = k then None else m j)"

locale node_map =
  fixes find_node :: "'t \<Rightarrow> name \<Rightarrow> nte option"
    and ins :: "name \<Rightarrow> 't \<Rightarrow> 't \<times> bool"
    and del :: "name \<Rightarrow> 't \<Rightarrow> 't"
    and ok :: "'t \<Rightarrow> bool"
  assumes find_ins: "ok t \<Longrightarrow> find_node (fst (ins k t)) j =
      (if j = k \<and> find_node t k = None then Some nte_new else find_node t j)"
    and ins_new: "ok t \<Longrightarrow> snd (ins k t) \<longleftrightarrow> find_node t k = None"
    and find_del: "ok t \<Longrightarrow> find_node (del k t) j = (if j = k then None else find_node t j)"
    and ok_ins: "ok t \<Longrightarrow> ok (fst (ins k t))"
    and ok_del: "ok t \<Longrightarrow> ok (del k t)"
begin

lemma run_ok: "ok t \<Longrightarrow> ok (run_ops ins del ops t)"
proof (induction ops arbitrary: t)
  case (Cons op ops)
  then show ?case by (cases op) (simp_all add: ok_ins ok_del)
qed simp

text \<open>The contents after a sequence of operations depend on the contents before only.\<close>

lemma run_spec: "ok t \<Longrightarrow> find_node (run_ops ins del ops t) = spec_ops ops (find_node t)"
proof (induction ops arbitrary: t)
  case (Cons op ops)
  show ?case
  proof (cases op)
    case (OpInsert k)
    have "find_node (fst (ins k t)) =
        (\<lambda>j. if j = k \<and> find_node t k = None then Some nte_new else find_node t j)"
      using Cons.prems by (rule ext [OF find_ins])
    then show ?thesis using Cons OpInsert by (simp add: ok_ins)
  next
    case (OpErase k)
    have "find_node (del k t) = (\<lambda>j. if j = k then None else find_node t j)"
      using Cons.prems by (rule ext [OF find_del])
    then show ?thesis using Cons OpErase by (simp add: ok_del)
  qed
qed simp

lemma ins_again: "ok t \<Longrightarrow> \<not> snd (ins k (fst (ins k t)))"
  by (simp add: ins_new ok_ins find_ins)

end

text \<open>The finite map of the name tree.\<close>

interpretation tree_map: node_map tab_get ht_insert tab_del "\<lambda>t. distinct (map fst t)"
  by unfold_locales (auto simp: ht_insert_def distinct_update distinct_delete split: option.splits)

text \<open>The bucket table.\<close>

definition ht_get :: "(byte list \<Rightarrow> 64 word) \<Rightarrow> hashtable \<Rightarrow> name \<Rightarrow> nte option" where
  "ht_get H t k = map_option n_entry (ht_find H k (length k) t)"

definition ht_put :: "(byte list \<Rightarrow> 64 word) \<Rightarrow> name \<Rightarrow> hashtable \<Rightarrow> hashtable \<times> bool" where
  "ht_put H k t = (case ht_insert_node H k (length k) t of (_, isNew, t') \<Rightarrow> (t', isNew))"

definition ht_del :: "(byte list \<Rightarrow> 64 word) \<Rightarrow> name \<Rightarrow> hashtable \<Rightarrow> hashtable" where
  "ht_del H k t = (case ht_find H k (length k) t of None \<Rightarrow> t | Some nd \<Rightarrow> ht_erase nd t)"

lemma find_distinct:
  "distinct (map n_name nds) \<Longrightarrow> find (\<lambda>nd. n_name nd = k) nds = Some x \<longleftrightarrow> x \<in> set nds \<and> n_name x = k"
  by (induction nds) (auto simp: image_iff)

lemma find_cong_set:
  assumes "distinct (map n_name xs)" and "distinct (map n_name ys)"
    and "\<And>x. x \<in> set xs \<and> n_name x = k \<longleftrightarrow> x \<in> set ys \<and> n_name x = k"
  shows "find (\<lambda>nd. n_name nd = k) xs = find (\<lambda>nd. n_name nd = k) ys"
proof -
  have "find (\<lambda>nd. n_name nd = k) xs = Some x \<longleftrightarrow> find (\<lambda>nd. n_name nd = k) ys = Some x" for x
    using assms by (simp only: find_distinct)
  then show ?thesis by (metis option.exhaust)
qed

lemma ht_find_eq:
  "ht_ok H t \<Longrightarrow> ht_find H k (length k) t = find (\<lambda>nd. n_name nd = k) (ht_nodes t)"
  using search_is_find [of H t "length k" k]
  by (simp add: ht_find_def ht_findOrInsert_def Let_def split: option.splits)

lemma ht_attach_props:
  assumes ok: "ht_ok H t" and new: "k \<notin> n_name ` set (ht_nodes t)"
    and nd: "nd = \<lparr>n_hash = computeHash H k (length k), n_name = k, n_entry = nte_new\<rparr>"
    and t1: "t1 = t\<lparr>ht_buckets := attach (computeBucketIndex (length (ht_buckets t)) (n_hash nd)) nd
                      (ht_buckets t), ht_size := Suc (ht_size t)\<rparr>"
  shows "ht_ok H t1 \<and> mset (ht_nodes t1) = add_mset nd (mset (ht_nodes t))"
proof -
  have bl: "computeBucketIndex (length (ht_buckets t)) (n_hash nd) < length (ht_buckets t)"
    using ok by (simp add: ht_ok_def bucket_index_less)
  have m: "mset (ht_nodes t1) = add_mset nd (mset (ht_nodes t))"
    using mset_attach [OF bl] by (simp add: t1)
  then have "mset (map n_name (ht_nodes t1)) = mset (k # map n_name (ht_nodes t))"
    using nd by (simp add: mset_map)
  from mset_eq_imp_distinct_iff [OF this] have "distinct (map n_name (ht_nodes t1))"
    using ok new by (simp add: ht_ok_def)
  moreover have "length (ht_nodes t1) = Suc (length (ht_nodes t))"
    using arg_cong [OF m, of size] by simp
  moreover have "bucket_ok H (ht_buckets t1)"
    using ok bucket_ok_attach [of H "ht_buckets t" nd] nd by (simp add: t1 ht_ok_def)
  moreover have "ht_buckets t1 \<noteq> []" using ok by (simp add: t1 ht_ok_def attach_def)
  ultimately show ?thesis using ok m by (simp add: ht_ok_def t1)
qed

lemma scale_pos:
  assumes "0 < snd r" and "snd r < fst r" and "0 < n"
  shows "0 < scale r n"
proof -
  have "fst r \<le> n * fst r" using assms(3) by simp
  then have "snd r \<le> n * fst r" using assms(2) by linarith
  then show ?thesis using assms(1) by (simp add: scale_def div_greater_zero_iff)
qed

lemma ht_put_props:
  assumes ok: "ht_ok H t"
  shows "ht_ok H (fst (ht_put H k t))"
    and "snd (ht_put H k t) \<longleftrightarrow> ht_find H k (length k) t = None"
    and "ht_get H (fst (ht_put H k t)) j =
      (if j = k \<and> ht_get H t k = None then Some nte_new else ht_get H t j)"
proof -
  let ?h = "computeHash H k (length k)"
  define nd where "nd = \<lparr>n_hash = ?h, n_name = k, n_entry = nte_new\<rparr>"
  define t1 where "t1 = t\<lparr>ht_buckets := attach (computeBucketIndex (length (ht_buckets t)) (n_hash nd)) nd
                      (ht_buckets t), ht_size := Suc (ht_size t)\<rparr>"
  define t2 where "t2 = (if ht_size t1 > ht_expandThreshold t1
     then ht_resize (scale (o_expandFactor (ht_options t1)) (length (ht_buckets t1))) t1 else t1)"
  have hash: "computeHashes H k (length k) ! length k = ?h" by (simp add: computeHashes_nth)
  have pre: "getPrefix k (int (length k)) = k" by (simp add: getPrefix_take)
  have find: "search_bucket ?h k (length k)
      (ht_buckets t ! computeBucketIndex (length (ht_buckets t)) ?h) = ht_find H k (length k) t"
    using search_is_find [OF ok, of "length k" k] ht_find_eq [OF ok] by simp
  have put: "ht_put H k t =
      (case ht_find H k (length k) t of Some _ \<Rightarrow> (t, False) | None \<Rightarrow> (t2, True))"
    by (simp add: ht_put_def ht_insert_node_def ht_findOrInsert_def hash pre find Let_def
        nd_def [symmetric] t1_def t2_def split: option.splits)
       (simp add: nd_def)
  show "snd (ht_put H k t) \<longleftrightarrow> ht_find H k (length k) t = None"
    by (simp add: put split: option.splits)
  have new: "ht_ok H t2 \<and> mset (ht_nodes t2) = add_mset nd (mset (ht_nodes t))"
    if "ht_find H k (length k) t = None"
  proof -
    have "k \<notin> n_name ` set (ht_nodes t)"
      using that unfolding ht_find_eq [OF ok] find_None_iff by blast
    then have t1: "ht_ok H t1 \<and> mset (ht_nodes t1) = add_mset nd (mset (ht_nodes t))"
      using ht_attach_props [OF ok _ nd_def t1_def] by simp
    have "0 < scale (o_expandFactor (ht_options t1)) (length (ht_buckets t1))"
      using t1 by (intro scale_pos) (auto simp: ht_ok_def options_ok_def)
    then show ?thesis using ht_resize_props [of H t1] t1 by (simp add: t2_def)
  qed
  show okp: "ht_ok H (fst (ht_put H k t))"
    using ok new by (simp add: put split: option.splits)
  show "ht_get H (fst (ht_put H k t)) j =
      (if j = k \<and> ht_get H t k = None then Some nte_new else ht_get H t j)"
  proof (cases "ht_find H k (length k) t")
    case None
    have set2: "set (ht_nodes t2) = insert nd (set (ht_nodes t))"
      using new [OF None] by (metis set_mset_add_mset_insert set_mset_mset)
    have d: "distinct (map n_name (ht_nodes t))" "distinct (map n_name (ht_nodes t2))"
      using ok new [OF None] by (simp_all add: ht_ok_def)
    have "find (\<lambda>nd. n_name nd = k) (ht_nodes t2) = Some nd"
      using find_distinct [OF d(2)] set2 by (simp add: nd_def del: set_concat)
    moreover have "find (\<lambda>nd. n_name nd = j) (ht_nodes t2) = find (\<lambda>nd. n_name nd = j) (ht_nodes t)"
      if "j \<noteq> k" using that set2 by (intro find_cong_set d) (auto simp: nd_def simp del: set_concat)
    ultimately show ?thesis
      using None ok new [OF None] by (auto simp: put ht_get_def ht_find_eq nd_def)
  qed (simp add: put ht_get_def)
qed

lemma ht_erase_props:
  assumes ok: "ht_ok H t" and nd: "nd \<in> set (ht_nodes t)"
  shows "ht_ok H (ht_erase nd t) \<and> add_mset nd (mset (ht_nodes (ht_erase nd t))) = mset (ht_nodes t)"
proof -
  define b where "b = computeBucketIndex (length (ht_buckets t)) (n_hash nd)"
  define t1 where "t1 = t\<lparr>ht_buckets := detach b (n_name nd) (ht_buckets t), ht_size := ht_size t - 1\<rparr>"
  have bok: "bucket_ok H (ht_buckets t)" using ok by (simp add: ht_ok_def)
  have bl: "b < length (ht_buckets t)" using ok by (simp add: b_def ht_ok_def bucket_index_less)
  have inb: "nd \<in> set (ht_buckets t ! b)" using bucket_ok_node(2) [OF bok nd] by (simp add: b_def)
  have sub: "set (remove_node k xs) \<subseteq> set xs" for k xs by (induction xs) auto
  have "distinct (map n_name (ht_buckets t ! b))"
    using ok bl by (auto simp: ht_ok_def map_concat distinct_concat_iff)
  note rem = mset_remove_node [OF inb this]
  have "mset (ht_nodes t1) + mset (ht_buckets t ! b) =
      mset (ht_nodes t) + mset (remove_node (n_name nd) (ht_buckets t ! b))"
    using mset_concat_update [OF bl] by (simp add: t1_def detach_def)
  then have m: "add_mset nd (mset (ht_nodes t1)) = mset (ht_nodes t)"
    unfolding rem [symmetric] by simp
  have "mset (n_name nd # map n_name (ht_nodes t1)) = mset (map n_name (ht_nodes t))"
    using arg_cong [OF m, of "image_mset n_name"] by (simp add: mset_map)
  from mset_eq_imp_distinct_iff [OF this] have d: "distinct (map n_name (ht_nodes t1))"
    using ok by (simp add: ht_ok_def)
  have len: "length (ht_nodes t) = Suc (length (ht_nodes t1))"
    using arg_cong [OF m, of size] by simp
  have "bucket_ok H (ht_buckets t1)"
    using bok sub [of "n_name nd" "ht_buckets t ! b"] bl unfolding bucket_ok_def
    by (auto simp: t1_def detach_def nth_list_update)
  then have ok1: "ht_ok H t1" using ok d len by (simp add: ht_ok_def t1_def detach_def)
  have "0 < max (o_minSize (ht_options t1)) x" for x
    using ok1 by (simp add: ht_ok_def options_ok_def less_max_iff_disj)
  moreover have "ht_erase nd t = (if ht_size t1 < ht_shrinkThreshold t1
      then ht_resize (max (o_minSize (ht_options t1))
        (scale (o_shrinkFactor (ht_options t1)) (length (ht_buckets t1)))) t1 else t1)"
    by (simp only: ht_erase_def Let_def b_def t1_def)
  ultimately show ?thesis using ht_resize_props [OF ok1] ok1 m by simp
qed

lemma ht_del_props:
  assumes ok: "ht_ok H t"
  shows "ht_ok H (ht_del H k t)"
    and "ht_get H (ht_del H k t) j = (if j = k then None else ht_get H t j)"
proof -
  have *: "ht_ok H (ht_del H k t) \<and>
      ht_find H j (length j) (ht_del H k t) = (if j = k then None else ht_find H j (length j) t)"
  proof (cases "ht_find H k (length k) t")
    case None
    then show ?thesis using ok by (simp add: ht_del_def)
  next
    case (Some nd)
    have d: "distinct (map n_name (ht_nodes t))" using ok by (simp add: ht_ok_def)
    have nd: "nd \<in> set (ht_nodes t)" "n_name nd = k"
      using Some find_distinct [OF d] by (simp_all add: ht_find_eq [OF ok] del: set_concat)
    note E = ht_erase_props [OF ok nd(1)]
    have d': "distinct (map n_name (ht_nodes (ht_erase nd t)))" using E by (simp add: ht_ok_def)
    have "mset (n_name nd # map n_name (ht_nodes (ht_erase nd t))) = mset (map n_name (ht_nodes t))"
      using arg_cong [OF conjunct2 [OF E], of "image_mset n_name"] by (simp add: mset_map)
    from mset_eq_imp_distinct_iff [OF this] have gone: "k \<notin> n_name ` set (ht_nodes (ht_erase nd t))"
      using d nd(2) by simp
    have set: "set (ht_nodes t) = insert nd (set (ht_nodes (ht_erase nd t)))"
      using E by (metis set_mset_add_mset_insert set_mset_mset)
    have "find (\<lambda>x. n_name x = k) (ht_nodes (ht_erase nd t)) = None"
      using gone unfolding find_None_iff by blast
    moreover have "find (\<lambda>x. n_name x = j) (ht_nodes (ht_erase nd t)) =
        find (\<lambda>x. n_name x = j) (ht_nodes t)" if "j \<noteq> k"
      using that set nd(2) by (intro find_cong_set d d') (auto simp del: set_concat)
    ultimately show ?thesis using E Some ok by (auto simp: ht_del_def ht_find_eq)
  qed
  then show "ht_ok H (ht_del H k t)" by simp
  show "ht_get H (ht_del H k t) j = (if j = k then None else ht_get H t j)"
    using * by (simp add: ht_get_def)
qed

interpretation bucket_map: node_map "ht_get H" "ht_put H" "ht_del H" "ht_ok H" for H
  by unfold_locales (simp_all add: ht_put_props ht_del_props, simp add: ht_get_def)

lemma ht_new_ok:
  assumes "options_ok opts" and "0 < n"
  shows "ht_ok H (ht_new opts n)" and "ht_get H (ht_new opts n) = (\<lambda>_. None)"
proof -
  have nil: "concat (replicate n []) = []" by (induction n) auto
  show ok: "ht_ok H (ht_new opts n)"
    using assms nil by (auto simp: ht_ok_def ht_new_def computeThresholds_def bucket_ok_def)
  have "ht_nodes (ht_new opts n) = []"
    using nil by (simp add: ht_new_def computeThresholds_def del: concat_eq_Nil_conv)
  then have "find P (ht_nodes (ht_new opts n)) = None" for P by (simp only: find.simps)
  then show "ht_get H (ht_new opts n) = (\<lambda>_. None)"
    by (auto simp: ht_get_def ht_find_eq [OF ok])
qed

section \<open>Property\<close>

text \<open>C24: whatever the hash function, and however often the table is resized, a bucket
  table and a finite map that both start empty hold the same nodes after the same
  sequence of insertions and deletions.\<close>

theorem hashtable_refines_map:
  assumes "options_ok opts" and "0 < n"
  shows "ht_get H (run_ops (ht_put H) (ht_del H) ops (ht_new opts n)) =
    tab_get (run_ops ht_insert tab_del ops [])"
  using bucket_map.run_spec [OF ht_new_ok(1) [OF assms], where ops = ops and H = H]
    ht_new_ok(2) [OF assms, of H] tree_map.run_spec [where t = "[]" and ops = ops]
  by simp

theorem hashtable_refines_map_witness:
  "ht_get (\<lambda>_. 0) (run_ops (ht_put (\<lambda>_. 0)) (ht_del (\<lambda>_. 0))
      [OpInsert [], OpInsert [Component 8 [65]], OpErase []]
      (ht_new (default_options 1) 1)) [Component 8 [65]] = Some nte_new"
  using hashtable_refines_map [of "default_options 1" 1 "\<lambda>_. 0"
      "[OpInsert [], OpInsert [Component 8 [65]], OpErase []]"]
  by (simp add: options_ok_def default_options_def ht_insert_def)

end
