(* ===== verification/Data_Codec.thy ===== *)
theory Data_Codec
  imports Packet
begin

text \<open>
  The wire format of Data packets: \<^verbatim>\<open>MetaInfo\<close> (\<^verbatim>\<open>meta-info.cpp\<close>), \<^verbatim>\<open>KeyLocator\<close>
  (\<^verbatim>\<open>key-locator.cpp\<close>), \<^verbatim>\<open>SignatureInfo\<close> (\<^verbatim>\<open>signature-info.cpp\<close>) and \<^verbatim>\<open>Data\<close>
  (\<^verbatim>\<open>data.cpp\<close>).  An encoder prepends the elements in reverse order; the buffer it
  ends with is the concatenation of the elements in the order of the specification.
  The cached wire buffer of an object is not part of the model: encoding is encoding
  from the fields.  Durations are the signed 64-bit counts the code keeps.
\<close>

named_theorems codec_defs

section \<open>Helpers\<close>

definition name_block :: "name \<Rightarrow> block" where
  "name_block n = Block 7 (foldr (\<lambda>c buf. component_wireEncode c @ buf) n [])"

definition component_block :: "component \<Rightarrow> block" where
  "component_block c = Block (ctype c) (cvalue c)"

definition readNonNegativeIntegerAs :: "nat \<Rightarrow> block \<Rightarrow> tlv_error + nat" where
  "readNonNegativeIntegerAs max_R b =
     bind_sum (block_readNonNegativeInteger b)
       (\<lambda>v. if unat v > max_R then Inl NumberOutOfRange else Inr (unat v))"

definition blockFromValue :: "block \<Rightarrow> tlv_error + block" where
  "blockFromValue b =
     (if bvalue b = [] then Inl (EmptyValue (btype b))
      else bind_sum (readType_throw (bvalue b)) (\<lambda>(type, r1).
           bind_sum (readVarNumber_throw r1) (\<lambda>(len, pos).
             if unat len \<noteq> length pos then Inl NotEnoughBytes else Inr (Block (unat type) pos))))"

definition component_of_block :: "block \<Rightarrow> tlv_error + component" where
  "component_of_block b =
     (case ensureValid (Component (btype b) (bvalue b)) of
        Inl _ \<Rightarrow> Inl (Malformed (btype b)) | Inr c \<Rightarrow> Inr c)"

text \<open>A duration read from a \<^verbatim>\<open>uint64_t\<close>, and the number written for it.\<close>

definition duration_of :: "64 word \<Rightarrow> int" where
  "duration_of w = sint w"

definition duration_count :: "int \<Rightarrow> 64 word" where
  "duration_count d = word_of_int d"

section \<open>MetaInfo\<close>

record meta_info =
  mi_type :: nat
  mi_freshnessPeriod :: int
  mi_finalBlockId :: "component option"
  mi_appMetaInfo :: "block list"

definition DEFAULT_FRESHNESS_PERIOD :: int where
  "DEFAULT_FRESHNESS_PERIOD = 0"

definition MetaInfo_new :: meta_info where
  "MetaInfo_new = \<lparr>mi_type = 0, mi_freshnessPeriod = DEFAULT_FRESHNESS_PERIOD,
                   mi_finalBlockId = None, mi_appMetaInfo = []\<rparr>"

definition MetaInfo_wireEncode :: "meta_info \<Rightarrow> block" where
  "MetaInfo_wireEncode m =
     Block 20 (elements_encode
       ((if mi_type m \<noteq> 0 then [makeNonNegativeIntegerBlock 24 (of_nat (mi_type m))] else []) @
        (if mi_freshnessPeriod m \<noteq> DEFAULT_FRESHNESS_PERIOD
         then [makeNonNegativeIntegerBlock 25 (duration_count (mi_freshnessPeriod m))] else []) @
        (case mi_finalBlockId m of None \<Rightarrow> [] | Some c \<Rightarrow> [Block 26 (component_wireEncode c)]) @
        mi_appMetaInfo m))"

text \<open>The three optional elements are looked for in order, each with the rest of the list.\<close>

definition meta_contentType :: "block list \<Rightarrow> tlv_error + (nat \<times> block list)" where
  "meta_contentType els =
     (case els of
        val # rest \<Rightarrow>
          if btype val = 24
          then bind_sum (readNonNegativeIntegerAs (2 ^ 32 - 1) val) (\<lambda>t. Inr (t, rest))
          else Inr (0, els)
      | [] \<Rightarrow> Inr (0, els))"

definition meta_freshness :: "block list \<Rightarrow> tlv_error + (int \<times> block list)" where
  "meta_freshness els =
     (case els of
        val # rest \<Rightarrow>
          if btype val = 25
          then bind_sum (block_readNonNegativeInteger val) (\<lambda>v. Inr (duration_of v, rest))
          else Inr (DEFAULT_FRESHNESS_PERIOD, els)
      | [] \<Rightarrow> Inr (DEFAULT_FRESHNESS_PERIOD, els))"

definition meta_finalBlock :: "block list \<Rightarrow> tlv_error + (component option \<times> block list)" where
  "meta_finalBlock els =
     (case els of
        val # rest \<Rightarrow>
          if btype val = 26
          then bind_sum (blockFromValue val) (\<lambda>b. bind_sum (component_of_block b) (\<lambda>c. Inr (Some c, rest)))
          else Inr (None, els)
      | [] \<Rightarrow> Inr (None, els))"

text \<open>Decoding into an object \<^verbatim>\<open>m\<close>: the application elements are added to those it has.\<close>

definition MetaInfo_wireDecode :: "block \<Rightarrow> meta_info \<Rightarrow> tlv_error + meta_info" where
  "MetaInfo_wireDecode wire m =
     bind_sum (parse wire) (\<lambda>els.
     bind_sum (meta_contentType els) (\<lambda>(t, els1).
     bind_sum (meta_freshness els1) (\<lambda>(f, els2).
     bind_sum (meta_finalBlock els2) (\<lambda>(b, els3).
       Inr \<lparr>mi_type = t, mi_freshnessPeriod = f, mi_finalBlockId = b,
            mi_appMetaInfo = mi_appMetaInfo m @ els3\<rparr>))))"

section \<open>KeyLocator and SignatureInfo\<close>

datatype key_locator = NoLocator | LocatorName name | LocatorDigest block | LocatorType nat

definition KeyLocator_wireEncode :: "key_locator \<Rightarrow> tlv_error + block" where
  "KeyLocator_wireEncode l =
     (case l of
        NoLocator \<Rightarrow> Inr (Block 28 [])
      | LocatorName n \<Rightarrow> Inr (Block 28 (elements_encode [name_block n]))
      | LocatorDigest b \<Rightarrow> Inr (Block 28 (elements_encode [b]))
      | LocatorType t \<Rightarrow> Inl (UnsupportedLocator t))"

definition KeyLocator_wireDecode :: "block \<Rightarrow> tlv_error + key_locator" where
  "KeyLocator_wireDecode wire =
     (if btype wire \<noteq> 28 then Inl (UnexpectedType (btype wire))
      else bind_sum (parse wire) (\<lambda>els.
        case els of
          [] \<Rightarrow> Inr NoLocator
        | element # _ \<Rightarrow>
            if btype element = 7 then bind_sum (name_wireDecode element) (\<lambda>n. Inr (LocatorName n))
            else if btype element = 29 then Inr (LocatorDigest element)
            else Inr (LocatorType (btype element))))"

text \<open>The type is -1, here none, until it is set.\<close>

record signature_info =
  si_type :: "nat option"
  si_keyLocator :: "key_locator option"
  si_otherTlvs :: "block list"

definition SignatureInfo_new :: signature_info where
  "SignatureInfo_new = \<lparr>si_type = None, si_keyLocator = None, si_otherTlvs = []\<rparr>"

definition SignatureInfo_wireEncode :: "nat \<Rightarrow> signature_info \<Rightarrow> tlv_error + block" where
  "SignatureInfo_wireEncode type si =
     (case si_type si of
        None \<Rightarrow> Inl InvalidSignatureInfo
      | Some t \<Rightarrow>
          bind_sum (case si_keyLocator si of
                      None \<Rightarrow> Inr []
                    | Some l \<Rightarrow> bind_sum (KeyLocator_wireEncode l) (\<lambda>b. Inr [b]))
            (\<lambda>loc. Inr (Block type (elements_encode
               (makeNonNegativeIntegerBlock 27 (of_nat t) # loc @ si_otherTlvs si)))))"

fun sig_loop :: "block list \<Rightarrow> nat \<Rightarrow> signature_info \<Rightarrow> tlv_error + signature_info" where
  "sig_loop [] lastCritical si = Inr si"
| "sig_loop (element # els) lastCritical si =
     (if btype element = 27 then
        if lastCritical > 0 then Inl (OutOfOrder 27)
        else bind_sum (readNonNegativeIntegerAs (2 ^ 16 - 1) element)
               (\<lambda>t. sig_loop els 1 (si\<lparr>si_type := Some t\<rparr>))
      else if btype element = 28 then
        if lastCritical > 1 then Inl (OutOfOrder 28)
        else bind_sum (KeyLocator_wireDecode element)
               (\<lambda>l. sig_loop els 2 (si\<lparr>si_keyLocator := Some l\<rparr>))
      else if btype element = 38 then
        if length (bvalue element) < 1 then Inl (EmptyValue 38)
        else sig_loop els lastCritical (si\<lparr>si_otherTlvs := si_otherTlvs si @ [element]\<rparr>)
      else if btype element = 253 then
        sig_loop els lastCritical (si\<lparr>si_otherTlvs := si_otherTlvs si @ [element]\<rparr>)
      else if isCriticalType (btype element) then Inl (UnrecognizedCritical (btype element))
      else sig_loop els lastCritical (si\<lparr>si_otherTlvs := si_otherTlvs si @ [element]\<rparr>))"

definition SignatureInfo_wireDecode :: "nat \<Rightarrow> block \<Rightarrow> tlv_error + signature_info" where
  "SignatureInfo_wireDecode type wire =
     bind_sum (parse wire) (\<lambda>els.
       if btype wire \<noteq> type then Inl (UnexpectedType (btype wire))
       else bind_sum (sig_loop els 0 SignatureInfo_new) (\<lambda>si.
         if si_type si = None then Inl (MissingElement 27) else Inr si))"

section \<open>Data\<close>

record data_packet =
  dp_name :: name
  dp_metaInfo :: meta_info
  dp_content :: "block option"
  dp_signatureInfo :: signature_info
  dp_signatureValue :: "block option"

definition Data_new :: "name \<Rightarrow> data_packet" where
  "Data_new n = \<lparr>dp_name = n, dp_metaInfo = MetaInfo_new, dp_content = None,
                 dp_signatureInfo = SignatureInfo_new, dp_signatureValue = None\<rparr>"

definition setContent :: "block \<Rightarrow> data_packet \<Rightarrow> data_packet" where
  "setContent b d =
     d\<lparr>dp_content := Some (if btype b = 21 then b else Block 21 (block_encode b))\<rparr>"

text \<open>The part of the packet that is signed, and the whole packet.\<close>

definition Data_unsigned_elements :: "data_packet \<Rightarrow> tlv_error + block list" where
  "Data_unsigned_elements d =
     bind_sum (SignatureInfo_wireEncode 22 (dp_signatureInfo d)) (\<lambda>si.
       Inr (name_block (dp_name d) # MetaInfo_wireEncode (dp_metaInfo d) #
            (case dp_content d of None \<Rightarrow> [] | Some c \<Rightarrow> [c]) @ [si]))"

definition Data_wireEncode :: "data_packet \<Rightarrow> tlv_error + block" where
  "Data_wireEncode d =
     (if si_type (dp_signatureInfo d) = None then Inl NotSigned
      else case dp_signatureValue d of
             None \<Rightarrow> Inl (Malformed 0)
           | Some v \<Rightarrow> bind_sum (Data_unsigned_elements d)
                         (\<lambda>els. Inr (Block 6 (elements_encode (els @ [v])))))"

fun data_loop :: "block list \<Rightarrow> nat \<Rightarrow> data_packet \<Rightarrow> tlv_error + data_packet" where
  "data_loop [] lastElement d = Inr d"
| "data_loop (element # els) lastElement d =
     (if btype element = 20 then
        if lastElement \<ge> 2 then Inl (OutOfOrder 20)
        else bind_sum (MetaInfo_wireDecode element (dp_metaInfo d))
               (\<lambda>m. data_loop els 2 (d\<lparr>dp_metaInfo := m\<rparr>))
      else if btype element = 21 then
        if lastElement \<ge> 3 then Inl (OutOfOrder 21)
        else data_loop els 3 (d\<lparr>dp_content := Some element\<rparr>)
      else if btype element = 22 then
        if lastElement \<ge> 4 then Inl (OutOfOrder 22)
        else bind_sum (SignatureInfo_wireDecode 22 element)
               (\<lambda>si. data_loop els 4 (d\<lparr>dp_signatureInfo := si\<rparr>))
      else if btype element = 23 then
        if lastElement \<ge> 5 then Inl (OutOfOrder 23)
        else data_loop els 5 (d\<lparr>dp_signatureValue := Some element\<rparr>)
      else if isCriticalType (btype element) then Inl (UnrecognizedCritical (btype element))
      else data_loop els lastElement d)"

definition Data_wireDecode :: "block \<Rightarrow> tlv_error + data_packet" where
  "Data_wireDecode wire =
     (if btype wire \<noteq> 6 then Inl (UnexpectedType (btype wire))
      else bind_sum (parse wire) (\<lambda>els.
        case els of
          [] \<Rightarrow> Inl (MissingElement 7)
        | element # rest \<Rightarrow>
            if btype element \<noteq> 7 then Inl (MissingElement 7)
            else bind_sum (name_wireDecode element) (\<lambda>n.
                 bind_sum (data_loop rest 1 (Data_new n)) (\<lambda>d.
                   if si_type (dp_signatureInfo d) = None then Inl (MissingElement 22)
                   else if dp_signatureValue d = None then Inl (MissingElement 23)
                   else Inr d))))"

section \<open>Encoding and parsing of element lists\<close>

definition typed :: "block \<Rightarrow> bool" where
  "typed b \<longleftrightarrow> 0 < btype b \<and> btype b < 2 ^ 32"

lemma element_length:
  "b \<in> set els \<Longrightarrow> length (bvalue b) \<le> length (elements_encode els)"
  by (induction els) (auto simp: block_encode_eq)

lemma typed_ok:
  assumes "list_all typed els" and "length (elements_encode els) < 2 ^ 64"
  shows "list_all block_ok els"
  using assms element_length [of _ els] by (auto simp: list_all_iff block_ok_def typed_def dest: le_less_trans)

lemma parse_Block [simp]:
  assumes "list_all typed els" and "length (elements_encode els) < 2 ^ 64"
  shows "parse (Block t (elements_encode els)) = Inr els"
  using typed_ok [OF assms] by (simp add: parse_def)

lemma name_block_elements: "name_block n = Block 7 (elements_encode (map component_block n))"
  unfolding name_block_def component_block_def by (induction n) (simp_all add: component_encode_block)

lemma valid_component_type: "valid_component c \<Longrightarrow> 0 < ctype c \<and> ctype c < 65536"
  by (simp add: valid_component_alt)

lemma name_block_decode [simp]:
  assumes "valid_name n" and "length (bvalue (name_block n)) < 2 ^ 64"
  shows "name_wireDecode (name_block n) = Inr n"
proof -
  have t: "list_all typed (map component_block n)"
    using assms(1) by (auto simp: valid_name_def list_all_iff typed_def component_block_def dest!: valid_component_type bspec)
  show ?thesis
    using parse_Block [OF t, of 7] assms(2)
    by (simp add: name_block_elements name_wireDecode_def comp_def component_block_def)
qed

lemma name_block_encode: "block_encode (name_block n) = name_wireEncode n"
  by (simp add: name_block_def name_wireEncode_def block_encode_def Let_def)

lemma btype_simps [simp]:
  "btype (name_block n) = 7" "btype (MetaInfo_wireEncode m) = 20" "btype (makeNonNegativeIntegerBlock t v) = t"
  by (simp_all add: name_block_def MetaInfo_wireEncode_def makeNonNegativeIntegerBlock_def)

lemma readAs_roundtrip [simp]:
  assumes "v \<le> max_R" and "v < 2 ^ 64"
  shows "readNonNegativeIntegerAs max_R (makeNonNegativeIntegerBlock t (of_nat v)) = Inr v"
  using assms by (simp add: readNonNegativeIntegerAs_def unat_of_nat)

lemma duration_roundtrip [simp]: "0 \<le> d \<Longrightarrow> d < 2 ^ 63 \<Longrightarrow> duration_of (duration_count d) = d"
  unfolding duration_of_def duration_count_def
  by (subst int_word_sint) simp

lemma blockFromValue_encode:
  assumes "block_ok b"
  shows "blockFromValue (Block t (block_encode b)) = Inr b"
  using block_ok_type [OF assms] by (simp add: blockFromValue_def block_encode_eq)

section \<open>Round trips of the parts\<close>

definition meta_ok :: "meta_info \<Rightarrow> bool" where
  "meta_ok m \<longleftrightarrow> mi_type m < 2 ^ 32 \<and> 0 \<le> mi_freshnessPeriod m \<and> mi_freshnessPeriod m < 2 ^ 63 \<and>
     (case mi_finalBlockId m of None \<Rightarrow> True | Some c \<Rightarrow> valid_component c) \<and>
     list_all (\<lambda>b. 128 \<le> btype b \<and> btype b \<le> 252) (mi_appMetaInfo m)"

definition locator_ok :: "key_locator \<Rightarrow> bool" where
  "locator_ok l \<longleftrightarrow>
     (case l of NoLocator \<Rightarrow> True | LocatorName n \<Rightarrow> valid_name n | LocatorDigest b \<Rightarrow> btype b = 29
      | LocatorType _ \<Rightarrow> False)"

definition extension_ok :: "block \<Rightarrow> bool" where
  "extension_ok b \<longleftrightarrow> btype b < 2 ^ 32 \<and>
     (btype b = 38 \<and> bvalue b \<noteq> [] \<or> btype b = 253 \<or> btype b \<noteq> 38 \<and> \<not> isCriticalType (btype b))"

definition sig_ok :: "signature_info \<Rightarrow> bool" where
  "sig_ok si \<longleftrightarrow> (case si_type si of None \<Rightarrow> False | Some t \<Rightarrow> t < 2 ^ 16) \<and>
     (case si_keyLocator si of None \<Rightarrow> True | Some l \<Rightarrow> locator_ok l) \<and> list_all extension_ok (si_otherTlvs si)"

definition data_ok :: "data_packet \<Rightarrow> bool" where
  "data_ok d \<longleftrightarrow> valid_name (dp_name d) \<and> meta_ok (dp_metaInfo d) \<and> sig_ok (dp_signatureInfo d) \<and>
     (case dp_content d of None \<Rightarrow> True | Some b \<Rightarrow> btype b = 21) \<and>
     (case dp_signatureValue d of None \<Rightarrow> False | Some b \<Rightarrow> btype b = 23)"

lemma meta_roundtrip:
  assumes "meta_ok m" and "length (bvalue (MetaInfo_wireEncode m)) < 2 ^ 64" and "mi_appMetaInfo m0 = []"
  shows "MetaInfo_wireDecode (MetaInfo_wireEncode m) m0 = Inr m"
proof -
  define app where "app = mi_appMetaInfo m"
  define fb where "fb = (case mi_finalBlockId m of None \<Rightarrow> [] | Some c \<Rightarrow> [Block 26 (component_wireEncode c)])"
  define fr where "fr = (if mi_freshnessPeriod m \<noteq> DEFAULT_FRESHNESS_PERIOD
         then [makeNonNegativeIntegerBlock 25 (duration_count (mi_freshnessPeriod m))] else [])"
  define ty where "ty = (if mi_type m \<noteq> 0 then [makeNonNegativeIntegerBlock 24 (of_nat (mi_type m))] else [])"
  have enc: "MetaInfo_wireEncode m = Block 20 (elements_encode (ty @ fr @ fb @ app))"
    by (simp add: MetaInfo_wireEncode_def ty_def fr_def fb_def app_def)
  have len: "length (elements_encode (ty @ fr @ fb @ app)) < 2 ^ 64" using assms(2) by (simp add: enc)
  have heads: "\<And>b. b \<in> set app \<Longrightarrow> 128 \<le> btype b \<and> btype b \<le> 252"
    using assms(1) by (auto simp: meta_ok_def app_def list_all_iff)
  have first: "a \<in> set app \<Longrightarrow> btype a \<noteq> 24 \<and> btype a \<noteq> 25 \<and> btype a \<noteq> 26" for a
    using heads [of a] by auto
  have typed: "list_all typed (ty @ fr @ fb @ app)"
    using heads by (auto simp: list_all_iff typed_def ty_def fr_def fb_def split: option.splits if_splits)
      (fastforce)+
  have fbok: "meta_finalBlock (fb @ app) = Inr (mi_finalBlockId m, app)"
  proof (cases "mi_finalBlockId m")
    case None
    then show ?thesis using first by (auto simp: meta_finalBlock_def fb_def split: list.splits)
  next
    case (Some c)
    then have v: "valid_component c" using assms(1) by (simp add: meta_ok_def)
    have "Block 26 (component_wireEncode c) \<in> set (ty @ fr @ fb @ app)" using Some by (simp add: fb_def)
    from element_length [OF this] len have "length (component_wireEncode c) < 2 ^ 64" by simp
    then have "block_ok (component_block c)"
      using valid_component_type [OF v] by (simp add: block_ok_def component_block_def component_encode_block block_encode_eq)
    from blockFromValue_encode [OF this, of 26]
    have "blockFromValue (Block 26 (component_wireEncode c)) = Inr (component_block c)"
      by (simp add: component_encode_block component_block_def)
    moreover have "component_of_block (component_block c) = Inr c"
      using v by (simp add: component_of_block_def component_block_def valid_component_def ensureValid_def split: if_splits)
    ultimately show ?thesis by (simp add: meta_finalBlock_def fb_def Some)
  qed
  have frok: "meta_freshness (fr @ fb @ app) = Inr (mi_freshnessPeriod m, fb @ app)"
    using assms(1) first
    by (cases app) (auto simp: meta_freshness_def fr_def fb_def meta_ok_def DEFAULT_FRESHNESS_PERIOD_def split: option.splits list.splits)
  have tyok: "meta_contentType (ty @ fr @ fb @ app) = Inr (mi_type m, fr @ fb @ app)"
    using assms(1) first
    by (cases app) (auto simp: meta_contentType_def ty_def fr_def fb_def meta_ok_def split: option.splits list.splits)
  show ?thesis
    unfolding MetaInfo_wireDecode_def enc using parse_Block [OF typed len, of 20]
    by (simp add: tyok frok fbok assms(3)) (simp add: app_def)
qed

lemma locator_roundtrip:
  assumes "locator_ok l" and "KeyLocator_wireEncode l = Inr b" and "length (bvalue b) < 2 ^ 64"
  shows "KeyLocator_wireDecode b = Inr l \<and> btype b = 28"
proof (cases l)
  case (LocatorName n)
  then have b: "b = Block 28 (elements_encode [name_block n])" and n: "valid_name n"
    using assms by (simp_all add: KeyLocator_wireEncode_def locator_ok_def)
  have len: "length (elements_encode [name_block n]) < 2 ^ 64" using assms(3) b by simp
  have "list_all typed [name_block n]" by (simp add: typed_def)
  moreover have "name_wireDecode (name_block n) = Inr n"
    using len n by (simp add: block_encode_eq)
  ultimately show ?thesis
    using parse_Block [of "[name_block n]" 28] len b LocatorName by (simp add: KeyLocator_wireDecode_def)
next
  case (LocatorDigest x)
  then have b: "b = Block 28 (elements_encode [x])" "btype x = 29"
    using assms by (simp_all add: KeyLocator_wireEncode_def locator_ok_def)
  then show ?thesis
    using parse_Block [of "[x]" 28] assms(3) LocatorDigest by (simp add: KeyLocator_wireDecode_def typed_def)
qed (use assms in \<open>auto simp: KeyLocator_wireEncode_def KeyLocator_wireDecode_def locator_ok_def parse_def\<close>)

lemma sig_loop_extensions:
  "list_all extension_ok xs \<Longrightarrow> sig_loop xs l si = Inr (si\<lparr>si_otherTlvs := si_otherTlvs si @ xs\<rparr>)"
  by (induction xs arbitrary: si) (auto simp: extension_ok_def isCriticalType_def)

lemma sig_roundtrip:
  assumes "sig_ok si" and "SignatureInfo_wireEncode type si = Inr b" and "length (bvalue b) < 2 ^ 64"
  shows "SignatureInfo_wireDecode type b = Inr si \<and> btype b = type"
proof -
  obtain t where t: "si_type si = Some t" "t < 2 ^ 16" using assms(1) by (auto simp: sig_ok_def split: option.splits)
  obtain loc where loc: "(case si_keyLocator si of None \<Rightarrow> Inr [] | Some l \<Rightarrow> bind_sum (KeyLocator_wireEncode l) (\<lambda>b. Inr [b])) = Inr loc"
    and b: "b = Block type (elements_encode (makeNonNegativeIntegerBlock 27 (of_nat t) # loc @ si_otherTlvs si))"
    using assms(2) t(1) by (auto simp: SignatureInfo_wireEncode_def bind_sum_Inr)
  let ?els = "makeNonNegativeIntegerBlock 27 (of_nat t) # loc @ si_otherTlvs si"
  have ext: "list_all extension_ok (si_otherTlvs si)" using assms(1) by (simp add: sig_ok_def)
  have len: "length (elements_encode ?els) < 2 ^ 64" using assms(3) b by simp
  have l: "loc = [] \<and> si_keyLocator si = None \<or>
      (\<exists>x lb. si_keyLocator si = Some x \<and> loc = [lb] \<and> KeyLocator_wireDecode lb = Inr x \<and> btype lb = 28)"
  proof (cases "si_keyLocator si")
    case (Some x)
    then obtain lb where lb: "KeyLocator_wireEncode x = Inr lb" "loc = [lb]" using loc by (auto simp: bind_sum_Inr)
    have "locator_ok x" using assms(1) Some by (simp add: sig_ok_def)
    moreover have "length (bvalue lb) < 2 ^ 64" using element_length [of lb ?els] lb(2) len by simp
    ultimately show ?thesis using locator_roundtrip lb Some by blast
  qed (use loc in simp)
  have typed: "list_all typed ?els"
    using l ext by (auto simp: typed_def list_all_iff extension_ok_def isCriticalType_def)
  have "sig_loop ?els 0 SignatureInfo_new = Inr si"
    using l t ext by (auto simp: SignatureInfo_new_def sig_loop_extensions)
  then show ?thesis
    using parse_Block [OF typed len, of type] b t(1) by (simp add: SignatureInfo_wireDecode_def)
qed

lemma data_roundtrip:
  assumes "data_ok d" and "Data_wireEncode d = Inr w" and "length (bvalue w) < 2 ^ 64"
  shows "Data_wireDecode w = Inr d"
proof -
  obtain v si where v: "dp_signatureValue d = Some v" "btype v = 23"
    and si: "SignatureInfo_wireEncode 22 (dp_signatureInfo d) = Inr si"
    and w: "w = Block 6 (elements_encode (name_block (dp_name d) # MetaInfo_wireEncode (dp_metaInfo d) #
            (case dp_content d of None \<Rightarrow> [] | Some c \<Rightarrow> [c]) @ [si, v]))"
    and ty: "si_type (dp_signatureInfo d) \<noteq> None"
    using assms(1,2)
    by (auto simp: Data_wireEncode_def Data_unsigned_elements_def bind_sum_Inr data_ok_def split: option.splits if_splits)
  let ?c = "case dp_content d of None \<Rightarrow> [] | Some c \<Rightarrow> [c]"
  let ?els = "name_block (dp_name d) # MetaInfo_wireEncode (dp_metaInfo d) # ?c @ [si, v]"
  have len: "length (elements_encode ?els) < 2 ^ 64" using assms(3) w by simp
  have small: "b \<in> set ?els \<Longrightarrow> length (bvalue b) < 2 ^ 64" for b
    using element_length [of b ?els] len by linarith
  have c: "\<And>b. dp_content d = Some b \<Longrightarrow> btype b = 21" using assms(1) by (auto simp: data_ok_def)
  have sir: "SignatureInfo_wireDecode 22 si = Inr (dp_signatureInfo d)" "btype si = 22"
    using sig_roundtrip [OF _ si] small [of si] assms(1) by (auto simp: data_ok_def)
  have m: "MetaInfo_wireDecode (MetaInfo_wireEncode (dp_metaInfo d)) MetaInfo_new = Inr (dp_metaInfo d)"
    using assms(1) small by (intro meta_roundtrip) (simp_all add: data_ok_def MetaInfo_new_def)
  have n: "name_wireDecode (name_block (dp_name d)) = Inr (dp_name d)"
    using assms(1) small by (intro name_block_decode) (simp_all add: data_ok_def)
  have typed: "list_all typed ?els"
    using v sir c by (auto simp: typed_def split: option.splits)
  have "data_loop (tl ?els) 1 (Data_new (dp_name d)) = Inr d"
    using v sir c m by (cases "dp_content d") (simp_all add: Data_new_def)
  then show ?thesis
    using parse_Block [OF typed len, of 6] w n v ty by (simp add: Data_wireDecode_def)
qed

section \<open>Properties\<close>

text \<open>C16: decoding the encoding of a signed Data packet gives the packet back, with its name,
  meta information, content, signature information and signature value.\<close>

theorem data_wire_roundtrip:
  assumes "data_ok d" and "Data_wireEncode d = Inr w" and "length (bvalue w) < 2 ^ 64"
  shows "Data_wireDecode w = Inr d"
  using data_roundtrip [OF assms] .

definition signed_a :: data_packet where
  "signed_a = (Data_new [Component 8 [65]])
     \<lparr>dp_metaInfo := \<lparr>mi_type = 6, mi_freshnessPeriod = 4000, mi_finalBlockId = Some (Component 8 [1]),
                       mi_appMetaInfo = [Block 128 []]\<rparr>,
      dp_content := Some (Block 21 [1, 2, 3]),
      dp_signatureInfo := \<lparr>si_type = Some 3, si_keyLocator = Some (LocatorName [Component 8 [75]]), si_otherTlvs = []\<rparr>,
      dp_signatureValue := Some (Block 23 [9])\<rparr>"

theorem data_wire_roundtrip_witness:
  "\<exists>w. Data_wireEncode signed_a = Inr w \<and> Data_wireDecode w = Inr signed_a"
proof -
  have "data_ok signed_a"
    by (simp add: data_ok_def signed_a_def Data_new_def meta_ok_def sig_ok_def locator_ok_def valid_name_def
        valid_component_alt is_sha256_type_def)
  moreover have "(case Data_wireEncode signed_a of Inl _ \<Rightarrow> False | Inr w \<Rightarrow> length (bvalue w) < 1000)"
    by code_simp
  then obtain w where "Data_wireEncode signed_a = Inr w" "length (bvalue w) < 2 ^ 64"
    by (auto split: sum.splits)
  ultimately show ?thesis using data_wire_roundtrip by blast
qed

text \<open>A freshness period is kept as a signed number of milliseconds, so a packet whose
  FreshnessPeriod element holds 2 to the power 63 or more is decoded with a negative one.\<close>

theorem freshness_period_wraps:
  assumes "2 ^ 63 \<le> unat v"
  shows "\<exists>m. MetaInfo_wireDecode (Block 20 (elements_encode [makeNonNegativeIntegerBlock 25 v])) MetaInfo_new = Inr m \<and>
    mi_freshnessPeriod m < 0"
proof -
  have len: "length (elements_encode [makeNonNegativeIntegerBlock 25 v]) < 2 ^ 64"
    using sizeOfNni_cases [of v]
    by (auto simp: makeNonNegativeIntegerBlock_def block_encode_eq prepend_nni_is_write sizeOf_write_nni sizeOf_write
        sizeOfVarNumber_def)
  have u: "2 ^ 63 \<le> uint v"
    using assms zle_int [of "2 ^ 63" "unat v"] by (simp only: uint_nat of_nat_power of_nat_numeral)
  have u': "uint v < 2 ^ 64" using uint_lt2p [of v] by simp
  have "sint v = (uint v + 2 ^ 63) mod 2 ^ 64 - 2 ^ 63"
    using int_word_sint [of "uint v", where 'a = 64] by simp
  also have "uint v + 2 ^ 63 = (uint v - 2 ^ 63) + 2 ^ 64" by simp
  also have "\<dots> mod 2 ^ 64 = uint v - 2 ^ 63"
    using u u' by (simp only: mod_add_self2) (simp add: mod_pos_pos_trivial)
  finally have "sint v < 0" using u' by simp
  then show ?thesis
    using parse_Block [of "[makeNonNegativeIntegerBlock 25 v]" 20, OF _ len]
    by (simp add: typed_def MetaInfo_wireDecode_def meta_contentType_def meta_freshness_def meta_finalBlock_def duration_of_def)
qed

theorem freshness_period_wraps_witness:
  "\<exists>m. MetaInfo_wireDecode (Block 20 (elements_encode [makeNonNegativeIntegerBlock 25 0x8000000000000000])) MetaInfo_new = Inr m \<and>
    mi_freshnessPeriod m < 0"
  by (rule freshness_period_wraps) simp

end
