(* ===== verification/Interest_Codec.thy ===== *)
theory Interest_Codec
  imports Data_Codec
begin

text \<open>
  The wire format of Interest packets and their parameters (\<^verbatim>\<open>interest.cpp\<close>): encoding,
  decoding, application parameters, signature elements and the parameters digest in the
  name.  SHA-256 is the parameter \<^verbatim>\<open>H\<close> of the definitions; the nonce drawn when a
  packet without one is encoded is the argument \<^verbatim>\<open>rnd\<close>.
\<close>

section \<open>The packet\<close>

record interest_packet =
  ip_name :: name
  ip_canBePrefix :: bool
  ip_mustBeFresh :: bool
  ip_forwardingHint :: "name list"
  ip_nonce :: "byte list option"
  ip_lifetime :: int
  ip_hopLimit :: "byte option"
  ip_parameters :: "block list"

definition DEFAULT_INTEREST_LIFETIME :: int where
  "DEFAULT_INTEREST_LIFETIME = 4000"

definition Interest_new :: "name \<Rightarrow> interest_packet" where
  "Interest_new n =
     \<lparr>ip_name = n, ip_canBePrefix = False, ip_mustBeFresh = False, ip_forwardingHint = [],
      ip_nonce = None, ip_lifetime = DEFAULT_INTEREST_LIFETIME, ip_hopLimit = None, ip_parameters = []\<rparr>"

definition hasApplicationParameters :: "interest_packet \<Rightarrow> bool" where
  "hasApplicationParameters i \<longleftrightarrow> ip_parameters i \<noteq> []"

section \<open>The parameters digest\<close>

text \<open>The index of the digest component, -1 when there is none, -2 when there are several.\<close>

fun find_digest :: "name \<Rightarrow> int \<Rightarrow> int \<Rightarrow> int" where
  "find_digest [] i pos = pos"
| "find_digest (c # cs) i pos =
     (if isParametersSha256Digest c then (if pos \<noteq> - 1 then - 2 else find_digest cs (i + 1) i)
      else find_digest cs (i + 1) pos)"

definition findParametersDigestComponent :: "name \<Rightarrow> int" where
  "findParametersDigestComponent n = find_digest n 0 (- 1)"

definition computeParametersDigest :: "(byte list \<Rightarrow> byte list) \<Rightarrow> interest_packet \<Rightarrow> byte list" where
  "computeParametersDigest H i = H (elements_encode (ip_parameters i))"

definition isParametersDigestValid :: "(byte list \<Rightarrow> byte list) \<Rightarrow> interest_packet \<Rightarrow> bool" where
  "isParametersDigestValid H i =
     (let digestIndex = findParametersDigestComponent (ip_name i) in
      if digestIndex = - 1 then \<not> hasApplicationParameters i
      else if \<not> hasApplicationParameters i then False
      else cvalue (name_get (ip_name i) digestIndex) = computeParametersDigest H i)"

definition addOrReplaceParametersDigestComponent ::
  "(byte list \<Rightarrow> byte list) \<Rightarrow> interest_packet \<Rightarrow> interest_packet" where
  "addOrReplaceParametersDigestComponent H i =
     (let digestIndex = findParametersDigestComponent (ip_name i);
          digestComponent = Component 2 (computeParametersDigest H i)
      in if digestIndex = - 1 then i\<lparr>ip_name := ip_name i @ [digestComponent]\<rparr>
         else i\<lparr>ip_name := (ip_name i)[nat digestIndex := digestComponent]\<rparr>)"

section \<open>Modifiers\<close>

datatype interest_error = TlvError tlv_error | InvalidArgument

definition ip_setName :: "(byte list \<Rightarrow> byte list) \<Rightarrow> name \<Rightarrow> interest_packet \<Rightarrow> interest_error + interest_packet" where
  "ip_setName H n i =
     (if findParametersDigestComponent n = - 2 then Inl InvalidArgument
      else if n \<noteq> ip_name i
      then Inr (if hasApplicationParameters i
                then addOrReplaceParametersDigestComponent H (i\<lparr>ip_name := n\<rparr>) else i\<lparr>ip_name := n\<rparr>)
      else Inr i)"

definition ip_setInterestLifetime :: "int \<Rightarrow> interest_packet \<Rightarrow> interest_error + interest_packet" where
  "ip_setInterestLifetime t i = (if t < 0 then Inl InvalidArgument else Inr (i\<lparr>ip_lifetime := t\<rparr>))"

definition setApplicationParametersInternal ::
  "(byte list \<Rightarrow> byte list) \<Rightarrow> block \<Rightarrow> interest_packet \<Rightarrow> interest_packet" where
  "setApplicationParametersInternal H b i =
     addOrReplaceParametersDigestComponent H
       (case ip_parameters i of
          [] \<Rightarrow> i\<lparr>ip_parameters := [b]\<rparr>
        | _ # ps \<Rightarrow> i\<lparr>ip_parameters := b # ps\<rparr>)"

definition setApplicationParameters ::
  "(byte list \<Rightarrow> byte list) \<Rightarrow> block \<Rightarrow> interest_packet \<Rightarrow> interest_packet" where
  "setApplicationParameters H b i =
     (if btype b = 36 then setApplicationParametersInternal H b i
      else setApplicationParametersInternal H (Block 36 (block_encode b)) i)"

definition unsetApplicationParameters :: "interest_packet \<Rightarrow> interest_packet" where
  "unsetApplicationParameters i =
     (let digestIndex = findParametersDigestComponent (ip_name i);
          i' = i\<lparr>ip_parameters := []\<rparr>
      in if digestIndex \<ge> 0
         then i'\<lparr>ip_name := take (nat digestIndex) (ip_name i) @ drop (Suc (nat digestIndex)) (ip_name i)\<rparr>
         else i')"

definition findFirstParameter :: "nat \<Rightarrow> interest_packet \<Rightarrow> block option" where
  "findFirstParameter t i = find_element t (ip_parameters i)"

definition getSignatureInfo :: "interest_packet \<Rightarrow> tlv_error + signature_info option" where
  "getSignatureInfo i =
     (case findFirstParameter 44 i of
        None \<Rightarrow> Inr None
      | Some b \<Rightarrow> bind_sum (SignatureInfo_wireDecode 44 b) (\<lambda>si. Inr (Some si)))"

definition getSignatureValue :: "interest_packet \<Rightarrow> block option" where
  "getSignatureValue i = findFirstParameter 46 i"

text \<open>
  \<^verbatim>\<open>isSigned\<close> is declared \<^verbatim>\<open>noexcept\<close>: when decoding the signature information throws,
  the program is terminated.
\<close>

definition isSigned :: "interest_packet \<Rightarrow> tlv_error + bool" where
  "isSigned i =
     (if length (ip_parameters i) < 3 then Inr False
      else case getSignatureInfo i of
             Inl _ \<Rightarrow> Inl Terminated
           | Inr None \<Rightarrow> Inr False
           | Inr (Some _) \<Rightarrow>
               Inr (getSignatureValue i \<noteq> None \<and> ip_name i \<noteq> [] \<and> ctype (name_get (ip_name i) (- 1)) = 2))"

text \<open>The first element of type \<^verbatim>\<open>t\<close> replaced, or put before position of the first \<^verbatim>\<open>u\<close>.\<close>

fun replace_first :: "nat \<Rightarrow> block \<Rightarrow> block list \<Rightarrow> block list" where
  "replace_first t b [] = []"
| "replace_first t b (x # xs) = (if btype x = t then b # xs else x # replace_first t b xs)"

fun insert_before :: "nat \<Rightarrow> block \<Rightarrow> block list \<Rightarrow> block list" where
  "insert_before u b [] = [b]"
| "insert_before u b (x # xs) = (if btype x = u then b # x # xs else x # insert_before u b xs)"

fun insert_after :: "nat \<Rightarrow> block \<Rightarrow> block list \<Rightarrow> block list" where
  "insert_after u b [] = []"
| "insert_after u b (x # xs) = (if btype x = u then x # b # xs else x # insert_after u b xs)"

definition ip_setSignatureInfo ::
  "(byte list \<Rightarrow> byte list) \<Rightarrow> signature_info \<Rightarrow> interest_packet \<Rightarrow> tlv_error + interest_packet" where
  "ip_setSignatureInfo H info i =
     (let ps = (if ip_parameters i = [] then [Block 36 []] else ip_parameters i) in
      bind_sum (SignatureInfo_wireEncode 44 info) (\<lambda>encodedInfo.
        case find_element 44 ps of
          Some old \<Rightarrow>
            if old = encodedInfo then Inr (i\<lparr>ip_parameters := ps\<rparr>)
            else Inr (addOrReplaceParametersDigestComponent H
                       (i\<lparr>ip_parameters := replace_first 44 encodedInfo ps\<rparr>))
        | None \<Rightarrow>
            Inr (addOrReplaceParametersDigestComponent H
                  (i\<lparr>ip_parameters := insert_before 46 encodedInfo ps\<rparr>))))"

definition setSignatureValueInternal ::
  "(byte list \<Rightarrow> byte list) \<Rightarrow> block \<Rightarrow> interest_packet \<Rightarrow> tlv_error + interest_packet" where
  "setSignatureValueInternal H sigValue i =
     (case findFirstParameter 44 i of
        None \<Rightarrow> Inl (MissingElement 44)
      | Some _ \<Rightarrow>
         (case find_element 46 (ip_parameters i) of
            Some old \<Rightarrow>
              if old = sigValue then Inr i
              else Inr (addOrReplaceParametersDigestComponent H
                         (i\<lparr>ip_parameters := replace_first 46 sigValue (ip_parameters i)\<rparr>))
          | None \<Rightarrow>
              Inr (addOrReplaceParametersDigestComponent H
                    (i\<lparr>ip_parameters := insert_after 44 sigValue (ip_parameters i)\<rparr>))))"

section \<open>Encoding\<close>

definition ip_getNonce :: "byte list \<Rightarrow> interest_packet \<Rightarrow> interest_packet" where
  "ip_getNonce rnd i = (case ip_nonce i of None \<Rightarrow> i\<lparr>ip_nonce := Some rnd\<rparr> | Some _ \<Rightarrow> i)"

definition hint_part :: "name list \<Rightarrow> block list" where
  "hint_part hint = (if hint \<noteq> [] then [Block 30 (elements_encode (map name_block hint))] else [])"

definition lifetime_part :: "int \<Rightarrow> block list" where
  "lifetime_part t =
     (if t \<noteq> DEFAULT_INTEREST_LIFETIME then [makeNonNegativeIntegerBlock 12 (duration_count t)] else [])"

definition hopLimit_part :: "byte option \<Rightarrow> block list" where
  "hopLimit_part h = (case h of None \<Rightarrow> [] | Some v \<Rightarrow> [Block 34 [v]])"

definition Interest_wireEncode :: "byte list \<Rightarrow> interest_packet \<Rightarrow> tlv_error + block" where
  "Interest_wireEncode rnd i =
     (let digestIndex = findParametersDigestComponent (ip_name i) in
      if digestIndex = - 1 \<and> hasApplicationParameters i then Inl ParametersDigestError
      else if digestIndex \<noteq> - 1 \<and> \<not> hasApplicationParameters i then Inl ParametersDigestError
      else Inr (Block 5 (elements_encode
        ([name_block (ip_name i)] @
         (if ip_canBePrefix i then [Block 33 []] else []) @
         (if ip_mustBeFresh i then [Block 18 []] else []) @
         hint_part (ip_forwardingHint i) @
         [Block 10 (the (ip_nonce (ip_getNonce rnd i)))] @
         lifetime_part (ip_lifetime i) @
         hopLimit_part (ip_hopLimit i) @
         ip_parameters i))))"

section \<open>Decoding\<close>

fun hint_loop :: "block list \<Rightarrow> name list \<Rightarrow> tlv_error + name list" where
  "hint_loop [] hint = Inr hint"
| "hint_loop (del # dels) hint =
     (if btype del = 7 then
        (case name_wireDecode del of
           Inl _ \<Rightarrow> Inl InvalidHint | Inr n \<Rightarrow> hint_loop dels (hint @ [n]))
      else if btype del = 31 then
        (case bind_sum (parse del) (\<lambda>els. bind_sum (get_element 7 els) name_wireDecode) of
           Inl _ \<Rightarrow> Inl InvalidHint | Inr n \<Rightarrow> hint_loop dels (hint @ [n]))
      else if isCriticalType (btype del) then Inl (UnrecognizedCritical (btype del))
      else hint_loop dels hint)"

fun interest_loop :: "block list \<Rightarrow> nat \<Rightarrow> interest_packet \<Rightarrow> tlv_error + interest_packet" where
  "interest_loop [] lastElement i = Inr i"
| "interest_loop (element # els) lastElement i =
     (if btype element = 33 then
        if lastElement \<ge> 2 then Inl (OutOfOrder 33)
        else if bvalue element \<noteq> [] then Inl (Malformed 33)
        else interest_loop els 2 (i\<lparr>ip_canBePrefix := True\<rparr>)
      else if btype element = 18 then
        if lastElement \<ge> 3 then Inl (OutOfOrder 18)
        else if bvalue element \<noteq> [] then Inl (Malformed 18)
        else interest_loop els 3 (i\<lparr>ip_mustBeFresh := True\<rparr>)
      else if btype element = 30 then
        if lastElement \<ge> 4 then Inl (OutOfOrder 30)
        else bind_sum (parse element) (\<lambda>dels.
             bind_sum (hint_loop dels (ip_forwardingHint i)) (\<lambda>hint.
               interest_loop els 4 (i\<lparr>ip_forwardingHint := hint\<rparr>)))
      else if btype element = 10 then
        if lastElement \<ge> 5 then Inl (OutOfOrder 10)
        else if length (bvalue element) \<noteq> 4 then Inl (Malformed 10)
        else interest_loop els 5 (i\<lparr>ip_nonce := Some (bvalue element)\<rparr>)
      else if btype element = 12 then
        if lastElement \<ge> 6 then Inl (OutOfOrder 12)
        else bind_sum (block_readNonNegativeInteger element) (\<lambda>v.
               interest_loop els 6 (i\<lparr>ip_lifetime := duration_of v\<rparr>))
      else if btype element = 34 then
        if lastElement \<ge> 7 then interest_loop els lastElement i
        else if length (bvalue element) \<noteq> 1 then Inl (Malformed 34)
        else interest_loop els 7 (i\<lparr>ip_hopLimit := Some (hd (bvalue element))\<rparr>)
      else if btype element = 36 then
        if lastElement \<ge> 8 then interest_loop els lastElement i
        else interest_loop els 8 (i\<lparr>ip_parameters := ip_parameters i @ [element]\<rparr>)
      else if isCriticalType (btype element) then Inl (UnrecognizedCritical (btype element))
      else if hasApplicationParameters i
      then interest_loop els lastElement (i\<lparr>ip_parameters := ip_parameters i @ [element]\<rparr>)
      else interest_loop els lastElement i)"

definition Interest_wireDecode :: "(byte list \<Rightarrow> byte list) \<Rightarrow> block \<Rightarrow> tlv_error + interest_packet" where
  "Interest_wireDecode H wire =
     (if btype wire \<noteq> 5 then Inl (UnexpectedType (btype wire))
      else bind_sum (parse wire) (\<lambda>els.
        case els of
          [] \<Rightarrow> Inl (MissingElement 7)
        | element # rest \<Rightarrow>
            if btype element \<noteq> 7 then Inl (MissingElement 7)
            else bind_sum (name_wireDecode element) (\<lambda>tempName.
              if tempName = [] then Inl (EmptyValue 7)
              else if findParametersDigestComponent tempName = - 2 then Inl ParametersDigestError
              else bind_sum (interest_loop rest 1 (Interest_new tempName)) (\<lambda>i.
                if \<not> isParametersDigestValid H i then Inl ParametersDigestError else Inr i))))"

section \<open>Well-formed packets and the round trip\<close>

definition params_ok :: "block list \<Rightarrow> bool" where
  "params_ok ps \<longleftrightarrow>
     (case ps of
        [] \<Rightarrow> True
      | p # rest \<Rightarrow> btype p = 36 \<and>
          list_all (\<lambda>b. \<not> isCriticalType (btype b) \<and> btype b \<noteq> 34 \<and> btype b \<noteq> 36 \<and> btype b < 2 ^ 32) rest)"

definition interest_ok :: "(byte list \<Rightarrow> byte list) \<Rightarrow> interest_packet \<Rightarrow> bool" where
  "interest_ok H i \<longleftrightarrow> valid_name (ip_name i) \<and> ip_name i \<noteq> [] \<and> findParametersDigestComponent (ip_name i) \<noteq> - 2 \<and>
     isParametersDigestValid H i \<and> list_all valid_name (ip_forwardingHint i) \<and>
     (case ip_nonce i of None \<Rightarrow> False | Some n \<Rightarrow> length n = 4) \<and> 0 \<le> ip_lifetime i \<and> ip_lifetime i < 2 ^ 63 \<and>
     params_ok (ip_parameters i)"

lemma params_ok_Nil [simp]: "params_ok []"
  by (simp add: params_ok_def)

lemma loop_extra_params:
  assumes "list_all (\<lambda>b. \<not> isCriticalType (btype b) \<and> btype b \<noteq> 34 \<and> btype b \<noteq> 36 \<and> btype b < 2 ^ 32) ps"
    and "hasApplicationParameters i"
  shows "interest_loop ps 8 i = Inr (i\<lparr>ip_parameters := ip_parameters i @ ps\<rparr>)"
  using assms
  by (induction ps arbitrary: i) (auto simp: hasApplicationParameters_def isCriticalType_def)

lemma loop_params:
  assumes "params_ok ps" and "ip_parameters i = []" and "l < 8"
  shows "interest_loop ps l i = Inr (i\<lparr>ip_parameters := ps\<rparr>)"
  using assms by (cases ps) (auto simp: params_ok_def loop_extra_params hasApplicationParameters_def)

lemma loop_hopLimit:
  assumes "params_ok ps" and "ip_parameters i = []" and "ip_hopLimit i = None" and "l < 7"
  shows "interest_loop (hopLimit_part h @ ps) l i = Inr (i\<lparr>ip_hopLimit := h, ip_parameters := ps\<rparr>)"
  using assms by (cases h) (auto simp: hopLimit_part_def loop_params)

lemma loop_lifetime:
  assumes "params_ok ps" and "ip_parameters i = []" and "ip_hopLimit i = None"
    and "ip_lifetime i = DEFAULT_INTEREST_LIFETIME" and "0 \<le> t" "t < 2 ^ 63" and "l < 6"
  shows "interest_loop (lifetime_part t @ hopLimit_part h @ ps) l i =
    Inr (i\<lparr>ip_lifetime := t, ip_hopLimit := h, ip_parameters := ps\<rparr>)"
  using assms by (auto simp: lifetime_part_def loop_hopLimit)

lemma hint_loop_names:
  assumes "list_all valid_name hint" and "\<And>n. n \<in> set hint \<Longrightarrow> length (bvalue (name_block n)) < 2 ^ 64"
  shows "hint_loop (map name_block hint) acc = Inr (acc @ hint)"
  using assms by (induction hint arbitrary: acc) auto

lemma loop_hint:
  assumes "list_all valid_name hint" and "list_all (\<lambda>b. length (bvalue b) < 2 ^ 64) (hint_part hint)"
    and "ip_forwardingHint i = []" and "l < 4" and "btype b = 10"
  shows "interest_loop (hint_part hint @ b # els) l i =
    interest_loop (b # els) (if hint = [] then l else 4) (i\<lparr>ip_forwardingHint := hint\<rparr>)"
proof (cases "hint = []")
  case True
  then have "i\<lparr>ip_forwardingHint := hint\<rparr> = i" using assms(3) by simp
  then show ?thesis using True by (simp add: hint_part_def)
next
  case False
  then have part: "hint_part hint = [Block 30 (elements_encode (map name_block hint))]" by (simp add: hint_part_def)
  then have len: "length (elements_encode (map name_block hint)) < 2 ^ 64" using assms(2) by simp
  have "list_all typed (map name_block hint)" by (simp add: list_all_iff typed_def)
  from parse_Block [OF this len, of 30]
  have "parse (Block 30 (elements_encode (map name_block hint))) = Inr (map name_block hint)" .
  moreover have "length (bvalue (name_block n)) < 2 ^ 64" if "n \<in> set hint" for n
    using element_length [of "name_block n" "map name_block hint"] that len by simp
  then have "hint_loop (map name_block hint) [] = Inr hint"
    using hint_loop_names [OF assms(1), of "[]"] by simp
  ultimately show ?thesis using part False assms(3,4) by simp
qed

lemma interest_roundtrip:
  assumes "interest_ok H i" and "Interest_wireEncode rnd i = Inr w" and "length (bvalue w) < 2 ^ 64"
  shows "Interest_wireDecode H w = Inr i"
proof -
  obtain n where n: "ip_nonce i = Some n" "length n = 4"
    using assms(1) by (auto simp: interest_ok_def split: option.splits)
  let ?pre = "(if ip_canBePrefix i then [Block 33 []] else []) @ (if ip_mustBeFresh i then [Block 18 []] else [])"
  let ?tail = "lifetime_part (ip_lifetime i) @ hopLimit_part (ip_hopLimit i) @ ip_parameters i"
  let ?els = "name_block (ip_name i) # ?pre @ hint_part (ip_forwardingHint i) @ Block 10 n # ?tail"
  have w: "w = Block 5 (elements_encode ?els)"
    using assms(2) n by (auto simp: Interest_wireEncode_def Let_def ip_getNonce_def split: if_splits)
  have len: "length (elements_encode ?els) < 2 ^ 64" using assms(3) w by simp
  have small: "b \<in> set ?els \<Longrightarrow> length (bvalue b) < 2 ^ 64" for b
    using element_length [of b ?els] len by linarith
  have ps: "params_ok (ip_parameters i)" using assms(1) by (simp add: interest_ok_def)
  have "list_all typed (ip_parameters i)"
    using ps by (cases "ip_parameters i") (auto simp: params_ok_def list_all_iff typed_def isCriticalType_def)
  then have typed: "list_all typed ?els"
    by (auto simp: typed_def hint_part_def lifetime_part_def hopLimit_part_def split: option.splits)
  have name: "name_wireDecode (name_block (ip_name i)) = Inr (ip_name i)"
    using assms(1) small by (intro name_block_decode) (simp_all add: interest_ok_def)
  have hint: "list_all (\<lambda>b. length (bvalue b) < 2 ^ 64) (hint_part (ip_forwardingHint i))"
    using small by (auto simp: list_all_iff)
  define j where "j = (Interest_new (ip_name i))\<lparr>ip_canBePrefix := ip_canBePrefix i, ip_mustBeFresh := ip_mustBeFresh i\<rparr>"
  have "interest_loop (tl ?els) 1 (Interest_new (ip_name i)) =
      interest_loop (hint_part (ip_forwardingHint i) @ Block 10 n # ?tail)
        (if ip_mustBeFresh i then 3 else if ip_canBePrefix i then 2 else 1) j"
    by (simp add: j_def Interest_new_def)
  also have "\<dots> = interest_loop (Block 10 n # ?tail)
        (if ip_forwardingHint i = [] then (if ip_mustBeFresh i then 3 else if ip_canBePrefix i then 2 else 1) else 4)
        (j\<lparr>ip_forwardingHint := ip_forwardingHint i\<rparr>)"
    using assms(1) hint by (subst loop_hint) (auto simp: interest_ok_def j_def Interest_new_def)
  also have "\<dots> = interest_loop ?tail 5 (j\<lparr>ip_forwardingHint := ip_forwardingHint i, ip_nonce := Some n\<rparr>)"
    using n(2) by simp
  also have "\<dots> = Inr i"
    using assms(1) ps n by (subst loop_lifetime) (auto simp: interest_ok_def j_def Interest_new_def)
  finally show ?thesis
    using parse_Block [OF typed len, of 5] w name assms(1) by (simp add: Interest_wireDecode_def interest_ok_def)
qed

section \<open>The digest component\<close>

abbreviation (input) no_digest :: "name \<Rightarrow> bool" where
  "no_digest n \<equiv> list_all (\<lambda>c. \<not> isParametersSha256Digest c) n"

lemma find_digest_none: "no_digest n \<Longrightarrow> find_digest n i pos = pos"
  by (induction n arbitrary: i) simp_all

lemma find_digest_later: "0 \<le> pos \<Longrightarrow> find_digest n i pos = (if no_digest n then pos else - 2)"
  by (induction n arbitrary: i) auto

lemma find_digest_at: "no_digest xs \<Longrightarrow> isParametersSha256Digest c \<Longrightarrow> no_digest ys \<Longrightarrow> 0 \<le> i \<Longrightarrow>
    find_digest (xs @ c # ys) i (- 1) = i + int (length xs)"
  by (induction xs arbitrary: i) (auto simp: find_digest_none)

lemma find_digest_cases:
  assumes "0 \<le> i" and "find_digest n i (- 1) \<noteq> - 2"
  shows "no_digest n \<and> find_digest n i (- 1) = - 1 \<or>
    (\<exists>xs c ys. n = xs @ c # ys \<and> no_digest xs \<and> isParametersSha256Digest c \<and> no_digest ys \<and>
       find_digest n i (- 1) = i + int (length xs))"
  using assms
proof (induction n arbitrary: i)
  case (Cons a n)
  show ?case
  proof (cases "isParametersSha256Digest a")
    case True
    then have "no_digest n" using Cons.prems by (auto simp: find_digest_later split: if_splits)
    then have "a # n = [] @ a # n \<and> no_digest [] \<and> isParametersSha256Digest a \<and> no_digest n \<and>
        find_digest (a # n) i (- 1) = i + int (length [])"
      using True by (simp add: find_digest_none)
    then show ?thesis by blast
  next
    case False
    then have e: "find_digest (a # n) i (- 1) = find_digest n (i + 1) (- 1)" by simp
    from Cons.IH [of "i + 1"] Cons.prems e
    consider "no_digest n" "find_digest n (i + 1) (- 1) = - 1" |
      xs c ys where "n = xs @ c # ys" "no_digest xs" "isParametersSha256Digest c" "no_digest ys"
        "find_digest n (i + 1) (- 1) = i + 1 + int (length xs)" by auto
    then show ?thesis
    proof cases
      case 2
      then have "a # n = (a # xs) @ c # ys \<and> no_digest (a # xs) \<and> isParametersSha256Digest c \<and> no_digest ys \<and>
          find_digest (a # n) i (- 1) = i + int (length (a # xs))"
        using False e by simp
      then show ?thesis by blast
    qed (use False e in simp)
  qed
qed simp

text \<open>Putting the digest into the name makes the digest valid, and keeps a single one.\<close>

lemma addOrReplace_valid:
  assumes "findParametersDigestComponent (ip_name i) \<noteq> - 2" and "hasApplicationParameters i"
    and "\<And>bs. length (H bs) = DIGEST_SIZE"
  shows "isParametersDigestValid H (addOrReplaceParametersDigestComponent H i) \<and>
    findParametersDigestComponent (ip_name (addOrReplaceParametersDigestComponent H i)) \<noteq> - 2"
proof -
  define d where "d = Component 2 (computeParametersDigest H i)"
  have d: "isParametersSha256Digest d"
    using assms(3) by (simp add: d_def isParametersSha256Digest_def computeParametersDigest_def)
  from find_digest_cases [of 0 "ip_name i"] assms(1)
  consider "no_digest (ip_name i)" "findParametersDigestComponent (ip_name i) = - 1" |
    xs c ys where "ip_name i = xs @ c # ys" "no_digest xs" "isParametersSha256Digest c" "no_digest ys"
      "findParametersDigestComponent (ip_name i) = int (length xs)"
    by (auto simp: findParametersDigestComponent_def)
  then obtain xs ys where n': "ip_name (addOrReplaceParametersDigestComponent H i) = xs @ d # ys"
    and nd: "no_digest xs" "no_digest ys"
  proof cases
    case 1
    then show ?thesis
      using that [of "ip_name i" "[]"] by (simp add: addOrReplaceParametersDigestComponent_def Let_def d_def)
  next
    case (2 xs c ys)
    then show ?thesis
      using that [of xs ys] by (simp add: addOrReplaceParametersDigestComponent_def Let_def d_def)
  qed
  have p: "ip_parameters (addOrReplaceParametersDigestComponent H i) = ip_parameters i"
    by (simp add: addOrReplaceParametersDigestComponent_def Let_def)
  have f: "findParametersDigestComponent (xs @ d # ys) = int (length xs)"
    using find_digest_at [OF nd(1) d nd(2), of 0] by (simp add: findParametersDigestComponent_def)
  then show ?thesis
    using assms(2) p by (simp add: isParametersDigestValid_def n' Let_def hasApplicationParameters_def
        computeParametersDigest_def name_get_def) (simp add: d_def computeParametersDigest_def)
qed

section \<open>What decoding guarantees\<close>

lemma readType_typed: "readType_throw bs = Inr (t, r) \<Longrightarrow> 0 < unat t \<and> unat t < 2 ^ 32"
  by (auto simp: readType_throw_def word_le_nat_alt word_less_nat_alt unat_gt_0 not_less split: sum.splits if_splits)

lemma parse_elements_typed: "parse_elements bs = Inr els \<Longrightarrow> list_all typed els"
proof (induction bs arbitrary: els rule: parse_elements.induct)
  case (1 bs)
  show ?case
  proof (cases "bs = []")
    case False
    then obtain ty r1 len pos els' where
      t: "readType_throw bs = Inr (ty, r1)" and l: "readVarNumber_throw r1 = Inr (len, pos)" and
      le: "unat len \<le> length pos" and rec: "parse_elements (drop (unat len) pos) = Inr els'" and
      els: "els = Block (unat ty) (take (unat len) pos) # els'"
      using 1(2) by (subst (asm) parse_elements.simps) (auto split: sum.splits if_splits simp: not_less)
    have "list_all typed els'" using 1(1) [OF False t] l le rec by auto
    moreover have "typed (Block (unat ty) (take (unat len) pos))" using readType_typed [OF t] by (simp add: typed_def)
    ultimately show ?thesis by (simp add: els)
  qed (use 1 in simp)
qed

definition loop_inv :: "nat \<Rightarrow> interest_packet \<Rightarrow> bool" where
  "loop_inv l i \<longleftrightarrow> params_ok (ip_parameters i) \<and> (l \<ge> 8 \<longleftrightarrow> ip_parameters i \<noteq> []) \<and>
     (case ip_nonce i of None \<Rightarrow> True | Some n \<Rightarrow> length n = 4)"

lemma params_ok_snoc:
  "params_ok ps \<Longrightarrow> ps \<noteq> [] \<Longrightarrow> \<not> isCriticalType (btype b) \<Longrightarrow> btype b \<noteq> 34 \<Longrightarrow> btype b \<noteq> 36 \<Longrightarrow> typed b \<Longrightarrow>
    params_ok (ps @ [b])"
  by (cases ps) (auto simp: params_ok_def typed_def)

lemma interest_loop_step:
  assumes j: "interest_loop (element # els) l i = Inr j" and inv: "loop_inv l i" and t: "typed element"
  shows "\<exists>l2 i2. interest_loop els l2 i2 = Inr j \<and> loop_inv l2 i2 \<and> ip_name i2 = ip_name i"
proof -
  note [simp del] = interest_loop.simps
  note step = j [unfolded interest_loop.simps(2)]
  consider "btype element = 33" | "btype element = 18" | "btype element = 30" | "btype element = 10" |
    "btype element = 12" | "btype element = 34" | "btype element = 36" |
    (other) "btype element \<noteq> 33" "btype element \<noteq> 18" "btype element \<noteq> 30" "btype element \<noteq> 10"
      "btype element \<noteq> 12" "btype element \<noteq> 34" "btype element \<noteq> 36" by blast
  then show ?thesis
  proof cases
    case 1
    then have "interest_loop els 2 (i\<lparr>ip_canBePrefix := True\<rparr>) = Inr j" "l < 2" using step by (simp_all split: if_splits)
    moreover have "loop_inv 2 (i\<lparr>ip_canBePrefix := True\<rparr>)" using inv \<open>l < 2\<close> by (simp add: loop_inv_def)
    ultimately show ?thesis by fastforce
  next
    case 2
    then have "interest_loop els 3 (i\<lparr>ip_mustBeFresh := True\<rparr>) = Inr j" "l < 3" using step by (simp_all split: if_splits)
    moreover have "loop_inv 3 (i\<lparr>ip_mustBeFresh := True\<rparr>)" using inv \<open>l < 3\<close> by (simp add: loop_inv_def)
    ultimately show ?thesis by fastforce
  next
    case 3
    then obtain hint where "interest_loop els 4 (i\<lparr>ip_forwardingHint := hint\<rparr>) = Inr j" "l < 4"
      using step by (auto simp: bind_sum_Inr split: if_splits)
    moreover have "loop_inv 4 (i\<lparr>ip_forwardingHint := hint\<rparr>)" using inv \<open>l < 4\<close> by (simp add: loop_inv_def)
    ultimately show ?thesis by fastforce
  next
    case 4
    then have "interest_loop els 5 (i\<lparr>ip_nonce := Some (bvalue element)\<rparr>) = Inr j" "l < 5" "length (bvalue element) = 4"
      using step by (simp_all split: if_splits)
    moreover have "loop_inv 5 (i\<lparr>ip_nonce := Some (bvalue element)\<rparr>)"
      using inv calculation by (simp add: loop_inv_def)
    ultimately show ?thesis by fastforce
  next
    case 5
    then obtain v where "interest_loop els 6 (i\<lparr>ip_lifetime := duration_of v\<rparr>) = Inr j" "l < 6"
      using step by (auto simp: bind_sum_Inr split: if_splits)
    moreover have "loop_inv 6 (i\<lparr>ip_lifetime := duration_of v\<rparr>)" using inv \<open>l < 6\<close> by (simp add: loop_inv_def)
    ultimately show ?thesis by fastforce
  next
    case 6
    show ?thesis
    proof (cases "l \<ge> 7")
      case False
      then have "interest_loop els 7 (i\<lparr>ip_hopLimit := Some (hd (bvalue element))\<rparr>) = Inr j"
        using step 6 by (simp split: if_splits)
      moreover have "loop_inv 7 (i\<lparr>ip_hopLimit := Some (hd (bvalue element))\<rparr>)"
        using inv False by (simp add: loop_inv_def)
      ultimately show ?thesis by fastforce
    qed (use step 6 inv in auto)
  next
    case 7
    show ?thesis
    proof (cases "l \<ge> 8")
      case False
      then have "interest_loop els 8 (i\<lparr>ip_parameters := ip_parameters i @ [element]\<rparr>) = Inr j"
        using step 7 by (simp split: if_splits)
      moreover have "loop_inv 8 (i\<lparr>ip_parameters := ip_parameters i @ [element]\<rparr>)"
        using inv False 7 by (simp add: loop_inv_def params_ok_def)
      ultimately show ?thesis by fastforce
    qed (use step 7 inv in auto)
  next
    case other
    then have nc: "\<not> isCriticalType (btype element)" using step by (simp split: if_splits)
    show ?thesis
    proof (cases "hasApplicationParameters i")
      case True
      then have "interest_loop els l (i\<lparr>ip_parameters := ip_parameters i @ [element]\<rparr>) = Inr j"
        using step other nc by simp
      moreover have "loop_inv l (i\<lparr>ip_parameters := ip_parameters i @ [element]\<rparr>)"
        using inv True nc other t params_ok_snoc [of "ip_parameters i" element]
        by (simp add: loop_inv_def hasApplicationParameters_def)
      ultimately show ?thesis by fastforce
    qed (use step other nc inv in auto)
  qed
qed

lemma interest_loop_inv:
  "interest_loop els l i = Inr j \<Longrightarrow> loop_inv l i \<Longrightarrow> list_all typed els \<Longrightarrow>
    \<exists>l'. loop_inv l' j \<and> ip_name j = ip_name i"
proof (induction els arbitrary: l i)
  case (Cons element els)
  from interest_loop_step [OF Cons.prems(1,2)] Cons.prems(3)
  obtain l2 i2 where "interest_loop els l2 i2 = Inr j" "loop_inv l2 i2" "ip_name i2 = ip_name i" by auto
  with Cons.IH [of l2 i2] Cons.prems(3) show ?case by auto
qed auto

lemma decode_well_formed:
  assumes "Interest_wireDecode H w = Inr i"
  shows "ip_name i \<noteq> []" "findParametersDigestComponent (ip_name i) \<noteq> - 2" "isParametersDigestValid H i"
    "params_ok (ip_parameters i)" "case ip_nonce i of None \<Rightarrow> True | Some n \<Rightarrow> length n = 4"
proof -
  obtain element rest n where p: "parse w = Inr (element # rest)" and n: "n \<noteq> []" "findParametersDigestComponent n \<noteq> - 2"
    and l: "interest_loop rest 1 (Interest_new n) = Inr i" and v: "isParametersDigestValid H i"
  proof -
    obtain els where e: "parse w = Inr els" using assms by (auto simp: Interest_wireDecode_def bind_sum_Inr split: if_splits)
    then obtain element rest where r: "els = element # rest" "btype element = 7"
      using assms by (cases els) (auto simp: Interest_wireDecode_def split: if_splits)
    then obtain n where n: "name_wireDecode element = Inr n"
      using assms e by (auto simp: Interest_wireDecode_def bind_sum_Inr split: if_splits)
    show thesis
    proof (rule that [of element rest n])
      show "parse w = Inr (element # rest)" using e r by simp
    qed (use assms e r n in \<open>auto simp: Interest_wireDecode_def bind_sum_Inr split: if_splits\<close>)
  qed
  have "list_all typed rest" using parse_elements_typed [of "bvalue w"] p by (simp add: parse_def)
  from interest_loop_inv [OF l _ this]
  obtain l' where "loop_inv l' i" "ip_name i = n" by (auto simp: loop_inv_def Interest_new_def params_ok_def)
  then show "ip_name i \<noteq> []" "findParametersDigestComponent (ip_name i) \<noteq> - 2" "isParametersDigestValid H i"
    "params_ok (ip_parameters i)" "case ip_nonce i of None \<Rightarrow> True | Some n \<Rightarrow> length n = 4"
    using n v by (auto simp: loop_inv_def)
qed

section \<open>Properties\<close>

text \<open>C15: decoding the encoding of an Interest gives the Interest back: its name, flags, forwarding
  hint, nonce, lifetime, hop limit and parameters, for any hash function.\<close>

theorem interest_wire_roundtrip:
  assumes "interest_ok H i" and "Interest_wireEncode rnd i = Inr w" and "length (bvalue w) < 2 ^ 64"
  shows "Interest_wireDecode H w = Inr i"
  using interest_roundtrip [OF assms] .

definition zero_hash :: "byte list \<Rightarrow> byte list" where
  "zero_hash bs = replicate DIGEST_SIZE 0"

definition request_a :: interest_packet where
  "request_a = (Interest_new [Component 8 [65], Component 2 (replicate 32 0)])
     \<lparr>ip_mustBeFresh := True, ip_forwardingHint := [[Component 8 [66]]], ip_nonce := Some [1, 2, 3, 4],
      ip_lifetime := 100, ip_hopLimit := Some 7, ip_parameters := [Block 36 [5], Block 44 [], Block 46 []]\<rparr>"

lemma request_a_ok: "interest_ok zero_hash request_a"
  by (simp add: interest_ok_def request_a_def Interest_new_def valid_name_def valid_component_alt is_sha256_type_def
      DIGEST_SIZE_def findParametersDigestComponent_def isParametersSha256Digest_def isParametersDigestValid_def
      hasApplicationParameters_def computeParametersDigest_def zero_hash_def name_get_def params_ok_def isCriticalType_def)

lemma request_a_encodes: "\<exists>w. Interest_wireEncode [] request_a = Inr w \<and> length (bvalue w) < 2 ^ 64"
proof -
  have "(case Interest_wireEncode [] request_a of Inl _ \<Rightarrow> False | Inr w \<Rightarrow> length (bvalue w) < 1000)"
    by code_simp
  then show ?thesis by (auto split: sum.splits)
qed

theorem interest_wire_roundtrip_witness:
  "\<exists>w. Interest_wireEncode [] request_a = Inr w \<and> Interest_wireDecode zero_hash w = Inr request_a"
  using request_a_encodes interest_wire_roundtrip [OF request_a_ok] by blast



text \<open>C39: asking whether an Interest is signed terminates the program when its signature
  information does not decode: the query is declared not to throw but decodes the element.
  Such an Interest passes \<^verbatim>\<open>wireDecode\<close>, whatever the hash function.\<close>

theorem is_signed_may_terminate:
  assumes "\<And>bs. length (H bs) = DIGEST_SIZE"
  shows "\<exists>w i. Interest_wireDecode H w = Inr i \<and> isSigned i = Inl Terminated"
proof -
  define ps where "ps = [Block 36 [], Block 44 [], Block 46 []]"
  define d where "d = Component 2 (H (elements_encode ps))"
  define i where "i = (Interest_new [Component 8 [65], d])\<lparr>ip_nonce := Some [1, 2, 3, 4], ip_parameters := ps\<rparr>"
  have d: "isParametersSha256Digest d" "\<not> isParametersSha256Digest (Component 8 [65])" "valid_component d"
    using assms by (simp_all add: d_def isParametersSha256Digest_def valid_component_alt)
  have f: "findParametersDigestComponent (ip_name i) = 1"
    using d by (simp add: i_def Interest_new_def findParametersDigestComponent_def)
  have ok: "interest_ok H i"
    using d f by (simp add: interest_ok_def isParametersDigestValid_def Let_def hasApplicationParameters_def)
      (simp add: i_def Interest_new_def valid_name_def d computeParametersDigest_def name_get_def params_ok_def ps_def
        isCriticalType_def DEFAULT_INTEREST_LIFETIME_def valid_component_alt is_sha256_type_def d_def)
  define els where "els = [name_block (ip_name i), Block 10 [1, 2, 3, 4]] @ ps"
  have w: "Interest_wireEncode [] i = Inr (Block 5 (elements_encode els))"
    using f by (simp add: Interest_wireEncode_def Let_def hasApplicationParameters_def els_def ip_getNonce_def)
      (simp add: i_def Interest_new_def hint_part_def lifetime_part_def hopLimit_part_def ps_def)
  have "length (elements_encode els) < 2 ^ 64"
    using assms by (simp add: els_def ps_def i_def Interest_new_def d_def name_block_def block_encode_eq
        component_encode_block sizeOf_write sizeOfVarNumber_def DIGEST_SIZE_def)
  then have "Interest_wireDecode H (Block 5 (elements_encode els)) = Inr i"
    using interest_roundtrip [OF ok w] by simp
  moreover have "isSigned i = Inl Terminated"
    by (simp add: isSigned_def i_def ps_def getSignatureInfo_def findFirstParameter_def SignatureInfo_wireDecode_def
        parse_def SignatureInfo_new_def)
  ultimately show ?thesis by blast
qed

theorem is_signed_may_terminate_witness:
  "\<exists>w i. Interest_wireDecode zero_hash w = Inr i \<and> isSigned i = Inl Terminated"
  by (rule is_signed_may_terminate) (simp add: zero_hash_def)

end
