(* ===== verification/Fib_Table.thy ===== *)
theory Fib_Table
  imports Name_Tree_Hashtable
begin

text \<open>
  The forwarding information base (\<^verbatim>\<open>fib.cpp\<close>) on the name tree.  The record
  \<^verbatim>\<open>tables\<close> is the state all tables share: the tree, the PIT entries by identity, and the
  item counters, which are \<^verbatim>\<open>size_t\<close> and wrap.  FIB entries are referred to by prefix.
\<close>

section \<open>Shared state\<close>

record tables =
  tb_nt :: name_tree
  tb_pits :: "(nat \<times> pit_entry) list"
  tb_nextPit :: nat
  tb_fibItems :: "64 word"
  tb_pitItems :: "64 word"
  tb_measItems :: "64 word"
  tb_scItems :: "64 word"

section \<open>Operations\<close>

definition nteHasFibEntry :: "nte \<Rightarrow> bool" where
  "nteHasFibEntry e \<longleftrightarrow> nte_fib e \<noteq> None"

text \<open>\<^verbatim>\<open>Fib::s_emptyEntry\<close>: the root prefix without nexthops.\<close>

definition emptyEntry :: fib_entry where
  "emptyEntry = FibEntry_new []"

definition entry_of_match :: "name option \<Rightarrow> 'a tables_scheme \<Rightarrow> fib_entry" where
  "entry_of_match m tb =
     (case m of None \<Rightarrow> emptyEntry
      | Some k \<Rightarrow> (case fib_at (tb_nt tb) k of None \<Rightarrow> emptyEntry | Some e \<Rightarrow> e))"

definition Fib_findLongestPrefixMatch :: "name \<Rightarrow> 'a tables_scheme \<Rightarrow> fib_entry" where
  "Fib_findLongestPrefixMatch n tb =
     entry_of_match (findLongestPrefixMatch n nteHasFibEntry (tb_nt tb)) tb"

definition Fib_findLongestPrefixMatch_pit :: "pit_entry \<Rightarrow> 'a tables_scheme \<Rightarrow> fib_entry" where
  "Fib_findLongestPrefixMatch_pit e tb =
     (case pe_nte e of
        None \<Rightarrow> emptyEntry
      | Some k \<Rightarrow> entry_of_match (findLongestPrefixMatch_pit k (pe_name e) nteHasFibEntry (tb_nt tb)) tb)"

definition Fib_findExactMatch :: "name \<Rightarrow> 'a tables_scheme \<Rightarrow> fib_entry option" where
  "Fib_findExactMatch p tb =
     (case findExactMatch p (length p) (tb_nt tb) of
        None \<Rightarrow> None | Some k \<Rightarrow> fib_at (tb_nt tb) k)"

definition Fib_insert :: "name \<Rightarrow> 'a tables_scheme \<Rightarrow> 'a tables_scheme \<times> bool" where
  "Fib_insert p tb =
     (let t = nt_lookup p (length p) (tb_nt tb) in
      case fib_at t p of
        Some _ \<Rightarrow> (tb\<lparr>tb_nt := t\<rparr>, False)
      | None \<Rightarrow> (tb\<lparr>tb_nt := setFibEntry p (Some (FibEntry_new p)) t,
                   tb_fibItems := tb_fibItems tb + 1\<rparr>, True))"

definition Fib_erase_nte :: "name \<Rightarrow> bool \<Rightarrow> 'a tables_scheme \<Rightarrow> 'a tables_scheme" where
  "Fib_erase_nte k canDeleteNte tb =
     (let t = setFibEntry k None (tb_nt tb);
          t' = (if canDeleteNte then fst (eraseIfEmpty k True t) else t)
      in tb\<lparr>tb_nt := t', tb_fibItems := tb_fibItems tb - 1\<rparr>)"

definition Fib_erase :: "name \<Rightarrow> 'a tables_scheme \<Rightarrow> 'a tables_scheme" where
  "Fib_erase p tb =
     (case findExactMatch p (length p) (tb_nt tb) of
        None \<Rightarrow> tb | Some k \<Rightarrow> Fib_erase_nte k True tb)"

text \<open>The second component is the argument of the \<^verbatim>\<open>afterNewNextHop\<close> signal, if it is sent.\<close>

definition Fib_addOrUpdateNextHop ::
  "name \<Rightarrow> face \<Rightarrow> nat \<Rightarrow> 'a tables_scheme \<Rightarrow> 'a tables_scheme \<times> (name \<times> next_hop) option" where
  "Fib_addOrUpdateNextHop p face cost tb =
     (case fib_at (tb_nt tb) p of
        None \<Rightarrow> (tb, None)
      | Some e \<Rightarrow>
         (case Entry_addOrUpdateNextHop face cost e of
            (e', it, isNew) \<Rightarrow>
              (tb\<lparr>tb_nt := setFibEntry p (Some e') (tb_nt tb)\<rparr>,
               if isNew then Some (fe_prefix e', fe_nextHops e' ! it) else None)))"

datatype remove_result = NO_SUCH_NEXTHOP | NEXTHOP_REMOVED | FIB_ENTRY_REMOVED

definition Fib_removeNextHop :: "name \<Rightarrow> face \<Rightarrow> 'a tables_scheme \<Rightarrow> 'a tables_scheme \<times> remove_result" where
  "Fib_removeNextHop p face tb =
     (case fib_at (tb_nt tb) p of
        None \<Rightarrow> (tb, NO_SUCH_NEXTHOP)
      | Some e \<Rightarrow>
         (case Entry_removeNextHop face e of
            (e', isRemoved) \<Rightarrow>
              (let tb' = tb\<lparr>tb_nt := setFibEntry p (Some e') (tb_nt tb)\<rparr> in
               if \<not> isRemoved then (tb', NO_SUCH_NEXTHOP)
               else if fe_nextHops e' = [] then (Fib_erase_nte p False tb', FIB_ENTRY_REMOVED)
               else (tb', NEXTHOP_REMOVED))))"

section \<open>Invariant\<close>

definition fib_ok :: "'a tables_scheme \<Rightarrow> bool" where
  "fib_ok tb \<longleftrightarrow> nt_ok (tb_nt tb) \<and>
     (\<forall>k e. fib_at (tb_nt tb) k = Some e \<longrightarrow> fe_prefix e = k \<and> fib_entry_ok e)"

lemma fib_at_present: "fib_at t k = Some e \<Longrightarrow> tab_get t k \<noteq> None"
  by (auto simp: view_defs split: option.splits)

lemma FibEntry_new_ok [simp]: "fib_entry_ok (FibEntry_new p)" "fe_prefix (FibEntry_new p) = p"
  "fe_nextHops (FibEntry_new p) = []"
  by (simp_all add: fib_entry_ok_def FibEntry_new_def)

lemma nt_lookup_self [simp]:
  "nt_ok t \<Longrightarrow> length p \<le> getMaxDepth \<Longrightarrow> tab_get (nt_lookup p (length p) t) p \<noteq> None"
  using present_after_lookup [of t "length p" p "length p"] by simp

lemma Fib_insert_ok:
  assumes "fib_ok tb" and "length p \<le> getMaxDepth"
  shows "fib_ok (fst (Fib_insert p tb))"
    and "fib_at (tb_nt (fst (Fib_insert p tb))) =
      (fib_at (tb_nt tb))(p := Some (case fib_at (tb_nt tb) p of None \<Rightarrow> FibEntry_new p | Some e \<Rightarrow> e))"
  using assms nt_lookup_self [of "tb_nt tb" p]
  by (auto simp: Fib_insert_def fib_ok_def Let_def fun_eq_iff split: option.splits)

lemma Fib_erase_nte_ok:
  assumes "fib_ok tb"
  shows "fib_ok (Fib_erase_nte k c tb)"
    and "fib_at (tb_nt (Fib_erase_nte k c tb)) = (fib_at (tb_nt tb))(k := None)"
proof -
  have n: "tab_get (tb_nt tb) k = None \<Longrightarrow> fib_at (tb_nt tb) k = None" by (simp add: view_defs)
  show *: "fib_at (tb_nt (Fib_erase_nte k c tb)) = (fib_at (tb_nt tb))(k := None)"
    using assms n by (auto simp: Fib_erase_nte_def fib_ok_def Let_def fun_eq_iff)
  show "fib_ok (Fib_erase_nte k c tb)"
    using assms * by (auto simp: fib_ok_def) (auto simp: Fib_erase_nte_def Let_def)
qed

lemma Entry_addOrUpdate_prefix [simp]:
  "fe_prefix (fst (Entry_addOrUpdateNextHop face cost e)) = fe_prefix e"
  "fe_prefix (fst (Entry_removeNextHop face e)) = fe_prefix e"
  by (simp_all add: addOrUpdate_eq removeNextHop_eq)

lemma Fib_addOrUpdateNextHop_ok:
  assumes "fib_ok tb"
  shows "fib_ok (fst (Fib_addOrUpdateNextHop p face cost tb))"
    and "fib_at (tb_nt (fst (Fib_addOrUpdateNextHop p face cost tb))) j =
      (if j = p then map_option (\<lambda>e. fst (Entry_addOrUpdateNextHop face cost e)) (fib_at (tb_nt tb) p)
       else fib_at (tb_nt tb) j)"
proof -
  show *: "fib_at (tb_nt (fst (Fib_addOrUpdateNextHop p face cost tb))) j =
      (if j = p then map_option (\<lambda>e. fst (Entry_addOrUpdateNextHop face cost e)) (fib_at (tb_nt tb) p)
       else fib_at (tb_nt tb) j)" for j
    using fib_at_present [of "tb_nt tb" p]
    by (auto simp: Fib_addOrUpdateNextHop_def split: option.splits prod.splits)
  have "nt_ok (tb_nt (fst (Fib_addOrUpdateNextHop p face cost tb)))"
    using assms by (auto simp: Fib_addOrUpdateNextHop_def fib_ok_def split: option.splits prod.splits)
  then show "fib_ok (fst (Fib_addOrUpdateNextHop p face cost tb))"
    using assms by (auto simp: fib_ok_def * addOrUpdate_ok)
qed

lemma Fib_removeNextHop_ok:
  assumes ok: "fib_ok tb"
  shows "fib_ok (fst (Fib_removeNextHop p face tb))"
    and "fib_at (tb_nt (fst (Fib_removeNextHop p face tb))) j =
      (if j = p
       then (case fib_at (tb_nt tb) p of None \<Rightarrow> None
             | Some e \<Rightarrow>
                 let e' = fst (Entry_removeNextHop face e) in
                 if hasNextHop e face \<and> fe_nextHops e' = [] then None else Some e')
       else fib_at (tb_nt tb) j)"
proof -
  define tb' where "tb' e = tb\<lparr>tb_nt := setFibEntry p (Some e) (tb_nt tb)\<rparr>" for e
  have view: "fib_at (tb_nt (tb' e)) j = (if j = p \<and> fib_at (tb_nt tb) p \<noteq> None then Some e
      else if j = p \<and> tab_get (tb_nt tb) p \<noteq> None then Some e else fib_at (tb_nt tb) j)" for e j
    using fib_at_present [of "tb_nt tb" p] by (auto simp: tb'_def)
  have tb'_ok: "fib_ok (tb' (fst (Entry_removeNextHop face e)))" if "fib_at (tb_nt tb) p = Some e" for e
    using ok that fib_at_present [OF that]
    by (auto simp: fib_ok_def view removeNextHop_ok) (auto simp: tb'_def)
  have eq: "fst (Fib_removeNextHop p face tb) =
      (case fib_at (tb_nt tb) p of None \<Rightarrow> tb
       | Some e \<Rightarrow> let e' = fst (Entry_removeNextHop face e) in
           if hasNextHop e face \<and> fe_nextHops e' = [] then Fib_erase_nte p False (tb' e') else tb' e')"
    by (auto simp: Fib_removeNextHop_def tb'_def removeNextHop_eq Let_def split: option.splits)
  show "fib_ok (fst (Fib_removeNextHop p face tb))"
    using ok tb'_ok Fib_erase_nte_ok(1) by (auto simp: eq Let_def split: option.splits)
  show "fib_at (tb_nt (fst (Fib_removeNextHop p face tb))) j =
      (if j = p
       then (case fib_at (tb_nt tb) p of None \<Rightarrow> None
             | Some e \<Rightarrow>
                 let e' = fst (Entry_removeNextHop face e) in
                 if hasNextHop e face \<and> fe_nextHops e' = [] then None else Some e')
       else fib_at (tb_nt tb) j)"
    using Fib_erase_nte_ok(2) [OF tb'_ok] fib_at_present [of "tb_nt tb" p]
    by (auto simp: eq Let_def view split: option.splits)
qed

section \<open>Lookup\<close>

lemma nteHasFibEntry_accepted [simp]: "accepted t nteHasFibEntry k \<longleftrightarrow> fib_at t k \<noteq> None"
  by (auto simp: accepted_def nteHasFibEntry_def view_defs split: option.splits)

lemma fib_at_depth: "fib_ok tb \<Longrightarrow> fib_at (tb_nt tb) p = Some e \<Longrightarrow> length p \<le> getMaxDepth"
  using fib_at_present nt_okD(1) by (fastforce simp: fib_ok_def)

lemma fib_lookup_spec:
  assumes "fib_ok tb"
  shows "Fib_findLongestPrefixMatch n tb = e \<Longrightarrow>
    (fib_at (tb_nt tb) (fe_prefix e) = Some e \<and> prefix (fe_prefix e) n \<and>
     (\<forall>p. prefix p n \<and> fib_at (tb_nt tb) p \<noteq> None \<longrightarrow> length p \<le> length (fe_prefix e))) \<or>
    (e = emptyEntry \<and> (\<forall>p. prefix p n \<longrightarrow> fib_at (tb_nt tb) p = None))"
proof -
  assume e: "Fib_findLongestPrefixMatch n tb = e"
  show ?thesis
  proof (cases "findLongestPrefixMatch n nteHasFibEntry (tb_nt tb)")
    case None
    have "fib_at (tb_nt tb) p = None" if "prefix p n" for p
    proof (rule ccontr)
      assume "fib_at (tb_nt tb) p \<noteq> None"
      moreover from this obtain x where "fib_at (tb_nt tb) p = Some x" by auto
      then have "length p \<le> getMaxDepth" by (rule fib_at_depth [OF assms])
      moreover have "p = take (length p) n" "length p \<le> length n" using that by (auto simp: prefix_def)
      ultimately show False
        using None by (auto simp: findLongestPrefixMatch_def lpm_loop_None)
    qed
    then show ?thesis using e None
      by (auto simp: Fib_findLongestPrefixMatch_def entry_of_match_def)
  next
    case (Some k)
    note S = Some [unfolded findLongestPrefixMatch_spec nteHasFibEntry_accepted]
    then obtain x where x: "fib_at (tb_nt tb) k = Some x" by auto
    then have "e = x" "fe_prefix e = k"
      using e Some assms by (auto simp: Fib_findLongestPrefixMatch_def entry_of_match_def fib_ok_def)
    moreover have "length p \<le> getMaxDepth" if "fib_at (tb_nt tb) p \<noteq> None" for p
      using that fib_at_depth [OF assms] by auto
    ultimately show ?thesis using S x by blast
  qed
qed

text \<open>A PIT entry hangs on the node of a prefix of its name; the lookup by entry agrees
  with the lookup by name.\<close>

lemma Fib_lookup_pit_eq:
  assumes "nt_ok (tb_nt tb)" and "pe_nte e = Some (take m (pe_name e))" and "m \<le> length (pe_name e)"
    and "tab_get (tb_nt tb) (take m (pe_name e)) \<noteq> None"
  shows "Fib_findLongestPrefixMatch_pit e tb = Fib_findLongestPrefixMatch (pe_name e) tb"
  using findLongestPrefixMatch_pit_eq [OF assms(1) refl assms(3,4)] assms(2)
  by (simp add: Fib_findLongestPrefixMatch_pit_def Fib_findLongestPrefixMatch_def)

section \<open>Counting\<close>

definition fib_names :: "'a tables_scheme \<Rightarrow> name set" where
  "fib_names tb = {k. fib_at (tb_nt tb) k \<noteq> None}"

lemma finite_fib_names [simp]: "finite (fib_names tb)"
proof (rule finite_subset)
  show "fib_names tb \<subseteq> fst ` set (tb_nt tb)"
    using fib_at_present by (force simp: fib_names_def tab_get_None_keys)
qed simp

lemma count_insert:
  assumes "fib_ok tb" and "length p \<le> getMaxDepth" and "tb_fibItems tb = of_nat (card (fib_names tb))"
  shows "tb_fibItems (fst (Fib_insert p tb)) = of_nat (card (fib_names (fst (Fib_insert p tb))))"
proof -
  have names: "fib_names (fst (Fib_insert p tb)) = insert p (fib_names tb)"
    using Fib_insert_ok(2) [OF assms(1,2)] by (auto simp: fib_names_def split: option.splits)
  have "tb_fibItems (fst (Fib_insert p tb)) =
      (if p \<in> fib_names tb then tb_fibItems tb else tb_fibItems tb + 1)"
    by (auto simp: Fib_insert_def fib_names_def Let_def split: option.splits)
  then show ?thesis using assms(3) names by (simp add: card_insert_if insert_absorb)
qed

lemma count_remove:
  assumes "fib_ok tb" and "tb_fibItems tb = of_nat (card (fib_names tb))"
  shows "tb_fibItems (fst (Fib_removeNextHop p face tb)) =
    of_nat (card (fib_names (fst (Fib_removeNextHop p face tb))))"
proof -
  define gone where "gone \<longleftrightarrow> (\<exists>e. fib_at (tb_nt tb) p = Some e \<and> hasNextHop e face \<and>
      fe_nextHops (fst (Entry_removeNextHop face e)) = [])"
  have names: "fib_names (fst (Fib_removeNextHop p face tb)) =
      (if gone then fib_names tb - {p} else fib_names tb)"
    using Fib_removeNextHop_ok(2) [OF assms(1)]
    by (auto simp: fib_names_def gone_def Let_def split: option.splits if_splits)
  have items: "tb_fibItems (fst (Fib_removeNextHop p face tb)) =
      (if gone then tb_fibItems tb - 1 else tb_fibItems tb)"
    by (auto simp: Fib_removeNextHop_def gone_def removeNextHop_eq Fib_erase_nte_def Let_def
        split: option.splits)
  show ?thesis
  proof (cases gone)
    case True
    then have p: "p \<in> fib_names tb" by (auto simp: gone_def fib_names_def)
    then have "card (fib_names tb) = Suc (card (fib_names tb - {p}))"
      by (metis card_Suc_Diff1 finite_fib_names)
    then show ?thesis using True names items assms(2) by simp
  qed (use names items assms(2) in simp)
qed

section \<open>Properties\<close>

text \<open>C22: a FIB lookup returns the entry of the longest prefix of the name that has
  one; if no prefix has an entry it returns the empty entry.\<close>

theorem fib_longest_prefix_match:
  assumes "fib_ok tb"
  shows "(let e = Fib_findLongestPrefixMatch n tb in
    (fib_at (tb_nt tb) (fe_prefix e) = Some e \<and> prefix (fe_prefix e) n \<and>
     (\<forall>p. prefix p n \<and> fib_at (tb_nt tb) p \<noteq> None \<longrightarrow> length p \<le> length (fe_prefix e))) \<or>
    (e = emptyEntry \<and> (\<forall>p. prefix p n \<longrightarrow> fib_at (tb_nt tb) p = None)))"
  using fib_lookup_spec [OF assms refl] by (simp add: Let_def)

definition no_tables :: tables where
  "no_tables = \<lparr>tb_nt = [], tb_pits = [], tb_nextPit = 0, tb_fibItems = 0, tb_pitItems = 0,
                tb_measItems = 0, tb_scItems = 0\<rparr>"

lemma no_tables_ok: "fib_ok no_tables" "tb_fibItems no_tables = of_nat (card (fib_names no_tables))"
  by (simp_all add: no_tables_def fib_ok_def nt_ok_def view_defs fib_names_def)

theorem fib_longest_prefix_match_witness:
  "\<exists>tb :: tables. fib_ok tb \<and> fib_at (tb_nt tb) [Component 8 [65]] \<noteq> None \<and>
     fe_prefix (Fib_findLongestPrefixMatch [Component 8 [65], Component 8 [66]] tb) = [Component 8 [65]]"
proof -
  define tb where "tb = fst (Fib_insert [Component 8 [65]] no_tables)"
  have d: "length [Component 8 [65]] \<le> getMaxDepth" by (simp add: getMaxDepth_def)
  note I = Fib_insert_ok [OF no_tables_ok(1) d, folded tb_def]
  have e: "fib_at (tb_nt tb) k = (if k = [Component 8 [65]] then Some (FibEntry_new k) else None)" for k
    unfolding I(2) by (simp add: no_tables_def view_defs)
  have "fe_prefix (Fib_findLongestPrefixMatch [Component 8 [65], Component 8 [66]] tb) = [Component 8 [65]]"
    using fib_longest_prefix_match [OF I(1), of "[Component 8 [65], Component 8 [66]]"]
    by (auto simp: Let_def e split: if_splits)
  then show ?thesis using I(1) e by (intro exI [of _ tb]) simp
qed

text \<open>Adding or updating a nexthop gives the face the new cost, keeps every other
  nexthop, and leaves the list free of duplicates and sorted by cost.\<close>

theorem fib_nexthop_updated:
  assumes "fib_ok tb" and "fib_at (tb_nt tb) p = Some e"
  shows "\<exists>e'. fib_at (tb_nt (fst (Fib_addOrUpdateNextHop p face cost tb))) p = Some e' \<and>
    fib_entry_ok e' \<and>
    set (fe_nextHops e') =
      insert \<lparr>nh_face = face, nh_cost = cost\<rparr> {h \<in> set (fe_nextHops e). nh_face h \<noteq> face}"
proof -
  have "fib_entry_ok e" using assms by (simp add: fib_ok_def)
  then show ?thesis
    using Fib_addOrUpdateNextHop_ok(2) [OF assms(1)] assms(2)
    by (simp add: addOrUpdate_ok addOrUpdate_set)
qed

definition face1 :: face where
  "face1 = \<lparr>f_id = 301, f_scope = SCOPE_NON_LOCAL, f_linkType = POINT_TO_POINT\<rparr>"

definition face2 :: face where
  "face2 = \<lparr>f_id = 302, f_scope = SCOPE_NON_LOCAL, f_linkType = POINT_TO_POINT\<rparr>"

theorem fib_nexthop_updated_witness:
  "\<exists>e'. fib_at (tb_nt (fst (Fib_addOrUpdateNextHop [] face1 7 (fst (Fib_insert [] no_tables))))) [] = Some e' \<and>
     set (fe_nextHops e') = {\<lparr>nh_face = face1, nh_cost = 7\<rparr>}"
proof -
  note I = Fib_insert_ok [OF no_tables_ok(1), of "[]", simplified]
  have "fib_at (tb_nt (fst (Fib_insert [] no_tables))) [] = Some (FibEntry_new [])"
    unfolding I(2) by (simp add: no_tables_def view_defs)
  from fib_nexthop_updated [OF I(1) this, of face1 7] show ?thesis by auto
qed

text \<open>The item counter of the FIB is the number of entries: inserting an entry and
  removing nexthops, which drops an entry with its last nexthop, keep it exact.\<close>

theorem fib_size_exact:
  assumes "fib_ok tb" and "length p \<le> getMaxDepth" and "tb_fibItems tb = of_nat (card (fib_names tb))"
  shows "tb_fibItems (fst (Fib_insert p tb)) = of_nat (card (fib_names (fst (Fib_insert p tb)))) \<and>
    tb_fibItems (fst (Fib_removeNextHop p face tb)) =
      of_nat (card (fib_names (fst (Fib_removeNextHop p face tb))))"
  using count_insert [OF assms] count_remove [OF assms(1,3)] by simp

theorem fib_size_exact_witness:
  "tb_fibItems (fst (Fib_insert [] no_tables)) = of_nat (card (fib_names (fst (Fib_insert [] no_tables))))"
  using fib_size_exact [of no_tables "[]" face1] no_tables_ok by simp

text \<open>C40: the signal for a new nexthop names the record at the position where the
  nexthop was before sorting.  With a more expensive nexthop already present, it names
  that one and not the new one.\<close>

theorem new_nexthop_signal_misnamed:
  assumes "fib_at (tb_nt tb) p = Some e" and "fe_nextHops e = [h]" and "nh_face h \<noteq> face"
    and "cost < nh_cost h"
  shows "snd (Fib_addOrUpdateNextHop p face cost tb) = Some (fe_prefix e, h)"
  using assms by (simp add: Fib_addOrUpdateNextHop_def addOrUpdate_eq findNextHop_def hasNextHop_def)

theorem new_nexthop_signal_misnamed_witness:
  "snd (Fib_addOrUpdateNextHop [] face2 5
      (no_tables\<lparr>tb_nt := [([], nte_new\<lparr>nte_fib := Some \<lparr>fe_prefix = [],
          fe_nextHops = [\<lparr>nh_face = face1, nh_cost = 10\<rparr>]\<rparr>\<rparr>)]\<rparr>)) =
   Some ([], \<lparr>nh_face = face1, nh_cost = 10\<rparr>)"
  using new_nexthop_signal_misnamed [of "no_tables\<lparr>tb_nt := [([], nte_new\<lparr>nte_fib := Some \<lparr>fe_prefix = [],
          fe_nextHops = [\<lparr>nh_face = face1, nh_cost = 10\<rparr>]\<rparr>\<rparr>)]\<rparr>" "[]"
        "\<lparr>fe_prefix = [], fe_nextHops = [\<lparr>nh_face = face1, nh_cost = 10\<rparr>]\<rparr>"
        "\<lparr>nh_face = face1, nh_cost = 10\<rparr>" face2 5]
  by (simp add: view_defs face1_def face2_def)

end
