(* ===== verification/Pit_Table.thy ===== *)
theory Pit_Table
  imports Fib_Table
begin

text \<open>
  The pending Interest table (\<^verbatim>\<open>pit.cpp\<close>) on the name tree.  A PIT entry has an identity,
  its number in \<^verbatim>\<open>tb_pits\<close>; the node it is attached to lists the numbers of its entries.
  The invariant \<^verbatim>\<open>pit_ok\<close> says that nodes and entries refer to each other, that an entry
  hangs on the node its name determines, and that no two entries stand for the same
  Interest.
\<close>

named_theorems pit_laws

section \<open>Operations\<close>

definition hasDigest :: "name \<Rightarrow> bool" where
  "hasDigest n \<longleftrightarrow> length n > 0 \<and> isImplicitSha256Digest (name_get n (- 1))"

definition nteDepth :: "name \<Rightarrow> nat" where
  "nteDepth n = min (length n - (if hasDigest n then 1 else 0)) getMaxDepth"

definition get_pit :: "'a tables_scheme \<Rightarrow> nat \<Rightarrow> pit_entry option" where
  "get_pit tb pid = tab_get (tb_pits tb) pid"

definition nteHasPitEntries :: "nte \<Rightarrow> bool" where
  "nteHasPitEntries e \<longleftrightarrow> nte_pit e \<noteq> []"

text \<open>The first attached entry that stands for the same Interest.\<close>

definition find_matching :: "interest \<Rightarrow> nat \<Rightarrow> nat list \<Rightarrow> 'a tables_scheme \<Rightarrow> nat option" where
  "find_matching i depth pids tb =
     find (\<lambda>pid. case get_pit tb pid of None \<Rightarrow> False | Some e \<Rightarrow> canMatch e i depth) pids"

definition Pit_findOrInsert ::
  "interest \<Rightarrow> bool \<Rightarrow> 'a tables_scheme \<Rightarrow> nat option \<times> bool \<times> 'a tables_scheme" where
  "Pit_findOrInsert i allowInsert tb =
     (let n = i_name i; depth = nteDepth n;
          nte = (if allowInsert then Some (take depth n)
                 else findExactMatch n depth (tb_nt tb));
          tb1 = (if allowInsert then tb\<lparr>tb_nt := nt_lookup n depth (tb_nt tb)\<rparr> else tb)
      in case nte of
           None \<Rightarrow> (None, True, tb1)
         | Some k \<Rightarrow>
            (case find_matching i depth (pit_at (tb_nt tb1) k) tb1 of
               Some pid \<Rightarrow> (Some pid, False, tb1)
             | None \<Rightarrow>
                if \<not> allowInsert then (None, True, tb1)
                else let pid = tb_nextPit tb1 in
                     (Some pid, True,
                      tb1\<lparr>tb_nt := insertPitEntry k pid (tb_nt tb1),
                          tb_pits := tab_put pid ((PitEntry_new i)\<lparr>pe_nte := Some k\<rparr>) (tb_pits tb1),
                          tb_nextPit := Suc pid,
                          tb_pitItems := tb_pitItems tb1 + 1\<rparr>)))"

abbreviation Pit_insert :: "interest \<Rightarrow> 'a tables_scheme \<Rightarrow> nat option \<times> bool \<times> 'a tables_scheme" where
  "Pit_insert i tb \<equiv> Pit_findOrInsert i True tb"

definition Pit_find :: "interest \<Rightarrow> 'a tables_scheme \<Rightarrow> nat option" where
  "Pit_find i tb = fst (Pit_findOrInsert i False tb)"

definition Pit_findAllDataMatches :: "data \<Rightarrow> 'a tables_scheme \<Rightarrow> nat list" where
  "Pit_findAllDataMatches d tb =
     concat (map (\<lambda>k. filter (\<lambda>pid. case get_pit tb pid of
                                        None \<Rightarrow> False | Some e \<Rightarrow> matchesData (pe_interest e) d)
                        (pit_at (tb_nt tb) k))
                 (findAllMatches (d_name d) nteHasPitEntries (tb_nt tb)))"

definition Pit_erase :: "nat \<Rightarrow> bool \<Rightarrow> 'a tables_scheme \<Rightarrow> 'a tables_scheme" where
  "Pit_erase pid canDeleteNte tb =
     (case get_pit tb pid of
        None \<Rightarrow> tb
      | Some e \<Rightarrow>
         (case pe_nte e of
            None \<Rightarrow> tb
          | Some k \<Rightarrow>
              (let t = erasePitEntry k pid (tb_nt tb);
                   t' = (if canDeleteNte then fst (eraseIfEmpty k True t) else t)
               in tb\<lparr>tb_nt := t', tb_pits := tab_del pid (tb_pits tb),
                     tb_pitItems := tb_pitItems tb - 1\<rparr>)))"

definition update_pit :: "nat \<Rightarrow> (pit_entry \<Rightarrow> pit_entry) \<Rightarrow> 'a tables_scheme \<Rightarrow> 'a tables_scheme" where
  "update_pit pid f tb = tb\<lparr>tb_pits := tab_modify pid f (tb_pits tb)\<rparr>"

definition Pit_deleteInOutRecords :: "nat \<Rightarrow> face \<Rightarrow> 'a tables_scheme \<Rightarrow> 'a tables_scheme" where
  "Pit_deleteInOutRecords pid face tb =
     update_pit pid (\<lambda>e. deleteOutRecord face (deleteInRecord face e)) tb"

section \<open>Invariant\<close>

definition pit_ok :: "'a tables_scheme \<Rightarrow> bool" where
  "pit_ok tb \<longleftrightarrow>
     nt_ok (tb_nt tb) \<and> distinct (map fst (tb_pits tb)) \<and>
     (\<forall>k. distinct (pit_at (tb_nt tb) k)) \<and>
     (\<forall>k pid. pid \<in> set (pit_at (tb_nt tb) k) \<longleftrightarrow> (\<exists>e. get_pit tb pid = Some e \<and> pe_nte e = Some k)) \<and>
     (\<forall>pid e. get_pit tb pid = Some e \<longrightarrow>
        pid < tb_nextPit tb \<and> pit_entry_ok e \<and> pe_nte e = Some (take (nteDepth (pe_name e)) (pe_name e))) \<and>
     (\<forall>p1 e1 p2 e2. get_pit tb p1 = Some e1 \<and> get_pit tb p2 = Some e2 \<and>
        matchesInterest (pe_interest e1) (pe_interest e2) \<longrightarrow> p1 = p2)"

lemma pit_okD:
  assumes "pit_ok tb"
  shows "nt_ok (tb_nt tb)" and "distinct (map fst (tb_pits tb))"
    and "distinct (pit_at (tb_nt tb) k)"
    and "pid \<in> set (pit_at (tb_nt tb) k) \<longleftrightarrow> (\<exists>e. get_pit tb pid = Some e \<and> pe_nte e = Some k)"
    and "get_pit tb pid = Some e \<Longrightarrow> pid < tb_nextPit tb"
    and "get_pit tb pid = Some e \<Longrightarrow> pit_entry_ok e"
    and "get_pit tb pid = Some e \<Longrightarrow> pe_nte e = Some (take (nteDepth (pe_name e)) (pe_name e))"
    and "get_pit tb p1 = Some e1 \<Longrightarrow> get_pit tb p2 = Some e2 \<Longrightarrow>
      matchesInterest (pe_interest e1) (pe_interest e2) \<Longrightarrow> p1 = p2"
  using assms unfolding pit_ok_def by blast+

lemma nteDepth_le: "nteDepth n \<le> length n" "nteDepth n \<le> getMaxDepth"
  by (simp_all add: nteDepth_def)

lemma pit_at_present: "pit_at t k \<noteq> [] \<Longrightarrow> tab_get t k \<noteq> None"
  by (auto simp: view_defs split: option.splits)

text \<open>Matching from the node's depth on is matching of the whole Interest.\<close>

lemma canMatch_iff:
  assumes "take d (pe_name e) = take d (i_name i)"
  shows "canMatch e i d \<longleftrightarrow> matchesInterest (pe_interest e) i"
proof -
  have "drop d (pe_name e) = drop d (i_name i) \<longleftrightarrow> pe_name e = i_name i"
    using assms by (metis append_take_drop_id)
  then show ?thesis
    using compare_loop_sign [of "drop d (pe_name e)" "drop d (i_name i)"]
    by (auto simp: canMatch_def name_compare_def matchesInterest_def)
qed

lemma find_matching_Some:
  assumes ok: "pit_ok tb" and f: "find_matching i (nteDepth (i_name i))
      (pit_at (tb_nt tb) (take (nteDepth (i_name i)) (i_name i))) tb = Some pid"
  shows "\<exists>e. get_pit tb pid = Some e \<and> matchesInterest (pe_interest e) i"
proof -
  let ?d = "nteDepth (i_name i)" and ?k = "take (nteDepth (i_name i)) (i_name i)"
  from f obtain e where e: "pid \<in> set (pit_at (tb_nt tb) ?k)" "get_pit tb pid = Some e" "canMatch e i ?d"
    by (auto simp: find_matching_def find_Some_iff split: option.splits)
  have k: "take (nteDepth (pe_name e)) (pe_name e) = ?k"
    using pit_okD(4) [OF ok, of pid ?k] pit_okD(7) [OF ok e(2)] e by auto
  have len: "length ?k = ?d" using nteDepth_le [of "i_name i"] by simp
  have "nteDepth (pe_name e) = ?d"
    using arg_cong [OF k, of length] nteDepth_le(1) [of "pe_name e"] len by simp
  then have "take ?d (pe_name e) = take ?d (i_name i)" using k by simp
  then show ?thesis using e canMatch_iff by blast
qed

lemma find_matching_None:
  assumes ok: "pit_ok tb" and f: "find_matching i (nteDepth (i_name i))
      (pit_at (tb_nt tb) (take (nteDepth (i_name i)) (i_name i))) tb = None"
    and e: "get_pit tb pid = Some e"
  shows "\<not> matchesInterest (pe_interest e) i"
proof
  let ?d = "nteDepth (i_name i)" and ?k = "take (nteDepth (i_name i)) (i_name i)"
  assume m: "matchesInterest (pe_interest e) i"
  then have n: "pe_name e = i_name i" by (simp add: matchesInterest_def)
  then have "pid \<in> set (pit_at (tb_nt tb) ?k)"
    using pit_okD(4,7) [OF ok] e by auto
  moreover have "canMatch e i ?d" using canMatch_iff [of ?d e i] n m by simp
  ultimately show False using f e by (auto simp: find_matching_def find_None_iff)
qed

section \<open>Preservation\<close>

lemma get_pit_simps [simp]:
  "get_pit (tb\<lparr>tb_nt := t\<rparr>) = get_pit tb"
  "get_pit (tb\<lparr>tb_pitItems := n\<rparr>) = get_pit tb"
  "get_pit (tb\<lparr>tb_fibItems := n\<rparr>) = get_pit tb"
  "get_pit (tb\<lparr>tb_measItems := n\<rparr>) = get_pit tb"
  "get_pit (tb\<lparr>tb_nextPit := m\<rparr>) = get_pit tb"
  "get_pit (tb\<lparr>tb_pits := ps\<rparr>) pid = tab_get ps pid"
  by (simp_all add: get_pit_def fun_eq_iff)

lemma pit_ok_nt:
  assumes "pit_ok tb" and "nt_ok t" and "pit_at t = pit_at (tb_nt tb)"
  shows "pit_ok (tb\<lparr>tb_nt := t\<rparr>)"
  using assms unfolding pit_ok_def by simp blast

lemma get_pit_update [simp, pit_laws]:
  "get_pit (update_pit pid f tb) p =
     (if p = pid then map_option f (get_pit tb p) else get_pit tb p)"
  by (simp add: update_pit_def) (simp add: get_pit_def)

lemma update_pit_fields [simp, pit_laws]:
  "tb_nt (update_pit pid f tb) = tb_nt tb" "tb_nextPit (update_pit pid f tb) = tb_nextPit tb"
  "tb_fibItems (update_pit pid f tb) = tb_fibItems tb"
  "tb_pitItems (update_pit pid f tb) = tb_pitItems tb"
  "tb_measItems (update_pit pid f tb) = tb_measItems tb"
  "tb_scItems (update_pit pid f tb) = tb_scItems tb"
  "map fst (tb_pits (update_pit pid f tb)) = map fst (tb_pits tb)"
  by (simp_all add: update_pit_def)

text \<open>Updating an entry in place, without touching its Interest and its node.\<close>

lemma pit_ok_update_match:
  assumes ok: "pit_ok tb"
    and f: "\<And>e. get_pit tb pid = Some e \<Longrightarrow>
      matchesInterest (pe_interest (f e)) (pe_interest e) \<and> pe_nte (f e) = pe_nte e \<and> (pit_entry_ok e \<longrightarrow> pit_entry_ok (f e))"
  shows "pit_ok (update_pit pid f tb)"
proof -
  have get: "get_pit (update_pit pid f tb) p = Some e' \<Longrightarrow>
      \<exists>e. get_pit tb p = Some e \<and> matchesInterest (pe_interest e') (pe_interest e) \<and> pe_nte e' = pe_nte e \<and>
          (pit_entry_ok e \<longrightarrow> pit_entry_ok e')" for p e'
    using f by (auto simp: matchesInterest_def split: if_splits)
  have there: "get_pit tb p = Some e \<Longrightarrow>
      \<exists>e'. get_pit (update_pit pid f tb) p = Some e' \<and> pe_nte e' = pe_nte e" for p e
    using f by auto
  show ?thesis
    unfolding pit_ok_def
  proof (intro conjI allI impI)
    show "nt_ok (tb_nt (update_pit pid f tb))" using pit_okD(1) [OF ok] by simp
    show "distinct (map fst (tb_pits (update_pit pid f tb)))" using pit_okD(2) [OF ok] by simp
    show "distinct (pit_at (tb_nt (update_pit pid f tb)) k)" for k using pit_okD(3) [OF ok] by simp
    show "(p \<in> set (pit_at (tb_nt (update_pit pid f tb)) k)) =
        (\<exists>e. get_pit (update_pit pid f tb) p = Some e \<and> pe_nte e = Some k)" for k p
    proof
      assume "p \<in> set (pit_at (tb_nt (update_pit pid f tb)) k)"
      then obtain e where "get_pit tb p = Some e" "pe_nte e = Some k"
        using pit_okD(4) [OF ok] by auto
      then show "\<exists>e. get_pit (update_pit pid f tb) p = Some e \<and> pe_nte e = Some k"
        using there by fastforce
    next
      assume "\<exists>e. get_pit (update_pit pid f tb) p = Some e \<and> pe_nte e = Some k"
      then obtain e where "get_pit tb p = Some e" "pe_nte e = Some k" using get by metis
      then show "p \<in> set (pit_at (tb_nt (update_pit pid f tb)) k)" using pit_okD(4) [OF ok] by auto
    qed
  next
    fix p e' assume "get_pit (update_pit pid f tb) p = Some e'"
    then obtain e where e: "get_pit tb p = Some e" "matchesInterest (pe_interest e') (pe_interest e)"
        "pe_nte e' = pe_nte e" "pit_entry_ok e \<longrightarrow> pit_entry_ok e'" using get by blast
    show "p < tb_nextPit (update_pit pid f tb)" using pit_okD(5) [OF ok e(1)] by simp
    show "pit_entry_ok e'" using pit_okD(6) [OF ok e(1)] e(4) by simp
    show "pe_nte e' = Some (take (nteDepth (pe_name e')) (pe_name e'))"
      using pit_okD(7) [OF ok e(1)] e(2,3) by (simp add: matchesInterest_def)
  next
    fix p1 e1 p2 e2
    assume m: "get_pit (update_pit pid f tb) p1 = Some e1 \<and> get_pit (update_pit pid f tb) p2 = Some e2 \<and>
      matchesInterest (pe_interest e1) (pe_interest e2)"
    then obtain d1 d2 where d: "get_pit tb p1 = Some d1" "matchesInterest (pe_interest e1) (pe_interest d1)"
      "get_pit tb p2 = Some d2" "matchesInterest (pe_interest e2) (pe_interest d2)" using get by meson
    then have "matchesInterest (pe_interest d1) (pe_interest d2)" using m by (simp add: matchesInterest_def)
    then show "p1 = p2" using pit_okD(8) [OF ok] d(1,3) by blast
  qed
qed

lemma pit_ok_update:
  assumes "pit_ok tb"
    and "\<And>e. get_pit tb pid = Some e \<Longrightarrow>
      pe_interest (f e) = pe_interest e \<and> pe_nte (f e) = pe_nte e \<and> (pit_entry_ok e \<longrightarrow> pit_entry_ok (f e))"
  shows "pit_ok (update_pit pid f tb)"
  using assms by (intro pit_ok_update_match) (auto simp: matchesInterest_def)

lemma Pit_insert_cases:
  assumes ok: "pit_ok tb"
  obtains (found) pid e tb1 where "Pit_insert i tb = (Some pid, False, tb1)"
      "tb1 = tb\<lparr>tb_nt := nt_lookup (i_name i) (nteDepth (i_name i)) (tb_nt tb)\<rparr>"
      "get_pit tb pid = Some e" "matchesInterest (pe_interest e) i"
    | (new) k tb1 where "k = take (nteDepth (i_name i)) (i_name i)"
      "tb1 = tb\<lparr>tb_nt := nt_lookup (i_name i) (nteDepth (i_name i)) (tb_nt tb)\<rparr>"
      "\<And>p e. get_pit tb p = Some e \<Longrightarrow> \<not> matchesInterest (pe_interest e) i"
      "Pit_insert i tb = (Some (tb_nextPit tb), True,
         tb1\<lparr>tb_nt := insertPitEntry k (tb_nextPit tb) (tb_nt tb1),
             tb_pits := tab_put (tb_nextPit tb) ((PitEntry_new i)\<lparr>pe_nte := Some k\<rparr>) (tb_pits tb),
             tb_nextPit := Suc (tb_nextPit tb), tb_pitItems := tb_pitItems tb + 1\<rparr>)"
proof -
  define k where "k = take (nteDepth (i_name i)) (i_name i)"
  define tb1 where "tb1 = tb\<lparr>tb_nt := nt_lookup (i_name i) (nteDepth (i_name i)) (tb_nt tb)\<rparr>"
  have same: "find_matching i d ps tb1 = find_matching i d ps tb" for d ps
    by (simp add: find_matching_def tb1_def)
  have view: "pit_at (tb_nt tb1) = pit_at (tb_nt tb)" by (simp add: tb1_def)
  show thesis
  proof (cases "find_matching i (nteDepth (i_name i)) (pit_at (tb_nt tb) k) tb")
    case None
    have "\<not> matchesInterest (pe_interest e) i" if "get_pit tb p = Some e" for p e
      using find_matching_None [OF ok, of i] None that by (simp add: k_def)
    moreover have "Pit_insert i tb = (Some (tb_nextPit tb), True,
         tb1\<lparr>tb_nt := insertPitEntry k (tb_nextPit tb) (tb_nt tb1),
             tb_pits := tab_put (tb_nextPit tb) ((PitEntry_new i)\<lparr>pe_nte := Some k\<rparr>) (tb_pits tb),
             tb_nextPit := Suc (tb_nextPit tb), tb_pitItems := tb_pitItems tb + 1\<rparr>)"
      using None same view
      by (simp add: Pit_findOrInsert_def Let_def k_def [symmetric] tb1_def [symmetric])
         (simp add: tb1_def)
    ultimately show thesis using new [OF k_def tb1_def] by blast
  next
    case (Some pid)
    obtain e where "get_pit tb pid = Some e" "matchesInterest (pe_interest e) i"
      using find_matching_Some [OF ok, of i pid] Some by (auto simp: k_def)
    moreover have "Pit_insert i tb = (Some pid, False, tb1)"
      using Some same view
      by (simp add: Pit_findOrInsert_def Let_def k_def [symmetric] tb1_def [symmetric])
    ultimately show thesis using found [OF _ tb1_def] by blast
  qed
qed

lemma matchesInterest_sym: "matchesInterest i j \<longleftrightarrow> matchesInterest j i"
  by (auto simp: matchesInterest_def)

lemma pit_ok_lookup:
  "pit_ok tb \<Longrightarrow> d \<le> length n \<Longrightarrow> d \<le> getMaxDepth \<Longrightarrow> pit_ok (tb\<lparr>tb_nt := nt_lookup n d (tb_nt tb)\<rparr>)"
  by (rule pit_ok_nt) (auto dest: pit_okD(1))

lemma pit_ok_add:
  assumes ok: "pit_ok tb" and k: "k = take (nteDepth (i_name i)) (i_name i)"
    and here: "tab_get (tb_nt tb) k \<noteq> None"
    and fresh: "\<And>p e. get_pit tb p = Some e \<Longrightarrow> \<not> matchesInterest (pe_interest e) i"
    and tb': "tb' = tb\<lparr>tb_nt := insertPitEntry k (tb_nextPit tb) (tb_nt tb),
             tb_pits := tab_put (tb_nextPit tb) ((PitEntry_new i)\<lparr>pe_nte := Some k\<rparr>) (tb_pits tb),
             tb_nextPit := Suc (tb_nextPit tb), tb_pitItems := n\<rparr>"
  shows "pit_ok tb'"
proof -
  define e0 where "e0 = (PitEntry_new i)\<lparr>pe_nte := Some k\<rparr>"
  have get: "get_pit tb' p = (if p = tb_nextPit tb then Some e0 else get_pit tb p)" for p
    by (simp add: tb' e0_def get_pit_def)
  have none: "get_pit tb (tb_nextPit tb) = None"
    using pit_okD(5) [OF ok, of "tb_nextPit tb"] by (cases "get_pit tb (tb_nextPit tb)") auto
  have notin: "tb_nextPit tb \<notin> set (pit_at (tb_nt tb) j)" for j
    using pit_okD(4) [OF ok] none by auto
  have pat: "pit_at (tb_nt tb') j =
      (if j = k then pit_at (tb_nt tb) j @ [tb_nextPit tb] else pit_at (tb_nt tb) j)" for j
    using here by (simp add: tb')
  have int: "pe_interest e0 = i" "pe_nte e0 = Some k" "pit_entry_ok e0"
    by (simp_all add: e0_def PitEntry_new_def pit_entry_ok_def)
  have fields: "nt_ok (tb_nt tb')" "distinct (map fst (tb_pits tb'))"
      "tb_nextPit tb' = Suc (tb_nextPit tb)"
    using pit_okD(1,2) [OF ok] by (simp_all add: tb' distinct_update)
  show ?thesis
    unfolding pit_ok_def
  proof (intro conjI allI impI fields(1,2))
    show "distinct (pit_at (tb_nt tb') j)" for j
      using pit_okD(3) [OF ok, of j] notin [of j] by (auto simp: pat)
    show "(p \<in> set (pit_at (tb_nt tb') j)) = (\<exists>e. get_pit tb' p = Some e \<and> pe_nte e = Some j)" for j p
      using pit_okD(4) [OF ok, of p j] none notin int by (auto simp: pat get)
  next
    fix p e assume "get_pit tb' p = Some e"
    then have cases: "p = tb_nextPit tb \<and> e = e0 \<or> get_pit tb p = Some e"
      unfolding get [of p] by (metis option.inject)
    show "p < tb_nextPit tb'"
      using cases pit_okD(5) [OF ok, of p e] by (auto simp: fields(3))
    show "pit_entry_ok e"
      using cases pit_okD(6) [OF ok, of p e] int(3) by blast
    show "pe_nte e = Some (take (nteDepth (pe_name e)) (pe_name e))"
      using cases
    proof
      assume "p = tb_nextPit tb \<and> e = e0"
      then show ?thesis using int(1,2) k by simp
    next
      assume "get_pit tb p = Some e"
      then show ?thesis by (rule pit_okD(7) [OF ok])
    qed
  next
    fix p1 e1 p2 e2
    assume "get_pit tb' p1 = Some e1 \<and> get_pit tb' p2 = Some e2 \<and>
      matchesInterest (pe_interest e1) (pe_interest e2)"
    then have c1: "p1 = tb_nextPit tb \<and> e1 = e0 \<or> get_pit tb p1 = Some e1"
      and c2: "p2 = tb_nextPit tb \<and> e2 = e0 \<or> get_pit tb p2 = Some e2"
      and m: "matchesInterest (pe_interest e1) (pe_interest e2)"
      unfolding get [of p1] get [of p2] by (metis option.inject)+
    have m': "matchesInterest (pe_interest e2) (pe_interest e1)"
      using m matchesInterest_sym by blast
    show "p1 = p2"
      using c1
    proof
      assume l: "p1 = tb_nextPit tb \<and> e1 = e0"
      with m' int(1) fresh [of p2 e2] have "get_pit tb p2 \<noteq> Some e2" by blast
      with c2 l show ?thesis by blast
    next
      assume l: "get_pit tb p1 = Some e1"
      with m int(1) fresh [of p1 e1] have "e2 \<noteq> e0" by blast
      with c2 l pit_okD(8) [OF ok _ _ m] show ?thesis by blast
    qed
  qed
qed

lemma Pit_insert_ok:
  assumes ok: "pit_ok tb"
  shows "pit_ok (snd (snd (Pit_insert i tb)))"
  using ok
proof (cases rule: Pit_insert_cases [where i = i])
  case (found pid e tb1)
  then show ?thesis using pit_ok_lookup [OF ok nteDepth_le] by simp
next
  case (new k tb1)
  have ok1: "pit_ok tb1" using pit_ok_lookup [OF ok nteDepth_le] new(2) by simp
  have "tab_get (tb_nt tb1) k \<noteq> None"
    using present_after_lookup [OF pit_okD(1) [OF ok] nteDepth_le order_refl] new(1,2) by simp
  moreover have "\<And>p e. get_pit tb1 p = Some e \<Longrightarrow> \<not> matchesInterest (pe_interest e) i"
    using new(2,3) by simp
  ultimately have "pit_ok (tb1\<lparr>tb_nt := insertPitEntry k (tb_nextPit tb1) (tb_nt tb1),
             tb_pits := tab_put (tb_nextPit tb1) ((PitEntry_new i)\<lparr>pe_nte := Some k\<rparr>) (tb_pits tb1),
             tb_nextPit := Suc (tb_nextPit tb1), tb_pitItems := tb_pitItems tb + 1\<rparr>)"
    by (rule pit_ok_add [OF ok1 new(1) _ _ refl])
  then show ?thesis using new(2) unfolding new(4) by simp
qed

text \<open>What an insertion gives: the number of an entry for this Interest, old or new.\<close>

lemma Pit_insert_result:
  assumes ok: "pit_ok tb"
  shows "\<exists>pid isNew tb' e. Pit_insert i tb = (Some pid, isNew, tb') \<and>
    get_pit tb' pid = Some e \<and> matchesInterest (pe_interest e) i \<and>
    (\<forall>p. p \<noteq> pid \<longrightarrow> get_pit tb' p = get_pit tb p) \<and>
    (if isNew then get_pit tb pid = None \<and> e = (PitEntry_new i)\<lparr>pe_nte := Some (take (nteDepth (i_name i)) (i_name i))\<rparr>
     else get_pit tb pid = Some e)"
  using ok
proof (cases rule: Pit_insert_cases [where i = i])
  case (found pid e tb1)
  then show ?thesis by auto
next
  case (new k tb1)
  have none: "get_pit tb (tb_nextPit tb) = None"
    using pit_okD(5) [OF ok, of "tb_nextPit tb"] by (cases "get_pit tb (tb_nextPit tb)") auto
  then show ?thesis
    using new(1,2) unfolding new(4)
    by (auto simp: get_pit_def PitEntry_new_def matchesInterest_def)
qed

lemma Pit_find_iff:
  assumes ok: "pit_ok tb"
  shows "Pit_find i tb = Some pid \<longleftrightarrow> (\<exists>e. get_pit tb pid = Some e \<and> matchesInterest (pe_interest e) i)"
proof -
  let ?d = "nteDepth (i_name i)" and ?k = "take (nteDepth (i_name i)) (i_name i)"
  have d: "min (length (i_name i)) ?d = ?d" "\<not> getMaxDepth < ?d"
    using nteDepth_le [of "i_name i"] by auto
  have eq: "Pit_find i tb =
      (if tab_get (tb_nt tb) ?k = None then None
       else find_matching i ?d (pit_at (tb_nt tb) ?k) tb)"
    using d by (auto simp: Pit_find_def Pit_findOrInsert_def findExactMatch_def Let_def
        split: option.splits)
  show ?thesis
  proof
    assume "Pit_find i tb = Some pid"
    then show "\<exists>e. get_pit tb pid = Some e \<and> matchesInterest (pe_interest e) i"
      using find_matching_Some [OF ok] by (auto simp: eq split: if_splits)
  next
    assume "\<exists>e. get_pit tb pid = Some e \<and> matchesInterest (pe_interest e) i"
    then obtain e where e: "get_pit tb pid = Some e" "matchesInterest (pe_interest e) i" by auto
    have "pe_name e = i_name i" using e by (simp add: matchesInterest_def)
    then have "pid \<in> set (pit_at (tb_nt tb) ?k)" using pit_okD(4,7) [OF ok] e by auto
    then have "tab_get (tb_nt tb) ?k \<noteq> None" using pit_at_present [of "tb_nt tb" ?k] by force
    moreover obtain p where p: "find_matching i ?d (pit_at (tb_nt tb) ?k) tb = Some p"
      using find_matching_None [OF ok _ e(1)] e(2) by fastforce
    moreover have "p = pid"
      using find_matching_Some [OF ok p] pit_okD(8) [OF ok _ e(1)] e(2)
      by (auto simp: matchesInterest_def)
    ultimately show "Pit_find i tb = Some pid" by (simp add: eq)
  qed
qed

lemma Pit_erase_eq:
  assumes ok: "pit_ok tb" and e: "get_pit tb pid = Some e"
  shows "\<exists>k t'. pe_nte e = Some k \<and> nt_ok t' \<and>
    (\<forall>j. pit_at t' j = (if j = k then erase_swap pid (pit_at (tb_nt tb) j) else pit_at (tb_nt tb) j)) \<and>
    fib_at t' = fib_at (tb_nt tb) \<and> meas_at t' = meas_at (tb_nt tb) \<and> sc_at t' = sc_at (tb_nt tb) \<and>
    Pit_erase pid c tb = tb\<lparr>tb_nt := t', tb_pits := tab_del pid (tb_pits tb),
                            tb_pitItems := tb_pitItems tb - 1\<rparr>"
proof -
  obtain k where k: "pe_nte e = Some k" using pit_okD(7) [OF ok e] by auto
  have nt: "nt_ok (erasePitEntry k pid (tb_nt tb))" using pit_okD(1) [OF ok] by simp
  show ?thesis
    using e k nt by (intro exI [of _ k] exI [of _ "if c then fst (eraseIfEmpty k True (erasePitEntry k pid (tb_nt tb)))
          else erasePitEntry k pid (tb_nt tb)"])
      (auto simp: Pit_erase_def Let_def fun_eq_iff)
qed

lemma Pit_erase_ok:
  assumes ok: "pit_ok tb"
  shows "pit_ok (Pit_erase pid c tb)"
    and "get_pit (Pit_erase pid c tb) p = (if p = pid then None else get_pit tb p)"
proof -
  have *: "pit_ok (Pit_erase pid c tb) \<and>
      get_pit (Pit_erase pid c tb) p = (if p = pid then None else get_pit tb p)"
  proof (cases "get_pit tb pid")
    case None
    then show ?thesis using ok by (simp add: Pit_erase_def)
  next
    case (Some e)
    obtain k t' where k: "pe_nte e = Some k" and t': "nt_ok t'"
        "\<And>j. pit_at t' j = (if j = k then erase_swap pid (pit_at (tb_nt tb) j) else pit_at (tb_nt tb) j)"
      and er: "Pit_erase pid c tb = tb\<lparr>tb_nt := t', tb_pits := tab_del pid (tb_pits tb),
                            tb_pitItems := tb_pitItems tb - 1\<rparr>"
      using Pit_erase_eq [OF ok Some, of c] by blast
    define tb' where "tb' = Pit_erase pid c tb"
    have get: "get_pit tb' p = (if p = pid then None else get_pit tb p)" for p
      by (simp add: tb'_def er get_pit_def)
    have mem: "set (pit_at t' j) = set (pit_at (tb_nt tb) j) - {pid} \<and> distinct (pit_at t' j)" for j
    proof (cases "j = k")
      case True
      then show ?thesis using t'(2) set_erase_swap [OF pit_okD(3) [OF ok]] by simp
    next
      case False
      then have "pid \<notin> set (pit_at (tb_nt tb) j)"
        using pit_okD(4) [OF ok, of pid j] Some k by auto
      then show ?thesis using False t'(2) pit_okD(3) [OF ok] by simp
    qed
    have fields: "tb_nt tb' = t'" "tb_nextPit tb' = tb_nextPit tb" "tb_pits tb' = tab_del pid (tb_pits tb)"
      by (simp_all add: tb'_def er)
    have "pit_ok tb'"
      unfolding pit_ok_def
    proof (intro conjI allI impI)
      show "nt_ok (tb_nt tb')" using t' fields by simp
      show "distinct (map fst (tb_pits tb'))" using pit_okD(2) [OF ok] fields by simp
      show "distinct (pit_at (tb_nt tb') j)" for j using mem fields by simp
      show "(p \<in> set (pit_at (tb_nt tb') j)) = (\<exists>e. get_pit tb' p = Some e \<and> pe_nte e = Some j)" for j p
        using mem [of j] pit_okD(4) [OF ok, of p j] fields by (auto simp: get)
    next
      fix p e assume "get_pit tb' p = Some e"
      then have "get_pit tb p = Some e" by (simp add: get split: if_splits)
      then show "p < tb_nextPit tb'" "pit_entry_ok e"
          "pe_nte e = Some (take (nteDepth (pe_name e)) (pe_name e))"
        using pit_okD(5-7) [OF ok] fields by auto
    next
      fix p1 e1 p2 e2
      assume "get_pit tb' p1 = Some e1 \<and> get_pit tb' p2 = Some e2 \<and>
        matchesInterest (pe_interest e1) (pe_interest e2)"
      then show "p1 = p2" using pit_okD(8) [OF ok, of p1 e1 p2 e2] by (auto simp: get split: if_splits)
    qed
    then show ?thesis using get by (simp add: tb'_def)
  qed
  then show "pit_ok (Pit_erase pid c tb)"
    "get_pit (Pit_erase pid c tb) p = (if p = pid then None else get_pit tb p)" by simp_all
qed

section \<open>Matching Data\<close>

lemma nteHasPitEntries_accepted [simp]: "accepted t nteHasPitEntries k \<longleftrightarrow> pit_at t k \<noteq> []"
  by (auto simp: accepted_def nteHasPitEntries_def view_defs split: option.splits)

lemma matching_node_prefix:
  assumes "matchesData i d"
  shows "prefix (take (nteDepth (i_name i)) (i_name i)) (d_name d)"
proof -
  have "prefix (i_name i) (d_name d) \<or> (i_name i = getFullName d \<and> hasDigest (i_name i))"
    using assms
    by (auto simp: matchesData_def isPrefixOf_prefix hasDigest_def getFullName_def split: if_splits)
  then show ?thesis
  proof
    assume "prefix (i_name i) (d_name d)"
    then show ?thesis using prefix_order.trans take_is_prefix by blast
  next
    assume f: "i_name i = getFullName d \<and> hasDigest (i_name i)"
    then have "take (nteDepth (i_name i)) (i_name i) = take (nteDepth (i_name i)) (d_name d)"
      unfolding getFullName_def nteDepth_def by auto
    then show ?thesis by (simp add: take_is_prefix)
  qed
qed

lemma findAllDataMatches_iff:
  assumes ok: "pit_ok tb"
  shows "pid \<in> set (Pit_findAllDataMatches d tb) \<longleftrightarrow>
    (\<exists>e. get_pit tb pid = Some e \<and> matchesData (pe_interest e) d)"
proof
  assume "pid \<in> set (Pit_findAllDataMatches d tb)"
  then show "\<exists>e. get_pit tb pid = Some e \<and> matchesData (pe_interest e) d"
    by (auto simp: Pit_findAllDataMatches_def split: option.splits)
next
  assume "\<exists>e. get_pit tb pid = Some e \<and> matchesData (pe_interest e) d"
  then obtain e where e: "get_pit tb pid = Some e" "matchesData (pe_interest e) d" by auto
  define k where "k = take (nteDepth (pe_name e)) (pe_name e)"
  have k: "pid \<in> set (pit_at (tb_nt tb) k)" using pit_okD(4,7) [OF ok] e by (auto simp: k_def)
  have "prefix k (d_name d)" using matching_node_prefix [OF e(2)] by (simp add: k_def)
  moreover have "length k \<le> getMaxDepth" using nteDepth_le by (simp add: k_def min.coboundedI2)
  ultimately have "k \<in> set (findAllMatches (d_name d) nteHasPitEntries (tb_nt tb))"
    using k by (auto simp: set_findAllMatches [OF pit_okD(1) [OF ok]])
  then show "pid \<in> set (Pit_findAllDataMatches d tb)"
    using k e by (auto simp: Pit_findAllDataMatches_def)
qed

section \<open>Properties\<close>

text \<open>The tables after a history of insertions, record updates and removals.\<close>

datatype pit_op = PitInsert interest | PitErase nat bool | PitDeleteRecords nat face
  | PitInRecord nat int face interest | PitOutRecord nat int face interest

fun pit_step :: "pit_op \<Rightarrow> 'a tables_scheme \<Rightarrow> 'a tables_scheme" where
  "pit_step (PitInsert i) tb = snd (snd (Pit_insert i tb))"
| "pit_step (PitErase pid c) tb = Pit_erase pid c tb"
| "pit_step (PitDeleteRecords pid face) tb = Pit_deleteInOutRecords pid face tb"
| "pit_step (PitInRecord pid now face i) tb = update_pit pid (insertOrUpdateInRecord now face i) tb"
| "pit_step (PitOutRecord pid now face i) tb = update_pit pid (insertOrUpdateOutRecord now face i) tb"

lemma pit_step_ok:
  assumes "pit_ok tb"
  shows "pit_ok (pit_step op tb)"
proof (cases op)
  case (PitInsert i)
  show ?thesis unfolding PitInsert pit_step.simps by (rule Pit_insert_ok [OF assms])
next
  case (PitErase pid c)
  show ?thesis unfolding PitErase pit_step.simps by (rule Pit_erase_ok(1) [OF assms])
next
  case (PitDeleteRecords pid face)
  show ?thesis unfolding PitDeleteRecords pit_step.simps Pit_deleteInOutRecords_def
    by (rule pit_ok_update [OF assms]) simp
next
  case (PitInRecord pid now face i)
  show ?thesis unfolding PitInRecord pit_step.simps by (rule pit_ok_update [OF assms]) simp
next
  case (PitOutRecord pid now face i)
  show ?thesis unfolding PitOutRecord pit_step.simps by (rule pit_ok_update [OF assms]) simp
qed

text \<open>C19: after any history of operations every PIT entry hangs on exactly the node its name
  determines, has at most one in-record and one out-record per face, and no two entries
  stand for the same Interest.\<close>

theorem pit_invariant:
  assumes "pit_ok tb"
  shows "pit_ok (fold pit_step ops tb)"
  by (rule fold_inv [where P = pit_ok, OF assms]) (rule pit_step_ok)

lemma no_tables_pit_ok: "pit_ok no_tables"
  by (simp add: pit_ok_def no_tables_def nt_ok_def view_defs get_pit_def)

definition interest_a :: interest where
  "interest_a = \<lparr>i_name = [Component 8 [65]], i_canBePrefix = True, i_mustBeFresh = False, i_hint = [],
     i_nonce = 1, i_lifetime = 4000, i_hopLimit = None, i_pitToken = None, i_nextHopFaceId = None\<rparr>"

definition data_ab :: data where
  "data_ab = \<lparr>d_name = [Component 8 [65], Component 8 [66]], d_contentType = 0, d_freshness = 0,
     d_content = [], d_digest = replicate 32 0, d_pitToken = None, d_noCache = False\<rparr>"

theorem pit_invariant_witness:
  "pit_ok (fold pit_step [PitInsert interest_a, PitInRecord 0 5 face1 interest_a, PitErase 0 True] no_tables)"
  using pit_invariant [OF no_tables_pit_ok] .

text \<open>C21: inserting an Interest returns an entry for it, which a lookup then finds; it is an
  entry that was there exactly when the lookup found one before, and all other entries
  are as they were.\<close>

theorem pit_insert_find:
  assumes "pit_ok tb"
  shows "\<exists>pid isNew tb' e. Pit_insert i tb = (Some pid, isNew, tb') \<and> Pit_find i tb' = Some pid \<and>
    get_pit tb' pid = Some e \<and> matchesInterest (pe_interest e) i \<and>
    (isNew \<longleftrightarrow> Pit_find i tb = None) \<and>
    (\<forall>p. p \<noteq> pid \<longrightarrow> get_pit tb' p = get_pit tb p)"
proof -
  obtain pid isNew tb' e where I: "Pit_insert i tb = (Some pid, isNew, tb')" "get_pit tb' pid = Some e"
      "matchesInterest (pe_interest e) i" "\<forall>p. p \<noteq> pid \<longrightarrow> get_pit tb' p = get_pit tb p"
      and new: "if isNew then get_pit tb pid = None \<and> e = (PitEntry_new i)\<lparr>pe_nte := Some (take (nteDepth (i_name i)) (i_name i))\<rparr>
        else get_pit tb pid = Some e"
    using Pit_insert_result [OF assms, of i] by blast
  have ok': "pit_ok tb'" using Pit_insert_ok [OF assms, of i] I(1) by simp
  have f': "Pit_find i tb' = Some pid" using Pit_find_iff [OF ok'] I(2,3) by blast
  have n: "Pit_find i tb = None" if isNew
  proof (cases "Pit_find i tb")
    case (Some p)
    then obtain e' where e': "get_pit tb p = Some e'" "matchesInterest (pe_interest e') i"
      using Pit_find_iff [OF assms] by blast
    moreover have "p \<noteq> pid" using e'(1) new that by auto
    ultimately have "Pit_find i tb' = Some p" using Pit_find_iff [OF ok'] I(4) by auto
    then show ?thesis using f' \<open>p \<noteq> pid\<close> by simp
  qed
  have "Pit_find i tb = Some pid" if "\<not> isNew"
    using new that I(3) Pit_find_iff [OF assms] by auto
  then have "isNew \<longleftrightarrow> Pit_find i tb = None" using n by (cases isNew) auto
  then show ?thesis using I f' by blast
qed

theorem pit_insert_find_witness:
  "\<exists>pid tb'. Pit_insert interest_a no_tables = (Some pid, True, tb') \<and> Pit_find interest_a tb' = Some pid"
proof -
  have "Pit_find interest_a no_tables = None"
    by (simp add: Pit_find_def Pit_findOrInsert_def findExactMatch_def no_tables_def Let_def)
  then show ?thesis using pit_insert_find [OF no_tables_pit_ok, of interest_a] by auto
qed

text \<open>C20: the entries found for a Data packet are all the pending Interests it matches, and only
  those, also when an Interest name carries an implicit digest or is deeper than the
  name tree.\<close>

theorem pit_data_matches:
  assumes "pit_ok tb"
  shows "set (Pit_findAllDataMatches d tb) =
    {pid. \<exists>e. get_pit tb pid = Some e \<and> matchesData (pe_interest e) d}"
  using findAllDataMatches_iff [OF assms] by blast

theorem pit_data_matches_witness:
  "\<exists>pid. pid \<in> set (Pit_findAllDataMatches data_ab (snd (snd (Pit_insert interest_a no_tables))))"
proof -
  obtain pid isNew tb' e where I: "Pit_insert interest_a no_tables = (Some pid, isNew, tb')"
      "get_pit tb' pid = Some e" "matchesInterest (pe_interest e) interest_a"
    using Pit_insert_result [OF no_tables_pit_ok, of interest_a] by blast
  have "matchesData (pe_interest e) data_ab"
    using I(3) by (simp add: matchesInterest_def matchesData_def interest_a_def data_ab_def)
  then show ?thesis
    using pit_data_matches [OF Pit_insert_ok [OF no_tables_pit_ok, of interest_a], of data_ab] I by auto
qed

end
