(* ===== verification/Measurements_Table.thy ===== *)
theory Measurements_Table
  imports Pit_Table
begin

text \<open>
  The measurements table (\<^verbatim>\<open>measurements.cpp\<close>) on the name tree.  An entry is removed by a
  scheduled event at its expiry time; \<^verbatim>\<open>Measurements_cleanup\<close> is that event.
\<close>

section \<open>Operations\<close>

definition getInitialLifetime :: int where
  "getInitialLifetime = ms 4000"

text \<open>Find or insert the entry of a node of the tree.\<close>

definition Measurements_get_nte :: "int \<Rightarrow> name \<Rightarrow> 'a tables_scheme \<Rightarrow> 'a tables_scheme" where
  "Measurements_get_nte now k tb =
     (case meas_at (tb_nt tb) k of
        Some _ \<Rightarrow> tb
      | None \<Rightarrow>
          tb\<lparr>tb_nt := setMeasurementsEntry k
               (Some \<lparr>me_name = k, me_expiry = now + getInitialLifetime, me_info = []\<rparr>) (tb_nt tb),
             tb_measItems := tb_measItems tb + 1\<rparr>)"

definition Measurements_get :: "int \<Rightarrow> name \<Rightarrow> 'a tables_scheme \<Rightarrow> name \<times> 'a tables_scheme" where
  "Measurements_get now n tb =
     (let l = min (length n) getMaxDepth; tb1 = tb\<lparr>tb_nt := nt_lookup n l (tb_nt tb)\<rparr>
      in (take l n, Measurements_get_nte now (take l n) tb1))"

text \<open>For a FIB entry; only the empty entry is not attached to a node.\<close>

definition Measurements_get_fib :: "int \<Rightarrow> fib_entry \<Rightarrow> 'a tables_scheme \<Rightarrow> name \<times> 'a tables_scheme" where
  "Measurements_get_fib now e tb =
     (case fib_at (tb_nt tb) (fe_prefix e) of
        Some _ \<Rightarrow> (fe_prefix e, Measurements_get_nte now (fe_prefix e) tb)
      | None \<Rightarrow>
          (fe_prefix e, Measurements_get_nte now (fe_prefix e)
             (tb\<lparr>tb_nt := nt_lookup (fe_prefix e) (length (fe_prefix e)) (tb_nt tb)\<rparr>)))"

definition Measurements_get_pit :: "int \<Rightarrow> pit_entry \<Rightarrow> 'a tables_scheme \<Rightarrow> name \<times> 'a tables_scheme" where
  "Measurements_get_pit now e tb =
     (if hasDigest (pe_name e) \<and> length (pe_name e) \<le> getMaxDepth
      then (pe_name e, Measurements_get_nte now (pe_name e)
              (tb\<lparr>tb_nt := nt_lookup (pe_name e) (length (pe_name e)) (tb_nt tb)\<rparr>))
      else case pe_nte e of
             None \<Rightarrow> ([], tb)
           | Some k \<Rightarrow> (k, Measurements_get_nte now k tb))"

definition Measurements_getParent ::
  "int \<Rightarrow> name \<Rightarrow> 'a tables_scheme \<Rightarrow> name option \<times> 'a tables_scheme" where
  "Measurements_getParent now child tb =
     (if child = [] then (None, tb)
      else case tab_get (tb_nt tb) child of
             None \<Rightarrow> (None, tb)
           | Some nteChild \<Rightarrow>
               (case nte_parent nteChild of
                  None \<Rightarrow> (None, tb)
                | Some p \<Rightarrow> (Some p, Measurements_get_nte now p tb)))"

definition Measurements_findLongestPrefixMatch ::
  "name \<Rightarrow> (meas_entry \<Rightarrow> bool) \<Rightarrow> 'a tables_scheme \<Rightarrow> name option" where
  "Measurements_findLongestPrefixMatch n pred tb =
     findLongestPrefixMatch (getPrefix n (int getMaxDepth))
       (\<lambda>e. case nte_meas e of None \<Rightarrow> False | Some m \<Rightarrow> pred m) (tb_nt tb)"

definition Measurements_findExactMatch :: "name \<Rightarrow> 'a tables_scheme \<Rightarrow> meas_entry option" where
  "Measurements_findExactMatch n tb =
     (case findExactMatch n (length n) (tb_nt tb) of
        None \<Rightarrow> None | Some k \<Rightarrow> meas_at (tb_nt tb) k)"

definition extendLifetime :: "int \<Rightarrow> name \<Rightarrow> int \<Rightarrow> 'a tables_scheme \<Rightarrow> 'a tables_scheme" where
  "extendLifetime now k lifetime tb =
     (case meas_at (tb_nt tb) k of
        None \<Rightarrow> tb
      | Some e \<Rightarrow>
          (let expiry = now + lifetime in
           if me_expiry e \<ge> expiry then tb
           else tb\<lparr>tb_nt := setMeasurementsEntry k (Some (e\<lparr>me_expiry := expiry\<rparr>)) (tb_nt tb)\<rparr>))"

definition Measurements_cleanup :: "name \<Rightarrow> 'a tables_scheme \<Rightarrow> 'a tables_scheme" where
  "Measurements_cleanup k tb =
     tb\<lparr>tb_nt := fst (eraseIfEmpty k True (setMeasurementsEntry k None (tb_nt tb))),
        tb_measItems := tb_measItems tb - 1\<rparr>"

text \<open>Changing the strategy information of an entry that was found.\<close>

definition update_meas :: "name \<Rightarrow> (meas_entry \<Rightarrow> meas_entry) \<Rightarrow> 'a tables_scheme \<Rightarrow> 'a tables_scheme" where
  "update_meas k f tb =
     tb\<lparr>tb_nt := setMeasurementsEntry k (map_option f (meas_at (tb_nt tb) k)) (tb_nt tb)\<rparr>"

section \<open>Invariant\<close>

definition meas_names :: "'a tables_scheme \<Rightarrow> name set" where
  "meas_names tb = {k. meas_at (tb_nt tb) k \<noteq> None}"

definition meas_ok :: "'a tables_scheme \<Rightarrow> bool" where
  "meas_ok tb \<longleftrightarrow> nt_ok (tb_nt tb) \<and>
     (\<forall>k e. meas_at (tb_nt tb) k = Some e \<longrightarrow> me_name e = k) \<and>
     tb_measItems tb = of_nat (card (meas_names tb))"

lemma meas_at_present: "meas_at t k = Some e \<Longrightarrow> tab_get t k \<noteq> None"
  by (auto simp: view_defs split: option.splits)

lemma finite_meas_names: "finite (meas_names tb)"
proof (rule finite_subset)
  show "meas_names tb \<subseteq> dom (tab_get (tb_nt tb))"
    using meas_at_present by (fastforce simp: meas_names_def)
qed (simp add: finite_dom_map_of)

lemma meas_ok_add:
  assumes "meas_ok tb" and new: "meas_at (tb_nt tb) k = None" and here: "tab_get (tb_nt tb) k \<noteq> None"
    and "me_name e = k"
    and tb': "tb' = tb\<lparr>tb_nt := setMeasurementsEntry k (Some e) (tb_nt tb), tb_measItems := tb_measItems tb + 1\<rparr>"
  shows "meas_ok tb'" and "meas_at (tb_nt tb') = (meas_at (tb_nt tb))(k := Some e)"
proof -
  show at: "meas_at (tb_nt tb') = (meas_at (tb_nt tb))(k := Some e)"
    using here by (auto simp: tb' fun_eq_iff)
  have "meas_names tb' = insert k (meas_names tb)" by (auto simp: meas_names_def at)
  moreover have "k \<notin> meas_names tb" using new by (simp add: meas_names_def)
  ultimately have "card (meas_names tb') = Suc (card (meas_names tb))"
    using finite_meas_names [of tb] by simp
  then show "meas_ok tb'"
    using assms(1,4) by (auto simp: meas_ok_def at) (auto simp: tb')
qed

lemma get_nte_ok:
  assumes "meas_ok tb" and "tab_get (tb_nt tb) k \<noteq> None"
  shows "meas_ok (Measurements_get_nte now k tb)"
    and "meas_at (tb_nt (Measurements_get_nte now k tb)) = (meas_at (tb_nt tb))(k := Some
      (case meas_at (tb_nt tb) k of Some e \<Rightarrow> e
       | None \<Rightarrow> \<lparr>me_name = k, me_expiry = now + getInitialLifetime, me_info = []\<rparr>))"
proof -
  note add = meas_ok_add [OF assms(1) _ assms(2), where
      e = "\<lparr>me_name = k, me_expiry = now + getInitialLifetime, me_info = []\<rparr>", OF _ _ refl, simplified]
  show "meas_ok (Measurements_get_nte now k tb)"
    using assms(1) add(1) by (auto simp: Measurements_get_nte_def split: option.splits)
  show "meas_at (tb_nt (Measurements_get_nte now k tb)) = (meas_at (tb_nt tb))(k := Some
      (case meas_at (tb_nt tb) k of Some e \<Rightarrow> e
       | None \<Rightarrow> \<lparr>me_name = k, me_expiry = now + getInitialLifetime, me_info = []\<rparr>))"
  proof (cases "meas_at (tb_nt tb) k")
    case None
    then show ?thesis using add(2) by (simp add: Measurements_get_nte_def)
  next
    case (Some e)
    then show ?thesis by (auto simp: Measurements_get_nte_def fun_eq_iff)
  qed
qed

lemma meas_ok_nt:
  "meas_ok tb \<Longrightarrow> nt_ok t \<Longrightarrow> meas_at t = meas_at (tb_nt tb) \<Longrightarrow> meas_ok (tb\<lparr>tb_nt := t\<rparr>)"
  by (simp add: meas_ok_def meas_names_def)

lemma Measurements_get_ok:
  assumes "meas_ok tb" and "Measurements_get now n tb = (k, tb')"
  shows "k = take getMaxDepth n" and "meas_ok tb'"
    and "meas_at (tb_nt tb') = (meas_at (tb_nt tb))(k := Some
      (case meas_at (tb_nt tb) k of Some e \<Rightarrow> e
       | None \<Rightarrow> \<lparr>me_name = k, me_expiry = now + getInitialLifetime, me_info = []\<rparr>))"
proof -
  let ?l = "min (length n) getMaxDepth"
  define tb1 where "tb1 = tb\<lparr>tb_nt := nt_lookup n ?l (tb_nt tb)\<rparr>"
  have nt: "nt_ok (tb_nt tb)" using assms(1) by (simp add: meas_ok_def)
  have ok1: "meas_ok tb1"
    unfolding tb1_def by (rule meas_ok_nt [OF assms(1)]) (use nt in simp_all)
  have k: "k = take ?l n" "tb' = Measurements_get_nte now k tb1"
    using assms(2) by (auto simp: Measurements_get_def Let_def tb1_def)
  then show "k = take getMaxDepth n" by (simp add: min_def)
  have here: "tab_get (tb_nt tb1) k \<noteq> None"
    using nt by (simp add: tb1_def k(1) present_after_lookup del: not_None_eq)
  have same: "meas_at (tb_nt tb1) = meas_at (tb_nt tb)" by (simp add: tb1_def)
  show "meas_ok tb'" unfolding k(2) by (rule get_nte_ok(1) [OF ok1 here])
  show "meas_at (tb_nt tb') = (meas_at (tb_nt tb))(k := Some
      (case meas_at (tb_nt tb) k of Some e \<Rightarrow> e
       | None \<Rightarrow> \<lparr>me_name = k, me_expiry = now + getInitialLifetime, me_info = []\<rparr>))"
    unfolding k(2) get_nte_ok(2) [OF ok1 here] same ..
qed

lemma update_meas_ok:
  assumes "meas_ok tb" and f: "\<And>e. me_name (f e) = me_name e"
  shows "meas_ok (update_meas k f tb)"
    and "meas_at (tb_nt (update_meas k f tb)) = (meas_at (tb_nt tb))(k := map_option f (meas_at (tb_nt tb) k))"
proof -
  have n: "tab_get (tb_nt tb) k = None \<Longrightarrow> meas_at (tb_nt tb) k = None" by (simp add: view_defs)
  show at: "meas_at (tb_nt (update_meas k f tb)) = (meas_at (tb_nt tb))(k := map_option f (meas_at (tb_nt tb) k))"
    using n by (auto simp: update_meas_def fun_eq_iff)
  have "meas_names (update_meas k f tb) = meas_names tb" by (auto simp: meas_names_def at)
  then show "meas_ok (update_meas k f tb)"
    using assms by (auto simp: meas_ok_def at) (auto simp: update_meas_def)
qed

lemma extendLifetime_ok:
  assumes "meas_ok tb"
  shows "meas_ok (extendLifetime now k lifetime tb)"
    and "meas_at (tb_nt (extendLifetime now k lifetime tb)) =
      (meas_at (tb_nt tb))(k := map_option (\<lambda>e. e\<lparr>me_expiry := max (me_expiry e) (now + lifetime)\<rparr>) (meas_at (tb_nt tb) k))"
proof -
  let ?f = "\<lambda>e. e\<lparr>me_expiry := max (me_expiry e) (now + lifetime)\<rparr>"
  have eq: "extendLifetime now k lifetime tb = (case meas_at (tb_nt tb) k of None \<Rightarrow> tb | Some e \<Rightarrow>
      if me_expiry e \<ge> now + lifetime then tb else update_meas k ?f tb)"
    by (auto simp: extendLifetime_def Let_def update_meas_def max_def split: option.splits)
  note u = update_meas_ok [OF assms, of ?f k, simplified]
  show "meas_ok (extendLifetime now k lifetime tb)" using u(1) assms by (simp add: eq split: option.splits)
  show "meas_at (tb_nt (extendLifetime now k lifetime tb)) =
      (meas_at (tb_nt tb))(k := map_option ?f (meas_at (tb_nt tb) k))"
    using u(2) by (auto simp: eq fun_eq_iff max_def split: option.splits)
qed

lemma cleanup_ok:
  assumes "meas_ok tb" and "meas_at (tb_nt tb) k \<noteq> None"
  shows "meas_ok (Measurements_cleanup k tb)"
    and "meas_at (tb_nt (Measurements_cleanup k tb)) = (meas_at (tb_nt tb))(k := None)"
proof -
  have nt: "nt_ok (tb_nt tb)" using assms(1) by (simp add: meas_ok_def)
  have here: "tab_get (tb_nt tb) k \<noteq> None" using assms(2) meas_at_present by blast
  show at: "meas_at (tb_nt (Measurements_cleanup k tb)) = (meas_at (tb_nt tb))(k := None)"
    using nt here by (auto simp: Measurements_cleanup_def fun_eq_iff)
  have "meas_names (Measurements_cleanup k tb) = meas_names tb - {k}" by (auto simp: meas_names_def at)
  moreover have "k \<in> meas_names tb" using assms(2) by (simp add: meas_names_def)
  ultimately have "Suc (card (meas_names (Measurements_cleanup k tb))) = card (meas_names tb)"
    using finite_meas_names [of tb] card_Suc_Diff1 by metis
  then have "of_nat (card (meas_names tb)) - (1 :: 64 word) = of_nat (card (meas_names (Measurements_cleanup k tb)))"
    by (metis add_diff_cancel_left' of_nat_Suc)
  then show "meas_ok (Measurements_cleanup k tb)"
    using assms(1) nt at by (auto simp: meas_ok_def) (auto simp: Measurements_cleanup_def)
qed

section \<open>Properties\<close>

text \<open>Getting a measurements entry and extending its lifetime gives an entry that lives at least
  as long as asked for and as long as it would have lived before: extending never shortens a
  lifetime, keeps the strategy information, and touches no other entry.\<close>

theorem measurements_lifetime:
  assumes "meas_ok tb" and "Measurements_get now n tb = (k, tb1)"
  shows "\<exists>e. meas_at (tb_nt (extendLifetime now k lifetime tb1)) k = Some e \<and> me_name e = k \<and>
      now + lifetime \<le> me_expiry e \<and>
      (\<forall>e0. meas_at (tb_nt tb) k = Some e0 \<longrightarrow> me_expiry e0 \<le> me_expiry e \<and> me_info e = me_info e0) \<and>
      (\<forall>j. j \<noteq> k \<longrightarrow> meas_at (tb_nt (extendLifetime now k lifetime tb1)) j = meas_at (tb_nt tb) j)"
proof -
  note g = Measurements_get_ok [OF assms]
  have n: "\<And>e. meas_at (tb_nt tb) k = Some e \<Longrightarrow> me_name e = k" using assms(1) by (auto simp: meas_ok_def)
  show ?thesis
    unfolding extendLifetime_ok(2) [OF g(2)] g(3) using n by (auto split: option.splits)
qed

lemma no_tables_meas_ok: "meas_ok no_tables"
  by (simp add: meas_ok_def no_tables_def nt_ok_def meas_names_def view_defs)

theorem measurements_lifetime_witness:
  "\<exists>k tb1 e. Measurements_get 5 [Component 8 [65]] no_tables = (k, tb1) \<and>
     meas_at (tb_nt (extendLifetime 5 k 100 tb1)) k = Some e \<and> 105 \<le> me_expiry e"
proof -
  obtain k tb1 where g: "Measurements_get 5 [Component 8 [65]] no_tables = (k, tb1)"
    by (cases "Measurements_get 5 [Component 8 [65]] no_tables")
  from measurements_lifetime [OF no_tables_meas_ok g, of 100] g show ?thesis by auto
qed

end
