(* ===== verification/Strategy_Registry.thy ===== *)
theory Strategy_Registry
  imports Table_Entries
begin

text \<open>
  The registry of strategies and the creation of strategy instances (\<^verbatim>\<open>strategy.cpp\<close> and the
  constructors of the best-route, multicast, random and KITE strategies, with the
  settings of \<^verbatim>\<open>retx-suppression-exponential.cpp\<close>).  The conversions of
  \<^verbatim>\<open>boost::conversion\<close> from parameter text to numbers are the arguments
  \<^verbatim>\<open>to_int\<close> and \<^verbatim>\<open>to_float\<close>; a floating point multiplier is a ratio of integers, and
  its product with an interval is taken exactly.
\<close>

section \<open>Names\<close>

definition str :: "string \<Rightarrow> component" where
  "str s = Component 8 (map of_char s)"

definition LOCALHOST :: name where "LOCALHOST = [str ''localhost'']"
definition LOCALHOP :: name where "LOCALHOP = [str ''localhop'']"

definition KITE_KEYWORD :: component where
  "KITE_KEYWORD = Component 32 [0x4B, 0x49, 0x54, 0x45]"

definition strategy_prefix :: "string \<Rightarrow> name" where
  "strategy_prefix s = [str ''localhost'', str ''nfd'', str ''strategy'', str s]"

fun getStrategyName :: "strategy_kind \<Rightarrow> name" where
  "getStrategyName BestRoute = strategy_prefix ''best-route'' @ [fromVersion TYPED 5]"
| "getStrategyName Multicast = strategy_prefix ''multicast'' @ [fromVersion TYPED 4]"
| "getStrategyName Random = strategy_prefix ''random'' @ [fromVersion TYPED 1]"
| "getStrategyName Kite = strategy_prefix ''kite'' @ [Component 8 [0xFD, 0x01]]"

type_synonym registry = "(name \<times> strategy_kind) list"

text \<open>The map of registered strategies, sorted by name.\<close>

definition strategy_registry :: registry where
  "strategy_registry = sort_key fst (map (\<lambda>k. (getStrategyName k, k)) [BestRoute, Multicast, Random, Kite])"

section \<open>Instance names\<close>

record parsed_name =
  pn_strategyName :: name
  pn_version :: "64 word option"
  pn_parameters :: name

primrec parse_loop :: "name \<Rightarrow> nat \<Rightarrow> parsed_name" where
  "parse_loop input 0 = \<lparr>pn_strategyName = input, pn_version = None, pn_parameters = []\<rparr>"
| "parse_loop input (Suc i) =
     (if isVersion EITHER (input ! Suc i) then
        (case toVersion EITHER (input ! Suc i) of
           Inl _ \<Rightarrow> \<lparr>pn_strategyName = input, pn_version = None, pn_parameters = []\<rparr>
         | Inr v \<Rightarrow> \<lparr>pn_strategyName = getPrefix input (int (Suc i) + 1), pn_version = Some v,
                    pn_parameters = getSubName input (int (Suc i) + 1) None\<rparr>)
      else parse_loop input i)"

definition parseInstanceName :: "name \<Rightarrow> parsed_name" where
  "parseInstanceName input = parse_loop input (length input - 1)"

definition makeInstanceName :: "name \<Rightarrow> name \<Rightarrow> name" where
  "makeInstanceName input strategyName =
     (if list_ex (isVersion EITHER) (rev input) then input
      else input @ [name_get strategyName (- 1)])"

definition Strategy_find :: "registry \<Rightarrow> name \<Rightarrow> (name \<times> strategy_kind) option" where
  "Strategy_find reg instanceName =
     (let parsed = parseInstanceName instanceName; sn = pn_strategyName parsed in
      case pn_version parsed of
        Some _ \<Rightarrow>
          (case dropWhile (\<lambda>x. fst x < sn) reg of
             [] \<Rightarrow> None
           | found # _ \<Rightarrow> if isPrefixOf (getPrefix sn (- 1)) (fst found) then Some found else None)
      | None \<Rightarrow>
          if sn \<noteq> [] then
            (let below = takeWhile (\<lambda>x. fst x < name_getSuccessor sn) reg in
             if below \<noteq> [] \<and> isPrefixOf sn (fst (last below)) then Some (last below) else None)
          else None)"

definition canCreate :: "registry \<Rightarrow> name \<Rightarrow> bool" where
  "canCreate reg instanceName \<longleftrightarrow> Strategy_find reg instanceName \<noteq> None"

definition areSameType :: "registry \<Rightarrow> name \<Rightarrow> name \<Rightarrow> bool" where
  "areSameType reg a b \<longleftrightarrow> Strategy_find reg a = Strategy_find reg b"

section \<open>Parameters\<close>

datatype strategy_error = ParameterFormat | EmptyParameter | MalformedValue | BadInitialInterval
  | BadMaxInterval | BadMultiplier | UnsupportedVersion "64 word" | NoParametersAccepted

type_synonym strategy_parameters = "(byte list \<times> byte list) list"

fun parseParameters_loop :: "name \<Rightarrow> strategy_parameters \<Rightarrow> strategy_error + strategy_parameters" where
  "parseParameters_loop [] parsed = Inr parsed"
| "parseParameters_loop (c # cs) parsed =
     (let p = takeWhile (\<lambda>b. b \<noteq> 0x7E) (cvalue c); rest = dropWhile (\<lambda>b. b \<noteq> 0x7E) (cvalue c) in
      if rest = [] then Inl ParameterFormat
      else if p = [] \<or> tl rest = [] then Inl EmptyParameter
      else parseParameters_loop cs (tab_put p (tl rest) parsed))"

definition parseParameters :: "name \<Rightarrow> strategy_error + strategy_parameters" where
  "parseParameters params = parseParameters_loop params []"

definition getOrDefault ::
  "(byte list \<Rightarrow> 'a option) \<Rightarrow> string \<Rightarrow> 'a \<Rightarrow> strategy_parameters \<Rightarrow> strategy_error + 'a" where
  "getOrDefault conv key defaultVal params =
     (case tab_get params (map of_char key) of
        None \<Rightarrow> Inr defaultVal
      | Some v \<Rightarrow> (case conv v of None \<Rightarrow> Inl MalformedValue | Some x \<Rightarrow> Inr x))"

text \<open>The constructor of \<^verbatim>\<open>RetxSuppressionExponential\<close>: intervals in milliseconds.\<close>

definition RetxSuppressionExponential_new ::
  "int \<Rightarrow> int \<Rightarrow> int \<times> int \<Rightarrow> strategy_error + (int \<times> int \<times> (int \<times> int))" where
  "RetxSuppressionExponential_new initialInterval maxInterval multiplier =
     (if initialInterval \<le> 0 then Inl BadInitialInterval
      else if maxInterval < initialInterval then Inl BadMaxInterval
      else if fst multiplier < snd multiplier then Inl BadMultiplier
      else Inr (initialInterval, maxInterval, multiplier))"

definition retx_construct ::
  "(byte list \<Rightarrow> int option) \<Rightarrow> (byte list \<Rightarrow> (int \<times> int) option) \<Rightarrow> strategy_parameters \<Rightarrow>
   strategy_error + (int \<times> int \<times> (int \<times> int))" where
  "retx_construct to_int to_float params =
     (case getOrDefault to_int ''retx-suppression-initial'' 10 params of
        Inl e \<Rightarrow> Inl e
      | Inr init \<Rightarrow>
         (case getOrDefault to_int ''retx-suppression-max'' 250 params of
            Inl e \<Rightarrow> Inl e
          | Inr mx \<Rightarrow>
             (case getOrDefault to_float ''retx-suppression-multiplier'' (2, 1) params of
                Inl e \<Rightarrow> Inl e
              | Inr factor \<Rightarrow> RetxSuppressionExponential_new init mx factor)))"

section \<open>Creation\<close>

definition unsupported :: "strategy_kind \<Rightarrow> parsed_name \<Rightarrow> 64 word option" where
  "unsupported kind parsed =
     (case pn_version parsed of
        None \<Rightarrow> None
      | Some v \<Rightarrow>
          (case toVersion EITHER (name_get (getStrategyName kind) (- 1)) of
             Inl _ \<Rightarrow> None | Inr w \<Rightarrow> if v \<noteq> w then Some v else None))"

text \<open>The constructors that take retransmission parameters: best-route and multicast.\<close>

definition construct_with_retx ::
  "(byte list \<Rightarrow> int option) \<Rightarrow> (byte list \<Rightarrow> (int \<times> int) option) \<Rightarrow> strategy_kind \<Rightarrow> name \<Rightarrow>
   strategy_error + strategy" where
  "construct_with_retx to_int to_float kind n =
     (let parsed = parseInstanceName n in
      case unsupported kind parsed of
        Some v \<Rightarrow> Inl (UnsupportedVersion v)
      | None \<Rightarrow>
         (case parseParameters (pn_parameters parsed) of
            Inl e \<Rightarrow> Inl e
          | Inr params \<Rightarrow>
             (case retx_construct to_int to_float params of
                Inl e \<Rightarrow> Inl e
              | Inr (init, mx, factor) \<Rightarrow>
                  Inr \<lparr>s_kind = kind, s_instanceName = makeInstanceName n (getStrategyName kind),
                       s_initialInterval = init, s_maxInterval = mx, s_multiplier = factor\<rparr>)))"

text \<open>The constructors that take no parameters: random and KITE.\<close>

definition construct_plain :: "strategy_kind \<Rightarrow> name \<Rightarrow> strategy_error + strategy" where
  "construct_plain kind n =
     (let parsed = parseInstanceName n in
      if pn_parameters parsed \<noteq> [] then Inl NoParametersAccepted
      else case unsupported kind parsed of
             Some v \<Rightarrow> Inl (UnsupportedVersion v)
           | None \<Rightarrow> Inr \<lparr>s_kind = kind, s_instanceName = makeInstanceName n (getStrategyName kind),
                        s_initialInterval = 10, s_maxInterval = 250, s_multiplier = (2, 1)\<rparr>)"

text \<open>\<^verbatim>\<open>None\<close> is the null pointer: the strategy is not registered.\<close>

definition Strategy_create ::
  "(byte list \<Rightarrow> int option) \<Rightarrow> (byte list \<Rightarrow> (int \<times> int) option) \<Rightarrow> registry \<Rightarrow> name \<Rightarrow>
   strategy_error + strategy option" where
  "Strategy_create to_int to_float reg instanceName =
     (case Strategy_find reg instanceName of
        None \<Rightarrow> Inr None
      | Some (_, kind) \<Rightarrow>
          (case (if kind = BestRoute \<or> kind = Multicast
                 then construct_with_retx to_int to_float kind instanceName
                 else construct_plain kind instanceName) of
             Inl e \<Rightarrow> Inl e | Inr s \<Rightarrow> Inr (Some s)))"

section \<open>Lemmas\<close>

definition registry_ok :: "registry \<Rightarrow> bool" where
  "registry_ok reg \<longleftrightarrow> sorted_wrt (<) (map fst reg) \<and> list_all (\<lambda>(n, _). valid_name n) reg"

lemma registry_split:
  fixes reg :: registry
  assumes "sorted_wrt (<) (map fst reg)"
  shows "takeWhile (\<lambda>x. fst x < q) reg = filter (\<lambda>x. fst x < q) reg"
  using assms
proof (induction reg)
  case (Cons x reg)
  show ?case
  proof (cases "fst x < q")
    case True
    then show ?thesis using Cons by simp
  next
    case False
    have "\<not> fst y < q" if "y \<in> set reg" for y
    proof -
      have "fst x < fst y"
        using Cons.prems that unfolding list.map sorted_wrt.simps set_map by blast
      show ?thesis by (rule notI, rule notE [OF False], rule less_trans [OF \<open>fst x < fst y\<close>])
    qed
    then have "filter (\<lambda>x. fst x < q) reg = []" by (simp add: filter_empty_conv)
    then show ?thesis using False by simp
  qed
qed simp

lemma sorted_last:
  fixes reg :: registry
  assumes "sorted_wrt (<) (map fst reg)" and "y \<in> set reg"
  shows "fst y \<le> fst (last reg)"
  using assms
proof (induction reg)
  case (Cons x reg)
  show ?case
  proof (cases "reg = []")
    case False
    then have "fst x < fst (last reg)" using Cons.prems(1) last_in_set [OF False] by auto
    then show ?thesis using Cons.IH Cons.prems False by (cases "y = x") (simp_all add: less_imp_le)
  qed (use Cons.prems in auto)
qed simp

lemma sorted_filter_fst: "sorted_wrt (<) (map fst reg) \<Longrightarrow> sorted_wrt (<) (map fst (filter P reg))"
  by (induction reg) auto

lemma find_unversioned:
  assumes ok: "registry_ok reg" and v: "valid_name n" "n \<noteq> []" and p: "parseInstanceName n = \<lparr>pn_strategyName = n, pn_version = None, pn_parameters = []\<rparr>"
  shows "case Strategy_find reg n of
      None \<Rightarrow> \<forall>(m, k) \<in> set reg. \<not> isPrefixOf n m
    | Some (m, k) \<Rightarrow> (m, k) \<in> set reg \<and> isPrefixOf n m \<and> (\<forall>(m', k') \<in> set reg. isPrefixOf n m' \<longrightarrow> m' \<le> m)"
proof -
  let ?below = "filter (\<lambda>x. fst x < name_getSuccessor n) reg"
  have sorted: "sorted_wrt (<) (map fst reg)" and valid: "\<And>m k. (m, k) \<in> set reg \<Longrightarrow> valid_name m"
    using ok by (auto simp: registry_ok_def list_all_iff)
  have f: "Strategy_find reg n =
      (if ?below \<noteq> [] \<and> isPrefixOf n (fst (last ?below)) then Some (last ?below) else None)"
    using v(2) by (simp add: Strategy_find_def p registry_split [OF sorted] Let_def)
  have below: "(m, k) \<in> set ?below \<and> n \<le> m" if "(m, k) \<in> set reg" "isPrefixOf n m" for m k
    using successor_range [OF v(2,1) valid [OF that(1)]] that by (simp add: isPrefixOf_prefix)
  have le: "m \<le> fst (last ?below)" if "(m, k) \<in> set reg" "isPrefixOf n m" for m k
    using sorted_last [OF sorted_filter_fst [OF sorted]] below [OF that] by fastforce
  show ?thesis
  proof (cases "?below \<noteq> [] \<and> isPrefixOf n (fst (last ?below))")
    case True
    obtain m k where l: "last ?below = (m, k)" by (cases "last ?below")
    have "(m, k) \<in> set reg" using last_in_set [of ?below] True l by (metis (no_types, lifting) filter_is_subset subsetD)
    then show ?thesis using True le l by (auto simp: f)
  next
    case False
    have "\<not> isPrefixOf n m" if "(m, k) \<in> set reg" for m k
    proof
      assume m: "isPrefixOf n m"
      note b = below [OF that m]
      then have ne: "?below \<noteq> []" by (metis empty_iff list.set(1))
      obtain m' k' where l: "last ?below = (m', k')" by (cases "last ?below")
      have in_reg: "(m', k') \<in> set reg" "m' < name_getSuccessor n" using last_in_set [OF ne] l by auto
      have "n \<le> m'" using le [OF that m] b l by (auto intro: order.trans)
      then have "isPrefixOf n m'"
        using successor_range [OF v(2,1) valid [OF in_reg(1)]] in_reg(2) by (simp add: isPrefixOf_prefix)
      then show False using False ne l by simp
    qed
    then show ?thesis using False by (auto simp: f)
  qed
qed

lemma construct_bounds:
  assumes "construct_with_retx to_int to_float kind n = Inr s \<or> construct_plain kind n = Inr s"
  shows "0 < s_initialInterval s \<and> s_initialInterval s \<le> s_maxInterval s \<and>
    snd (s_multiplier s) \<le> fst (s_multiplier s) \<and> s_kind s = kind \<and>
    s_instanceName s = makeInstanceName n (getStrategyName kind)"
  using assms
  by (auto simp: construct_with_retx_def construct_plain_def retx_construct_def
      RetxSuppressionExponential_new_def Let_def split: option.splits sum.splits if_splits)

lemma version_of_kind: "isVersion EITHER (name_get (getStrategyName kind) (- 1))"
proof -
  have "isVersion EITHER (name_get (getStrategyName BestRoute) (- 1))"
    "isVersion EITHER (name_get (getStrategyName Multicast) (- 1))"
    "isVersion EITHER (name_get (getStrategyName Random) (- 1))"
    "isVersion EITHER (name_get (getStrategyName Kite) (- 1))"
    by code_simp+
  then show ?thesis by (cases kind) (simp_all only:)
qed

section \<open>Properties\<close>

text \<open>Asking for a strategy without a version gives the highest registered version of a
  strategy under that name, and nothing is found only when none is registered there.\<close>

theorem strategy_highest_version:
  assumes "registry_ok reg" and "valid_name n" and "n \<noteq> []"
    and "parseInstanceName n = \<lparr>pn_strategyName = n, pn_version = None, pn_parameters = []\<rparr>"
  shows "case Strategy_find reg n of
      None \<Rightarrow> \<forall>(m, k) \<in> set reg. \<not> isPrefixOf n m
    | Some (m, k) \<Rightarrow> (m, k) \<in> set reg \<and> isPrefixOf n m \<and> (\<forall>(m', k') \<in> set reg. isPrefixOf n m' \<longrightarrow> m' \<le> m)"
  using find_unversioned [OF assms] .

text \<open>A strategy that could be created is of the registered class, carries a version in its
  instance name, and has a positive initial suppression interval not above the maximum and
  a multiplier of at least one.\<close>

theorem strategy_create_valid:
  assumes "Strategy_create to_int to_float reg n = Inr (Some s)"
  shows "(\<exists>m. Strategy_find reg n = Some (m, s_kind s)) \<and> list_ex (isVersion EITHER) (s_instanceName s) \<and>
    0 < s_initialInterval s \<and> s_initialInterval s \<le> s_maxInterval s \<and>
    snd (s_multiplier s) \<le> fst (s_multiplier s)"
proof -
  obtain m kind where f: "Strategy_find reg n = Some (m, kind)"
    and c: "construct_with_retx to_int to_float kind n = Inr s \<or> construct_plain kind n = Inr s"
    using assms by (auto simp: Strategy_create_def split: option.splits prod.splits sum.splits if_splits)
  note b = construct_bounds [OF c]
  have "list_ex (isVersion EITHER) (makeInstanceName n (getStrategyName kind))"
    using version_of_kind by (auto simp: makeInstanceName_def list_ex_iff)
  then show ?thesis using b f by auto
qed

definition kite_instance :: strategy where
  "kite_instance = \<lparr>s_kind = Kite, s_instanceName = getStrategyName Kite, s_initialInterval = 10,
     s_maxInterval = 250, s_multiplier = (2, 1)\<rparr>"

lemma create_kite:
  "Strategy_create (\<lambda>_. None) (\<lambda>_. None) strategy_registry (strategy_prefix ''kite'') = Inr (Some kite_instance)"
  by code_simp

theorem strategy_create_valid_witness:
  "list_ex (isVersion EITHER) (s_instanceName kite_instance)"
  using strategy_create_valid [OF create_kite] by blast

lemma valid_name_kind: "valid_name (getStrategyName kind)" "valid_name (strategy_prefix s)"
  by (cases kind) (simp_all add: valid_name_def valid_component_alt strategy_prefix_def str_def
      fromVersion_def fromNumber_def is_sha256_type_def)

lemma registry_is_ok: "registry_ok strategy_registry"
proof -
  have "distinct (map getStrategyName [BestRoute, Multicast, Random, Kite])" by code_simp
  then have "distinct (map fst (map (\<lambda>k. (getStrategyName k, k)) [BestRoute, Multicast, Random, Kite]))"
    by simp
  moreover have "mset (map fst strategy_registry) =
      mset (map fst (map (\<lambda>k. (getStrategyName k, k)) [BestRoute, Multicast, Random, Kite]))"
    by (simp add: strategy_registry_def)
  ultimately have "distinct (map fst strategy_registry)" using mset_eq_imp_distinct_iff by blast
  moreover have "sorted (map fst strategy_registry)" by (simp add: strategy_registry_def del: list.map)
  ultimately have "sorted_wrt (<) (map fst strategy_registry)" by (simp add: strict_sorted_iff)
  moreover have "valid_name (fst x)" if "x \<in> set strategy_registry" for x
    using that unfolding strategy_registry_def set_sort by (auto intro: valid_name_kind(1) simp del: getStrategyName.simps)
  ultimately show ?thesis by (simp add: registry_ok_def list_all_iff split_beta)
qed

theorem strategy_highest_version_witness:
  "\<exists>m. Strategy_find strategy_registry (strategy_prefix ''kite'') = Some (m, Kite) \<and>
     isPrefixOf (strategy_prefix ''kite'') m"
proof -
  have v: "strategy_prefix ''kite'' \<noteq> []"
      "parseInstanceName (strategy_prefix ''kite'') =
        \<lparr>pn_strategyName = strategy_prefix ''kite'', pn_version = None, pn_parameters = []\<rparr>"
    by code_simp+
  have "Strategy_find strategy_registry (strategy_prefix ''kite'') = Some (getStrategyName Kite, Kite)"
    by code_simp
  then show ?thesis using strategy_highest_version [OF registry_is_ok valid_name_kind(2) v] by simp
qed

end
