(* ===== verification/Strategy_Choice.thy ===== *)
theory Strategy_Choice
  imports Measurements_Table Strategy_Registry
begin

text \<open>
  The strategy choice table (\<^verbatim>\<open>strategy-choice.cpp\<close>) and the access control of strategies to
  measurements (\<^verbatim>\<open>measurements-accessor.cpp\<close>).  Every strategy choice entry owns the strategy
  instance it names, so a strategy object is referred to by the prefix of its entry.
\<close>

section \<open>Effective strategy\<close>

definition nteHasStrategyChoiceEntry :: "nte \<Rightarrow> bool" where
  "nteHasStrategyChoiceEntry e \<longleftrightarrow> nte_sc e \<noteq> None"

text \<open>\<^verbatim>\<open>None\<close> is the case the source excludes by an assertion: no entry on the path.\<close>

definition strategy_of_match :: "name option \<Rightarrow> 'a tables_scheme \<Rightarrow> sc_entry option" where
  "strategy_of_match m tb = (case m of None \<Rightarrow> None | Some k \<Rightarrow> sc_at (tb_nt tb) k)"

definition findEffectiveStrategy :: "name \<Rightarrow> 'a tables_scheme \<Rightarrow> sc_entry option" where
  "findEffectiveStrategy n tb =
     strategy_of_match (findLongestPrefixMatch n nteHasStrategyChoiceEntry (tb_nt tb)) tb"

definition findEffectiveStrategy_pit :: "pit_entry \<Rightarrow> 'a tables_scheme \<Rightarrow> sc_entry option" where
  "findEffectiveStrategy_pit e tb =
     (case pe_nte e of
        None \<Rightarrow> None
      | Some k \<Rightarrow> strategy_of_match
                   (findLongestPrefixMatch_pit k (pe_name e) nteHasStrategyChoiceEntry (tb_nt tb)) tb)"

definition findEffectiveStrategy_meas :: "name \<Rightarrow> 'a tables_scheme \<Rightarrow> sc_entry option" where
  "findEffectiveStrategy_meas k tb =
     strategy_of_match (findLongestPrefixMatch_entry k nteHasStrategyChoiceEntry (tb_nt tb)) tb"

section \<open>Changing strategies\<close>

definition clear_pit_info :: "pit_entry \<Rightarrow> pit_entry" where
  "clear_pit_info e =
     e\<lparr>pe_info := [], pe_in := map (\<lambda>r. r\<lparr>fr_info := []\<rparr>) (pe_in e),
       pe_out := map (\<lambda>r. r\<lparr>fr_info := []\<rparr>) (pe_out e)\<rparr>"

definition clearStrategyInfo :: "name \<Rightarrow> 'a tables_scheme \<Rightarrow> 'a tables_scheme" where
  "clearStrategyInfo k tb =
     update_meas k (\<lambda>m. m\<lparr>me_info := []\<rparr>)
       (fold (\<lambda>pid. update_pit pid clear_pit_info) (pit_at (tb_nt tb) k) tb)"

definition changed_nodes :: "name \<Rightarrow> 'a tables_scheme \<Rightarrow> name list" where
  "changed_nodes p tb =
     partialEnumerate p
       (\<lambda>k e. if k = p then (True, True)
              else if nte_sc e \<noteq> None then (False, False)
              else (True, True)) (tb_nt tb)"

definition changeStrategy ::
  "registry \<Rightarrow> name \<Rightarrow> strategy \<Rightarrow> strategy \<Rightarrow> 'a tables_scheme \<Rightarrow> 'a tables_scheme" where
  "changeStrategy reg p oldStrategy newStrategy tb =
     (if areSameType reg (s_instanceName oldStrategy) (s_instanceName newStrategy) then tb
      else fold clearStrategyInfo (changed_nodes p tb) tb)"

section \<open>Operations\<close>

datatype insert_result = OK | NOT_REGISTERED | EXCEPTION strategy_error | DEPTH_EXCEEDED

definition setDefaultStrategy :: "strategy \<Rightarrow> 'a tables_scheme \<Rightarrow> 'a tables_scheme" where
  "setDefaultStrategy s tb =
     tb\<lparr>tb_nt := setStrategyChoiceEntry [] (Some \<lparr>sc_prefix = [], sc_strategy = s\<rparr>) (nt_lookup [] 0 (tb_nt tb)),
        tb_scItems := tb_scItems tb + 1\<rparr>"

text \<open>Replacing the strategy of an entry that exists.\<close>

definition sc_setStrategy :: "name \<Rightarrow> strategy \<Rightarrow> 'a tables_scheme \<Rightarrow> 'a tables_scheme" where
  "sc_setStrategy p s tb =
     tb\<lparr>tb_nt := setStrategyChoiceEntry p (Some \<lparr>sc_prefix = p, sc_strategy = s\<rparr>) (tb_nt tb)\<rparr>"

definition StrategyChoice_insert ::
  "(byte list \<Rightarrow> int option) \<Rightarrow> (byte list \<Rightarrow> (int \<times> int) option) \<Rightarrow> registry \<Rightarrow> name \<Rightarrow> name \<Rightarrow>
   'a tables_scheme \<Rightarrow> insert_result \<times> 'a tables_scheme" where
  "StrategyChoice_insert to_int to_float reg p strategyName tb =
     (if length p > getMaxDepth then (DEPTH_EXCEEDED, tb)
      else case Strategy_create to_int to_float reg strategyName of
        Inl e \<Rightarrow> (EXCEPTION e, tb)
      | Inr None \<Rightarrow> (NOT_REGISTERED, tb)
      | Inr (Some s) \<Rightarrow>
         (let tb1 = tb\<lparr>tb_nt := nt_lookup p (length p) (tb_nt tb)\<rparr> in
          case sc_at (tb_nt tb1) p of
            Some entry \<Rightarrow>
              if s_instanceName (sc_strategy entry) = s_instanceName s then (OK, tb1)
              else (OK, sc_setStrategy p s (changeStrategy reg p (sc_strategy entry) s tb1))
          | None \<Rightarrow>
              (case findEffectiveStrategy p tb1 of
                 None \<Rightarrow> (OK, tb1)
               | Some old \<Rightarrow>
                   (OK, changeStrategy reg p (sc_strategy old) s
                          (sc_setStrategy p s (tb1\<lparr>tb_scItems := tb_scItems tb1 + 1\<rparr>))))))"

definition StrategyChoice_erase :: "registry \<Rightarrow> name \<Rightarrow> 'a tables_scheme \<Rightarrow> 'a tables_scheme" where
  "StrategyChoice_erase reg p tb =
     (case findExactMatch p (length p) (tb_nt tb) of
        None \<Rightarrow> tb
      | Some k \<Rightarrow>
         (case sc_at (tb_nt tb) k of
            None \<Rightarrow> tb
          | Some entry \<Rightarrow>
             (case findEffectiveStrategy (getPrefix p (- 1)) tb of
                None \<Rightarrow> tb
              | Some par \<Rightarrow>
                 (let tb1 = changeStrategy reg p (sc_strategy entry) (sc_strategy par) tb in
                  tb1\<lparr>tb_nt := fst (eraseIfEmpty k True (setStrategyChoiceEntry k None (tb_nt tb1))),
                      tb_scItems := tb_scItems tb1 - 1\<rparr>))))"

definition StrategyChoice_get :: "name \<Rightarrow> 'a tables_scheme \<Rightarrow> bool \<times> name" where
  "StrategyChoice_get p tb =
     (case findExactMatch p (length p) (tb_nt tb) of
        None \<Rightarrow> (False, [])
      | Some k \<Rightarrow>
         (case sc_at (tb_nt tb) k of
            None \<Rightarrow> (False, []) | Some entry \<Rightarrow> (True, s_instanceName (sc_strategy entry))))"

text \<open>\<^verbatim>\<open>MeasurementsAccessor\<close>: an entry is given out only to its effective strategy.\<close>

definition accessor_filter :: "name \<Rightarrow> name option \<Rightarrow> 'a tables_scheme \<Rightarrow> name option" where
  "accessor_filter sp entry tb =
     (case entry of
        None \<Rightarrow> None
      | Some k \<Rightarrow>
         (case findEffectiveStrategy_meas k tb of
            None \<Rightarrow> None | Some s \<Rightarrow> if sc_prefix s = sp then Some k else None))"

definition accessor_get :: "int \<Rightarrow> name \<Rightarrow> name \<Rightarrow> 'a tables_scheme \<Rightarrow> name option \<times> 'a tables_scheme" where
  "accessor_get now sp n tb =
     (let (k, tb') = Measurements_get now n tb in (accessor_filter sp (Some k) tb', tb'))"

section \<open>Invariant\<close>

definition sc_names :: "'a tables_scheme \<Rightarrow> name set" where
  "sc_names tb = {k. sc_at (tb_nt tb) k \<noteq> None}"

definition sc_ok :: "'a tables_scheme \<Rightarrow> bool" where
  "sc_ok tb \<longleftrightarrow> nt_ok (tb_nt tb) \<and> sc_at (tb_nt tb) [] \<noteq> None \<and>
     (\<forall>k e. sc_at (tb_nt tb) k = Some e \<longrightarrow> sc_prefix e = k) \<and>
     tb_scItems tb = of_nat (card (sc_names tb))"

lemma sc_at_present: "sc_at t k = Some e \<Longrightarrow> tab_get t k \<noteq> None"
  by (auto simp: view_defs split: option.splits)

lemma sc_at_depth: "nt_ok t \<Longrightarrow> sc_at t k = Some e \<Longrightarrow> length k \<le> getMaxDepth"
  using sc_at_present nt_okD(1) by fastforce

lemma finite_sc_names: "finite (sc_names tb)"
proof (rule finite_subset)
  show "sc_names tb \<subseteq> dom (tab_get (tb_nt tb))"
    using sc_at_present by (fastforce simp: sc_names_def)
qed (simp add: finite_dom_map_of)

lemma has_sc_accepted [simp]: "accepted t nteHasStrategyChoiceEntry k \<longleftrightarrow> sc_at t k \<noteq> None"
  by (auto simp: accepted_def nteHasStrategyChoiceEntry_def view_defs split: option.splits)

text \<open>The effective strategy is that of the longest prefix with an entry, and there is one.\<close>

definition effective :: "name \<Rightarrow> 'a tables_scheme \<Rightarrow> sc_entry \<Rightarrow> bool" where
  "effective n tb e \<longleftrightarrow> sc_at (tb_nt tb) (sc_prefix e) = Some e \<and> prefix (sc_prefix e) n \<and>
     (\<forall>p. prefix p n \<and> sc_at (tb_nt tb) p \<noteq> None \<longrightarrow> length p \<le> length (sc_prefix e))"

lemma findEffectiveStrategy_spec:
  assumes "sc_ok tb"
  shows "\<exists>e. findEffectiveStrategy n tb = Some e \<and> effective n tb e"
proof -
  have nt: "nt_ok (tb_nt tb)" and root: "sc_at (tb_nt tb) [] \<noteq> None"
    and name: "\<And>k e. sc_at (tb_nt tb) k = Some e \<Longrightarrow> sc_prefix e = k"
    using assms by (auto simp: sc_ok_def)
  have "findLongestPrefixMatch n nteHasStrategyChoiceEntry (tb_nt tb) \<noteq> None"
  proof
    assume "findLongestPrefixMatch n nteHasStrategyChoiceEntry (tb_nt tb) = None"
    then have "\<forall>j \<le> min (length n) getMaxDepth. \<not> accepted (tb_nt tb) nteHasStrategyChoiceEntry (take j n)"
      by (simp only: findLongestPrefixMatch_def lpm_loop_None)
    from this [rule_format, of 0] root show False by simp
  qed
  then obtain k where k: "findLongestPrefixMatch n nteHasStrategyChoiceEntry (tb_nt tb) = Some k" by auto
  then obtain e where e: "sc_at (tb_nt tb) k = Some e" and spec: "prefix k n"
      "\<And>p. prefix p n \<Longrightarrow> length p \<le> getMaxDepth \<Longrightarrow> sc_at (tb_nt tb) p \<noteq> None \<Longrightarrow> length p \<le> length k"
    unfolding findLongestPrefixMatch_spec by auto
  have "effective n tb e"
    using e spec name [OF e] sc_at_depth [OF nt] by (auto simp: effective_def)
  then show ?thesis using k e by (auto simp: findEffectiveStrategy_def strategy_of_match_def)
qed

lemma effective_unique:
  assumes "effective n tb e" and "effective n tb e'"
  shows "e = e'"
proof -
  have t: "prefix p n \<Longrightarrow> p = take (length p) n" for p :: name by (auto simp: prefix_def)
  have at: "sc_at (tb_nt tb) (sc_prefix e) = Some e" "sc_at (tb_nt tb) (sc_prefix e') = Some e'"
    and pre: "prefix (sc_prefix e) n" "prefix (sc_prefix e') n"
    using assms by (auto simp: effective_def)
  have "length (sc_prefix e') \<le> length (sc_prefix e)" "length (sc_prefix e) \<le> length (sc_prefix e')"
    using assms at pre unfolding effective_def by blast+
  then have len: "length (sc_prefix e) = length (sc_prefix e')" by (rule order_antisym [rotated])
  have "take (length (sc_prefix e)) n = take (length (sc_prefix e')) n" by (rule arg_cong [OF len])
  from trans [OF t [OF pre(1)] trans [OF this t [OF pre(2), symmetric]]]
  have "sc_at (tb_nt tb) (sc_prefix e) = sc_at (tb_nt tb) (sc_prefix e')" by (rule arg_cong)
  then show ?thesis unfolding at option.inject .
qed

lemma findEffectiveStrategy_pit_eq:
  assumes "pit_ok tb" and "get_pit tb pid = Some e"
  shows "findEffectiveStrategy_pit e tb = findEffectiveStrategy (pe_name e) tb"
proof -
  have nt: "nt_ok (tb_nt tb)" by (rule pit_okD(1) [OF assms(1)])
  have k: "pe_nte e = Some (take (nteDepth (pe_name e)) (pe_name e))" by (rule pit_okD(7) [OF assms])
  have "pid \<in> set (pit_at (tb_nt tb) (take (nteDepth (pe_name e)) (pe_name e)))"
    using pit_okD(4) [OF assms(1)] assms(2) k by blast
  then have "tab_get (tb_nt tb) (take (nteDepth (pe_name e)) (pe_name e)) \<noteq> None"
    using pit_at_present by (metis empty_iff list.set(1))
  from findLongestPrefixMatch_pit_eq [OF nt refl nteDepth_le(1) this]
  show ?thesis by (simp add: findEffectiveStrategy_pit_def findEffectiveStrategy_def k)
qed

lemma findEffectiveStrategy_meas_eq:
  assumes "nt_ok (tb_nt tb)" and "tab_get (tb_nt tb) k \<noteq> None"
  shows "findEffectiveStrategy_meas k tb = findEffectiveStrategy k tb"
  by (simp add: findEffectiveStrategy_meas_def findEffectiveStrategy_def
      findLongestPrefixMatch_entry_eq [OF assms])

section \<open>Clearing strategy information\<close>

lemma clear_pit_info_simps [simp]:
  "pe_interest (clear_pit_info e) = pe_interest e" "pe_nte (clear_pit_info e) = pe_nte e"
  "pe_timer (clear_pit_info e) = pe_timer e" "pe_info (clear_pit_info e) = []"
  "clear_pit_info (clear_pit_info e) = clear_pit_info e"
  "map fr_face (pe_in (clear_pit_info e)) = map fr_face (pe_in e)"
  "map fr_face (pe_out (clear_pit_info e)) = map fr_face (pe_out e)"
  by (simp_all add: clear_pit_info_def)

lemma clear_pit_info_ok [simp]: "pit_entry_ok (clear_pit_info e) = pit_entry_ok e"
  by (simp add: pit_entry_ok_def)

lemma fold_clear_pit:
  "tb_nt (fold (\<lambda>pid. update_pit pid clear_pit_info) pids tb) = tb_nt tb"
  "get_pit (fold (\<lambda>pid. update_pit pid clear_pit_info) pids tb) p =
     (if p \<in> set pids then map_option clear_pit_info (get_pit tb p) else get_pit tb p)"
  "map fst (tb_pits (fold (\<lambda>pid. update_pit pid clear_pit_info) pids tb)) = map fst (tb_pits tb)"
  "tb_nextPit (fold (\<lambda>pid. update_pit pid clear_pit_info) pids tb) = tb_nextPit tb"
  "tb_scItems (fold (\<lambda>pid. update_pit pid clear_pit_info) pids tb) = tb_scItems tb"
  "tb_measItems (fold (\<lambda>pid. update_pit pid clear_pit_info) pids tb) = tb_measItems tb"
  "tb_fibItems (fold (\<lambda>pid. update_pit pid clear_pit_info) pids tb) = tb_fibItems tb"
  by (induction pids arbitrary: tb) (auto simp: get_pit_update update_pit_fields option.map_comp comp_def)

lemma update_meas_frame [simp]:
  "fib_at (tb_nt (update_meas k f tb)) = fib_at (tb_nt tb)" "pit_at (tb_nt (update_meas k f tb)) = pit_at (tb_nt tb)"
  "sc_at (tb_nt (update_meas k f tb)) = sc_at (tb_nt tb)"
  "tb_pits (update_meas k f tb) = tb_pits tb" "tb_nextPit (update_meas k f tb) = tb_nextPit tb"
  "tb_scItems (update_meas k f tb) = tb_scItems tb" "tb_measItems (update_meas k f tb) = tb_measItems tb"
  "tb_fibItems (update_meas k f tb) = tb_fibItems tb"
  by (auto simp: update_meas_def fun_eq_iff)

lemma update_meas_nt [simp]: "nt_ok (tb_nt tb) \<Longrightarrow> nt_ok (tb_nt (update_meas k f tb))"
  by (simp add: update_meas_def)

lemma update_meas_at:
  "meas_at (tb_nt (update_meas k f tb)) j = (if j = k then map_option f (meas_at (tb_nt tb) j) else meas_at (tb_nt tb) j)"
proof -
  have n: "tab_get (tb_nt tb) k = None \<Longrightarrow> meas_at (tb_nt tb) k = None" by (simp add: view_defs)
  then show ?thesis by (auto simp: update_meas_def)
qed

text \<open>What clearing a list of nodes does, and what it leaves alone.\<close>

definition cleared :: "name list \<Rightarrow> 'a tables_scheme \<Rightarrow> 'a tables_scheme \<Rightarrow> bool" where
  "cleared ks tb tb' \<longleftrightarrow> (nt_ok (tb_nt tb) \<longrightarrow> nt_ok (tb_nt tb')) \<and>
     fib_at (tb_nt tb') = fib_at (tb_nt tb) \<and> pit_at (tb_nt tb') = pit_at (tb_nt tb) \<and>
     sc_at (tb_nt tb') = sc_at (tb_nt tb) \<and>
     map fst (tb_pits tb') = map fst (tb_pits tb) \<and>
     tb_nextPit tb' = tb_nextPit tb \<and> tb_scItems tb' = tb_scItems tb \<and>
     tb_measItems tb' = tb_measItems tb \<and> tb_fibItems tb' = tb_fibItems tb \<and>
     (\<forall>p. get_pit tb' p = (if \<exists>k \<in> set ks. p \<in> set (pit_at (tb_nt tb) k)
        then map_option clear_pit_info (get_pit tb p) else get_pit tb p)) \<and>
     (\<forall>k. meas_at (tb_nt tb') k = (if k \<in> set ks then map_option (\<lambda>m. m\<lparr>me_info := []\<rparr>) (meas_at (tb_nt tb) k)
        else meas_at (tb_nt tb) k))"

lemma clearStrategyInfo_cleared: "cleared [k] tb (clearStrategyInfo k tb)"
  by (auto simp: cleared_def clearStrategyInfo_def fold_clear_pit update_meas_at get_pit_def
      fold_clear_pit(2) [unfolded get_pit_def])

lemma cleared_trans:
  assumes "cleared ks tb tb1" and "cleared [k] tb1 tb2"
  shows "cleared (k # ks) tb tb2"
proof -
  have g1: "get_pit tb1 p = (if \<exists>k \<in> set ks. p \<in> set (pit_at (tb_nt tb) k)
        then map_option clear_pit_info (get_pit tb p) else get_pit tb p)"
    and g2: "get_pit tb2 p = (if p \<in> set (pit_at (tb_nt tb) k)
        then map_option clear_pit_info (get_pit tb1 p) else get_pit tb1 p)" for p
    using assms by (simp_all add: cleared_def)
  have "get_pit tb2 p = (if \<exists>k' \<in> set (k # ks). p \<in> set (pit_at (tb_nt tb) k')
        then map_option clear_pit_info (get_pit tb p) else get_pit tb p)" for p
    unfolding g1 g2 by (auto simp: option.map_comp comp_def)
  moreover have "meas_at (tb_nt tb2) j = (if j \<in> set (k # ks)
        then map_option (\<lambda>m. m\<lparr>me_info := []\<rparr>) (meas_at (tb_nt tb) j) else meas_at (tb_nt tb) j)" for j
    using assms by (auto simp: cleared_def option.map_comp comp_def)
  ultimately show ?thesis using assms by (simp add: cleared_def)
qed

lemma cleared_Nil: "cleared [] tb tb"
  by (simp add: cleared_def)

lemma cleared_set: "set ks = set ks' \<Longrightarrow> cleared ks tb tb' = cleared ks' tb tb'"
  by (simp add: cleared_def)

lemma fold_clear: "cleared ks tb (fold clearStrategyInfo ks tb)"
proof (induction ks rule: rev_induct)
  case (snoc k ks)
  have "cleared (k # ks) tb (clearStrategyInfo k (fold clearStrategyInfo ks tb))"
    by (rule cleared_trans [OF snoc.IH clearStrategyInfo_cleared])
  then show ?case using cleared_set [of "k # ks" "ks @ [k]" tb] by simp
qed (simp add: cleared_Nil)

text \<open>The nodes that are cleared: those below the prefix with no other entry in between.\<close>

lemma changed_nodes_iff:
  assumes "nt_ok (tb_nt tb)" and "length p \<le> getMaxDepth"
  shows "k \<in> set (changed_nodes p tb) \<longleftrightarrow> prefix p k \<and> tab_get (tb_nt tb) k \<noteq> None \<and>
    (\<forall>j. strict_prefix p j \<and> prefix j k \<longrightarrow> sc_at (tb_nt tb) j = None)"
proof -
  let ?sel = "\<lambda>k e. if k = p then (True, True) else if nte_sc e \<noteq> None then (False, False) else (True, True)"
  have sc: "tab_get (tb_nt tb) j = Some e \<Longrightarrow> sc_at (tb_nt tb) j = nte_sc e" for j e
    by (simp add: view_defs)
  have "k \<in> set (changed_nodes p tb) \<longleftrightarrow> prefix p k \<and>
      (\<exists>e. tab_get (tb_nt tb) k = Some e \<and> fst (?sel k e)) \<and>
      (\<forall>j. prefix p j \<and> strict_prefix j k \<longrightarrow> (\<exists>e. tab_get (tb_nt tb) j = Some e \<and> snd (?sel j e)))"
    unfolding changed_nodes_def by (rule partialEnumerate_iff [OF assms])
  also have "\<dots> \<longleftrightarrow> prefix p k \<and> tab_get (tb_nt tb) k \<noteq> None \<and>
    (\<forall>j. strict_prefix p j \<and> prefix j k \<longrightarrow> sc_at (tb_nt tb) j = None)" (is "?L \<longleftrightarrow> ?R")
  proof
    assume L: ?L
    then obtain e where e: "tab_get (tb_nt tb) k = Some e" "k = p \<or> nte_sc e = None"
      by (auto split: if_splits)
    have "sc_at (tb_nt tb) j = None" if pj: "strict_prefix p j" and jk: "prefix j k" for j
    proof (cases "j = k")
      case True
      then show ?thesis using e sc pj by auto
    next
      case False
      then have "strict_prefix j k" using jk by (simp add: strict_prefix_def)
      then obtain e' where "tab_get (tb_nt tb) j = Some e'" "snd (?sel j e')"
        using L prefix_order.less_imp_le [OF pj] by blast
      then show ?thesis using pj sc by (auto split: if_splits)
    qed
    then show ?R using L e by auto
  next
    assume R: ?R
    have "\<exists>e. tab_get (tb_nt tb) j = Some e \<and> fst (?sel j e) \<and> snd (?sel j e)" if pj: "prefix p j" and jk: "prefix j k" for j
    proof -
      have "tab_get (tb_nt tb) j \<noteq> None" using nt_prefix_closed [OF assms(1) _ jk] R by blast
      then obtain e where e: "tab_get (tb_nt tb) j = Some e" by blast
      have "j = p \<or> nte_sc e = None" using R pj jk sc [OF e] by (auto simp: strict_prefix_def)
      then show ?thesis using e by auto
    qed
    note ex = this
    show ?L
    proof (intro conjI allI impI)
      show "prefix p k" using R by blast
      then show "\<exists>e. tab_get (tb_nt tb) k = Some e \<and> fst (?sel k e)" using ex [of k] by blast
    next
      fix j assume "prefix p j \<and> strict_prefix j k"
      then show "\<exists>e. tab_get (tb_nt tb) j = Some e \<and> snd (?sel j e)"
        using ex [of j] prefix_order.less_imp_le [of j k] by blast
    qed
  qed
  finally show ?thesis .
qed

lemma changeStrategy_cleared:
  "cleared (if areSameType reg (s_instanceName old) (s_instanceName new) then [] else changed_nodes p tb)
     tb (changeStrategy reg p old new tb)"
  by (simp add: changeStrategy_def cleared_Nil fold_clear)

lemma cleared_pit_ok:
  assumes ok: "pit_ok tb" and c: "cleared ks tb tb'"
  shows "pit_ok tb'"
proof -
  have get: "get_pit tb' p = Some e \<Longrightarrow> \<exists>e0. get_pit tb p = Some e0 \<and> pe_interest e = pe_interest e0 \<and>
      pe_nte e = pe_nte e0 \<and> pit_entry_ok e = pit_entry_ok e0" for p e
    using c by (auto simp: cleared_def split: if_splits)
  have get': "get_pit tb p = Some e0 \<Longrightarrow> \<exists>e. get_pit tb' p = Some e \<and> pe_nte e = pe_nte e0" for p e0
    using c by (auto simp: cleared_def)
  have same: "nt_ok (tb_nt tb')" "pit_at (tb_nt tb') = pit_at (tb_nt tb)" "tb_nextPit tb' = tb_nextPit tb"
      "map fst (tb_pits tb') = map fst (tb_pits tb)"
    using c pit_okD(1) [OF ok] by (auto simp: cleared_def)
  show ?thesis
    unfolding pit_ok_def
  proof (intro conjI allI impI)
    show "nt_ok (tb_nt tb')" by (rule same(1))
    show "distinct (map fst (tb_pits tb'))" using pit_okD(2) [OF ok] same(4) by simp
    show "distinct (pit_at (tb_nt tb') k)" for k using pit_okD(3) [OF ok] same(2) by simp
    show "(p \<in> set (pit_at (tb_nt tb') k)) = (\<exists>e. get_pit tb' p = Some e \<and> pe_nte e = Some k)" for k p
      unfolding same(2) pit_okD(4) [OF ok] using get [of p] get' [of p] by metis
  next
    fix p e assume "get_pit tb' p = Some e"
    then obtain e0 where e0: "get_pit tb p = Some e0" "pe_interest e = pe_interest e0" "pe_nte e = pe_nte e0"
        "pit_entry_ok e = pit_entry_ok e0" using get by blast
    show "p < tb_nextPit tb'" unfolding same(3) by (rule pit_okD(5) [OF ok e0(1)])
    show "pit_entry_ok e" unfolding e0(4) by (rule pit_okD(6) [OF ok e0(1)])
    show "pe_nte e = Some (take (nteDepth (pe_name e)) (pe_name e))"
      unfolding e0(2,3) by (rule pit_okD(7) [OF ok e0(1)])
  next
    fix p1 e1 p2 e2
    assume a: "get_pit tb' p1 = Some e1 \<and> get_pit tb' p2 = Some e2 \<and> matchesInterest (pe_interest e1) (pe_interest e2)"
    obtain d1 where d1: "get_pit tb p1 = Some d1" "pe_interest e1 = pe_interest d1" using a get by blast
    obtain d2 where d2: "get_pit tb p2 = Some d2" "pe_interest e2 = pe_interest d2" using a get by blast
    show "p1 = p2" using pit_okD(8) [OF ok d1(1) d2(1)] a d1(2) d2(2) by simp
  qed
qed

lemma cleared_meas_ok:
  assumes "meas_ok tb" and c: "cleared ks tb tb'"
  shows "meas_ok tb'"
proof -
  have at: "meas_at (tb_nt tb') k = (if k \<in> set ks then map_option (\<lambda>m. m\<lparr>me_info := []\<rparr>) (meas_at (tb_nt tb) k)
        else meas_at (tb_nt tb) k)" for k using c by (simp add: cleared_def)
  have "meas_names tb' = meas_names tb" by (auto simp: meas_names_def at)
  then show ?thesis using assms at by (auto simp: meas_ok_def cleared_def split: if_splits)
qed

lemma cleared_sc_ok: "sc_ok tb \<Longrightarrow> cleared ks tb tb' \<Longrightarrow> sc_ok tb'"
  by (auto simp: sc_ok_def cleared_def sc_names_def)

lemma cleared_fib_ok: "fib_ok tb \<Longrightarrow> cleared ks tb tb' \<Longrightarrow> fib_ok tb'"
  by (auto simp: fib_ok_def cleared_def)

section \<open>All tables\<close>

definition tables_ok :: "'a tables_scheme \<Rightarrow> bool" where
  "tables_ok tb \<longleftrightarrow> pit_ok tb \<and> fib_ok tb \<and> meas_ok tb \<and> sc_ok tb"

lemma cleared_tables_ok: "tables_ok tb \<Longrightarrow> cleared ks tb tb' \<Longrightarrow> tables_ok tb'"
  unfolding tables_ok_def using cleared_pit_ok cleared_fib_ok cleared_meas_ok cleared_sc_ok by blast

lemma tables_ok_nt:
  assumes "tables_ok tb" and "nt_ok t" and "fib_at t = fib_at (tb_nt tb)" and "pit_at t = pit_at (tb_nt tb)"
    and "meas_at t = meas_at (tb_nt tb)" and "sc_at t = sc_at (tb_nt tb)"
  shows "tables_ok (tb\<lparr>tb_nt := t\<rparr>)"
  using assms pit_ok_nt [of tb t] by (simp add: tables_ok_def fib_ok_def meas_ok_def meas_names_def sc_ok_def sc_names_def)

lemma tables_ok_lookup:
  "tables_ok tb \<Longrightarrow> l \<le> length n \<Longrightarrow> l \<le> getMaxDepth \<Longrightarrow> tables_ok (tb\<lparr>tb_nt := nt_lookup n l (tb_nt tb)\<rparr>)"
  by (rule tables_ok_nt) (auto simp: tables_ok_def dest: pit_okD(1))

text \<open>Setting or removing the strategy choice entry of a node, with the item counter.\<close>

lemma tables_ok_set_sc:
  assumes ok: "tables_ok tb" and here: "tab_get (tb_nt tb) k \<noteq> None"
    and v: "\<And>e. v = Some e \<Longrightarrow> sc_prefix e = k" and root: "k = [] \<Longrightarrow> v \<noteq> None"
    and n: "n = tb_scItems tb + (if v \<noteq> None then 1 else 0) - (if sc_at (tb_nt tb) k \<noteq> None then 1 else 0)"
    and tb': "tb' = tb\<lparr>tb_nt := setStrategyChoiceEntry k v (tb_nt tb), tb_scItems := n\<rparr>"
  shows "tables_ok tb'" and "sc_at (tb_nt tb') = (sc_at (tb_nt tb))(k := v)"
proof -
  show at: "sc_at (tb_nt tb') = (sc_at (tb_nt tb))(k := v)" using here by (auto simp: tb' fun_eq_iff)
  let ?tb = "tb\<lparr>tb_nt := setStrategyChoiceEntry k v (tb_nt tb)\<rparr>"
  have nt: "nt_ok (tb_nt tb)" using ok by (simp add: tables_ok_def fib_ok_def)
  have "pit_ok ?tb" using ok nt by (intro pit_ok_nt) (auto simp: tables_ok_def fun_eq_iff)
  then have "pit_ok tb'" by (simp add: tb' pit_ok_def get_pit_def)
  moreover have "fib_ok tb'" using ok nt by (simp add: tb' tables_ok_def fib_ok_def)
  moreover have "meas_names tb' = meas_names tb" by (simp add: tb' meas_names_def)
  then have "meas_ok tb'" using ok nt by (simp add: tables_ok_def meas_ok_def) (simp add: tb')
  moreover have "sc_ok tb'"
  proof -
    let ?S = "sc_names tb"
    have names: "sc_names tb' = (if v \<noteq> None then insert k ?S else ?S - {k})"
      by (auto simp: sc_names_def at)
    have mem: "k \<in> ?S \<longleftrightarrow> sc_at (tb_nt tb) k \<noteq> None" by (simp add: sc_names_def)
    have items: "tb_scItems tb = of_nat (card ?S)" using ok by (simp add: tables_ok_def sc_ok_def)
    have fin: "finite ?S" by (rule finite_sc_names)
    have "n = of_nat (card (sc_names tb'))"
    proof (cases "k \<in> ?S")
      case True
      have "card ?S = Suc (card (?S - {k}))" using card_Suc_Diff1 [OF fin True] by simp
      then show ?thesis using True mem names items n by (auto simp: insert_absorb)
    next
      case False
      then show ?thesis using mem names items n fin by auto
    qed
    then show ?thesis
      using ok nt at v root by (auto simp: tables_ok_def sc_ok_def) (auto simp: tb')
  qed
  ultimately show "tables_ok tb'" by (simp add: tables_ok_def)
qed

lemma changeStrategy_frame:
  "sc_at (tb_nt (changeStrategy reg p old new tb)) = sc_at (tb_nt tb)"
  "tb_scItems (changeStrategy reg p old new tb) = tb_scItems tb"
  "tables_ok tb \<Longrightarrow> tables_ok (changeStrategy reg p old new tb)"
  using changeStrategy_cleared [of reg old new p tb] cleared_tables_ok [of tb _ "changeStrategy reg p old new tb"]
  by (auto simp: cleared_def)

text \<open>The nodes governed by the entry of a prefix: no other entry is on the way down to them.\<close>

definition governed :: "name \<Rightarrow> 'a tables_scheme \<Rightarrow> name \<Rightarrow> bool" where
  "governed p tb k \<longleftrightarrow> prefix p k \<and> (\<forall>j. strict_prefix p j \<and> prefix j k \<longrightarrow> sc_at (tb_nt tb) j = None)"

lemma changeStrategy_get_pit:
  assumes "nt_ok (tb_nt tb)" and "length p \<le> getMaxDepth"
  shows "get_pit (changeStrategy reg p old new tb) q =
    (if \<not> areSameType reg (s_instanceName old) (s_instanceName new) \<and>
        (\<exists>k. governed p tb k \<and> q \<in> set (pit_at (tb_nt tb) k))
     then map_option clear_pit_info (get_pit tb q) else get_pit tb q)"
proof -
  have "(\<exists>k \<in> set (changed_nodes p tb). q \<in> set (pit_at (tb_nt tb) k)) \<longleftrightarrow>
      (\<exists>k. governed p tb k \<and> q \<in> set (pit_at (tb_nt tb) k))"
  proof -
    have "tab_get (tb_nt tb) k \<noteq> None" if "q \<in> set (pit_at (tb_nt tb) k)" for k
      using pit_at_present [of "tb_nt tb" k] that by (metis empty_iff list.set(1))
    then show ?thesis using changed_nodes_iff [OF assms] unfolding governed_def by blast
  qed
  then show ?thesis using changeStrategy_cleared [of reg old new p tb] by (auto simp: cleared_def)
qed

text \<open>The shape of a successful insertion.\<close>

lemma StrategyChoice_insert_cases:
  assumes ok: "tables_ok tb"
  obtains (failed) r where "StrategyChoice_insert ti tf reg p sn tb = (r, tb)" "r \<noteq> OK"
  | (same) tb1 s old where "Strategy_create ti tf reg sn = Inr (Some s)" "findEffectiveStrategy p tb = Some old"
      "s_instanceName (sc_strategy old) = s_instanceName s" "tb1 = tb\<lparr>tb_nt := nt_lookup p (length p) (tb_nt tb)\<rparr>" "tables_ok tb1"
      "length p \<le> getMaxDepth" "StrategyChoice_insert ti tf reg p sn tb = (OK, tb1)"
  | (changed) s old tb2 where "Strategy_create ti tf reg sn = Inr (Some s)" "length p \<le> getMaxDepth"
      "findEffectiveStrategy p tb = Some old"
      "StrategyChoice_insert ti tf reg p sn tb = (OK, tb2)" "tables_ok tb2"
      "sc_at (tb_nt tb2) = (sc_at (tb_nt tb))(p := Some \<lparr>sc_prefix = p, sc_strategy = s\<rparr>)"
      "\<And>q. get_pit tb2 q =
        (if \<not> areSameType reg (s_instanceName (sc_strategy old)) (s_instanceName s) \<and>
            (\<exists>k. governed p tb k \<and> q \<in> set (pit_at (tb_nt tb) k))
         then map_option clear_pit_info (get_pit tb q) else get_pit tb q)"
proof -
  define tb1 where "tb1 = tb\<lparr>tb_nt := nt_lookup p (length p) (tb_nt tb)\<rparr>"
  show thesis
  proof (cases "length p \<le> getMaxDepth \<and> (\<exists>s. Strategy_create ti tf reg sn = Inr (Some s))")
    case False
    then show thesis
      by (intro failed [of "fst (StrategyChoice_insert ti tf reg p sn tb)"])
        (auto simp: StrategyChoice_insert_def split: sum.splits option.splits)
  next
    case True
    then obtain s where len: "length p \<le> getMaxDepth" and s: "Strategy_create ti tf reg sn = Inr (Some s)" by blast
    have nt: "nt_ok (tb_nt tb)" using ok by (simp add: tables_ok_def fib_ok_def)
    have ok1: "tables_ok tb1" unfolding tb1_def using ok len by (intro tables_ok_lookup) simp_all
    have sc1: "sc_at (tb_nt tb1) = sc_at (tb_nt tb)" "tb_scItems tb1 = tb_scItems tb" by (simp_all add: tb1_def)
    have here: "tab_get (tb_nt tb1) p \<noteq> None" using nt_lookup_self [OF nt len] by (simp add: tb1_def)
    obtain old where old: "findEffectiveStrategy p tb = Some old" "effective p tb old"
      using findEffectiveStrategy_spec [of tb p] ok by (auto simp: tables_ok_def)
    have old1: "findEffectiveStrategy p tb1 = Some old"
    proof -
      obtain old' where o: "findEffectiveStrategy p tb1 = Some old'" "effective p tb1 old'"
        using findEffectiveStrategy_spec [of tb1 p] ok1 by (auto simp: tables_ok_def)
      then have "effective p tb old'" by (simp add: effective_def sc1)
      then show ?thesis using effective_unique [OF old(2)] o(1) by blast
    qed
    show thesis
    proof (cases "sc_at (tb_nt tb1) p")
      case None
      define tb2 where "tb2 = sc_setStrategy p s (tb1\<lparr>tb_scItems := tb_scItems tb1 + 1\<rparr>)"
      have tb2: "tb2 = tb1\<lparr>tb_nt := setStrategyChoiceEntry p (Some \<lparr>sc_prefix = p, sc_strategy = s\<rparr>) (tb_nt tb1),
          tb_scItems := tb_scItems tb1 + 1\<rparr>" by (simp add: tb2_def sc_setStrategy_def)
      note set2 = tables_ok_set_sc [OF ok1 here _ _ _ tb2]
      have ok2: "tables_ok tb2" by (rule set2(1)) (simp_all add: None)
      have at2: "sc_at (tb_nt tb2) = (sc_at (tb_nt tb1))(p := Some \<lparr>sc_prefix = p, sc_strategy = s\<rparr>)"
        by (rule set2(2)) (simp_all add: None)
      have "StrategyChoice_insert ti tf reg p sn tb = (OK, changeStrategy reg p (sc_strategy old) s tb2)"
        using len s None old1 by (simp add: StrategyChoice_insert_def Let_def tb1_def [symmetric] tb2_def)
      moreover have "get_pit (changeStrategy reg p (sc_strategy old) s tb2) q =
        (if \<not> areSameType reg (s_instanceName (sc_strategy old)) (s_instanceName s) \<and>
            (\<exists>k. governed p tb k \<and> q \<in> set (pit_at (tb_nt tb) k))
         then map_option clear_pit_info (get_pit tb q) else get_pit tb q)" for q
      proof -
        have nt2: "nt_ok (tb_nt tb2)" using ok2 by (simp add: tables_ok_def fib_ok_def)
        have g: "governed p tb2 = governed p tb" "pit_at (tb_nt tb2) = pit_at (tb_nt tb)" "get_pit tb2 = get_pit tb"
          using at2 sc1 by (auto simp: governed_def fun_eq_iff) (auto simp: tb2 tb1_def get_pit_def)
        show ?thesis by (simp only: changeStrategy_get_pit [OF nt2 len] g)
      qed
      ultimately show thesis
        using changed [OF s len old(1) _ changeStrategy_frame(3) [OF ok2]] at2 sc1
        by (simp add: changeStrategy_frame)
    next
      case (Some entry)
      have "effective p tb entry"
        using Some sc1 ok by (auto simp: effective_def tables_ok_def sc_ok_def dest: prefix_length_le)
      then have "entry = old" by (rule effective_unique [OF _ old(2)])
      show thesis
      proof (cases "s_instanceName (sc_strategy entry) = s_instanceName s")
        case True
        then have "StrategyChoice_insert ti tf reg p sn tb = (OK, tb1)"
          using len s Some by (simp add: StrategyChoice_insert_def Let_def tb1_def [symmetric])
        then show thesis using same [OF s old(1) _ tb1_def ok1 len] True \<open>entry = old\<close> by blast
      next
        case False
        define tb2 where "tb2 = changeStrategy reg p (sc_strategy entry) s tb1"
        have ok2: "tables_ok tb2" unfolding tb2_def by (rule changeStrategy_frame(3) [OF ok1])
        have at2: "sc_at (tb_nt tb2) = sc_at (tb_nt tb1)" unfolding tb2_def by (rule changeStrategy_frame)
        have here2: "tab_get (tb_nt tb2) p \<noteq> None" using sc_at_present Some at2 by metis
        note set2 = tables_ok_set_sc [OF ok2 here2, of "Some \<lparr>sc_prefix = p, sc_strategy = s\<rparr>" "tb_scItems tb2", OF _ _ _ refl]
        have eq: "sc_setStrategy p s tb2 = tb2\<lparr>tb_nt := setStrategyChoiceEntry p
            (Some \<lparr>sc_prefix = p, sc_strategy = s\<rparr>) (tb_nt tb2), tb_scItems := tb_scItems tb2\<rparr>"
          by (simp add: sc_setStrategy_def)
        have "StrategyChoice_insert ti tf reg p sn tb = (OK, sc_setStrategy p s tb2)"
          using len s Some False by (simp add: StrategyChoice_insert_def Let_def tb1_def [symmetric] tb2_def)
        moreover have "tables_ok (sc_setStrategy p s tb2)"
          unfolding eq by (rule set2(1)) (simp_all add: at2 Some)
        moreover have "sc_at (tb_nt (sc_setStrategy p s tb2)) =
            (sc_at (tb_nt tb2))(p := Some \<lparr>sc_prefix = p, sc_strategy = s\<rparr>)"
          unfolding eq by (rule set2(2)) (simp_all add: at2 Some)
        moreover have "get_pit (sc_setStrategy p s tb2) q =
          (if \<not> areSameType reg (s_instanceName (sc_strategy old)) (s_instanceName s) \<and>
              (\<exists>k. governed p tb k \<and> q \<in> set (pit_at (tb_nt tb) k))
           then map_option clear_pit_info (get_pit tb q) else get_pit tb q)" for q
        proof -
          have nt1: "nt_ok (tb_nt tb1)" using ok1 by (simp add: tables_ok_def fib_ok_def)
          have g: "governed p tb1 = governed p tb" "pit_at (tb_nt tb1) = pit_at (tb_nt tb)" "get_pit tb1 = get_pit tb"
            using sc1 by (auto simp: governed_def fun_eq_iff) (auto simp: tb1_def)
          have "get_pit (sc_setStrategy p s tb2) = get_pit tb2" by (simp add: sc_setStrategy_def)
          then show ?thesis by (simp only: tb2_def changeStrategy_get_pit [OF nt1 len] g \<open>entry = old\<close>)
        qed
        ultimately show thesis using changed [OF s len old(1)] at2 sc1 by simp
      qed
    qed
  qed
qed

lemma StrategyChoice_insert_ok: "tables_ok tb \<Longrightarrow> tables_ok (snd (StrategyChoice_insert ti tf reg p sn tb))"
  by (rule StrategyChoice_insert_cases [where ti = ti and tf = tf and reg = reg and p = p and sn = sn]) auto

lemma StrategyChoice_erase_ok:
  assumes ok: "tables_ok tb" and p: "p \<noteq> []"
  shows "tables_ok (StrategyChoice_erase reg p tb)"
proof (cases "length p \<le> getMaxDepth \<and> sc_at (tb_nt tb) p \<noteq> None")
  case False
  then have "StrategyChoice_erase reg p tb = tb"
    by (auto simp: StrategyChoice_erase_def findExactMatch_def Let_def split: option.splits)
  then show ?thesis using ok by simp
next
  case True
  then obtain entry where e: "sc_at (tb_nt tb) p = Some entry" and len: "length p \<le> getMaxDepth" by auto
  obtain par where par: "findEffectiveStrategy (getPrefix p (- 1)) tb = Some par"
    using findEffectiveStrategy_spec [of tb "getPrefix p (- 1)"] ok by (auto simp: tables_ok_def)
  define tb1 where "tb1 = changeStrategy reg p (sc_strategy entry) (sc_strategy par) tb"
  have ok1: "tables_ok tb1" unfolding tb1_def by (rule changeStrategy_frame(3) [OF ok])
  have at1: "sc_at (tb_nt tb1) = sc_at (tb_nt tb)" unfolding tb1_def by (rule changeStrategy_frame)
  have here: "tab_get (tb_nt tb1) p \<noteq> None" using sc_at_present e at1 by metis
  define tb2 where "tb2 = tb1\<lparr>tb_nt := setStrategyChoiceEntry p None (tb_nt tb1), tb_scItems := tb_scItems tb1 - 1\<rparr>"
  have ok2: "tables_ok tb2"
    by (rule tables_ok_set_sc(1) [OF ok1 here _ _ _ tb2_def]) (use e p at1 in simp_all)
  have "tab_get (tb_nt tb) p \<noteq> None" using sc_at_present e by blast
  then have "StrategyChoice_erase reg p tb = tb2\<lparr>tb_nt := fst (eraseIfEmpty p True (tb_nt tb2))\<rparr>"
    using e len par by (auto simp: StrategyChoice_erase_def findExactMatch_def Let_def tb2_def tb1_def)
  moreover have "tables_ok (tb2\<lparr>tb_nt := fst (eraseIfEmpty p True (tb_nt tb2))\<rparr>)"
    using ok2 by (intro tables_ok_nt) (simp_all add: tables_ok_def fib_ok_def)
  ultimately show ?thesis by simp
qed

section \<open>Properties\<close>

datatype sc_op = ScInsert name name | ScErase name

fun sc_step :: "(byte list \<Rightarrow> int option) \<Rightarrow> (byte list \<Rightarrow> (int \<times> int) option) \<Rightarrow> registry \<Rightarrow> sc_op \<Rightarrow>
    'a tables_scheme \<Rightarrow> 'a tables_scheme" where
  "sc_step ti tf reg (ScInsert p sn) tb = snd (StrategyChoice_insert ti tf reg p sn tb)"
| "sc_step ti tf reg (ScErase p) tb = StrategyChoice_erase reg p tb"

lemma sc_step_ok: "tables_ok tb \<Longrightarrow> op \<noteq> ScErase [] \<Longrightarrow> tables_ok (sc_step ti tf reg op tb)"
  by (cases op) (simp_all add: StrategyChoice_insert_ok StrategyChoice_erase_ok)

text \<open>C30: whatever choices are inserted and erased after the default strategy was set, except
  erasing the default itself, every name has an effective strategy: that of the longest of its
  prefixes with a choice.\<close>

theorem effective_strategy_exists:
  fixes tb :: "'a tables_scheme"
  assumes "tables_ok tb" and "list_all (\<lambda>op. op \<noteq> ScErase []) ops"
  shows "\<exists>e. findEffectiveStrategy n (fold (sc_step ti tf reg) ops tb) = Some e \<and>
    effective n (fold (sc_step ti tf reg) ops tb) e"
proof -
  have "tables_ok (fold (sc_step ti tf reg) ops tb)"
  proof (rule fold_inv [where P = tables_ok, OF assms(1)])
    fix op s assume "op \<in> set ops" "tables_ok (s :: 'a tables_scheme)"
    then show "tables_ok (sc_step ti tf reg op s)"
      using assms(2) by (intro sc_step_ok) (auto simp: list_all_iff)
  qed
  then show ?thesis using findEffectiveStrategy_spec by (auto simp: tables_ok_def)
qed

definition best_route_instance :: strategy where
  "best_route_instance = \<lparr>s_kind = BestRoute, s_instanceName = getStrategyName BestRoute, s_initialInterval = 10,
     s_maxInterval = 250, s_multiplier = (2, 1)\<rparr>"

definition default_tables :: tables where
  "default_tables = setDefaultStrategy best_route_instance no_tables"

lemma default_at: "sc_at (tb_nt default_tables) k =
    (if k = [] then Some \<lparr>sc_prefix = [], sc_strategy = best_route_instance\<rparr> else None)"
  "fib_at (tb_nt default_tables) k = None" "pit_at (tb_nt default_tables) k = []"
  "meas_at (tb_nt default_tables) k = None" "get_pit default_tables pid = None"
  by (simp_all add: default_tables_def setDefaultStrategy_def nt_lookup_def lookup_step_def ht_insert_def
      no_tables_def setStrategyChoiceEntry_def tab_modify_def view_defs get_pit_def)

lemma default_tables_ok: "tables_ok default_tables"
proof -
  have nt: "nt_ok (tb_nt default_tables)"
    by (simp add: default_tables_def setDefaultStrategy_def no_tables_def nt_ok_def [of "[]"])
  have "sc_names default_tables = {[]}" by (auto simp: sc_names_def default_at)
  moreover have "tb_scItems default_tables = 1" "tb_measItems default_tables = 0" "tb_pits default_tables = []"
    by (simp_all add: default_tables_def setDefaultStrategy_def no_tables_def)
  ultimately show ?thesis
    using nt by (simp add: tables_ok_def pit_ok_def fib_ok_def meas_ok_def sc_ok_def default_at meas_names_def)
qed

theorem effective_strategy_exists_witness:
  "\<exists>e. findEffectiveStrategy [Component 8 [65]]
     (fold (sc_step (\<lambda>_. None) (\<lambda>_. None) strategy_registry)
        [ScInsert [Component 8 [65]] (strategy_prefix ''kite''), ScErase [Component 8 [65]]] default_tables) = Some e"
  using effective_strategy_exists [OF default_tables_ok, of
      "[ScInsert [Component 8 [65]] (strategy_prefix ''kite''), ScErase [Component 8 [65]]]"
      "[Component 8 [65]]" "\<lambda>_. None" "\<lambda>_. None" strategy_registry] by auto

text \<open>C31: when a strategy of another type is chosen for a prefix, the strategy information on the
  PIT entries the choice governs, and on their records, is cleared, and no other PIT entry
  is touched.\<close>

theorem strategy_change_clears_info:
  assumes "tables_ok tb" and "Strategy_create ti tf reg sn = Inr (Some s)"
    and "StrategyChoice_insert ti tf reg p sn tb = (OK, tb')"
    and "findEffectiveStrategy p tb = Some old"
    and "\<not> areSameType reg (s_instanceName (sc_strategy old)) (s_instanceName s)"
    and "get_pit tb pid = Some e" and "pe_nte e = Some k"
  shows "get_pit tb' pid = Some (if governed p tb k then clear_pit_info e else e)"
  using assms(1)
proof (cases rule: StrategyChoice_insert_cases [where ti = ti and tf = tf and reg = reg and p = p and sn = sn])
  case (changed s' old' tb2)
  have "(\<exists>j. governed p tb j \<and> pid \<in> set (pit_at (tb_nt tb) j)) \<longleftrightarrow> governed p tb k"
    using pit_okD(4) [of tb pid] assms(1,6,7) by (auto simp: tables_ok_def)
  then show ?thesis using changed(1,3,4,7) assms(2-6) by auto
next
  case (failed r)
  then show ?thesis using assms(3) by simp
next
  case (same tb1 s' old')
  then show ?thesis using assms(2,4,5) by (simp add: areSameType_def)
qed

definition marked_tables :: tables where
  "marked_tables = update_pit 0 (\<lambda>e. e\<lparr>pe_info := [(1020, PitInfo 10)]\<rparr>) (snd (snd (Pit_insert interest_a default_tables)))"

lemma pit_insert_tables_ok:
  assumes "tables_ok tb"
  shows "tables_ok (snd (snd (Pit_insert i tb)))"
proof -
  have pit: "pit_ok tb" using assms by (simp add: tables_ok_def)
  have ok': "pit_ok (snd (snd (Pit_insert i tb)))" by (rule Pit_insert_ok [OF pit])
  let ?tb = "snd (snd (Pit_insert i tb))"
  from pit have "fib_at (tb_nt ?tb) = fib_at (tb_nt tb) \<and> meas_at (tb_nt ?tb) = meas_at (tb_nt tb) \<and>
      sc_at (tb_nt ?tb) = sc_at (tb_nt tb) \<and> tb_fibItems ?tb = tb_fibItems tb \<and>
      tb_measItems ?tb = tb_measItems tb \<and> tb_scItems ?tb = tb_scItems tb"
    by (rule Pit_insert_cases [where i = i]) (auto simp: fun_eq_iff)
  then show ?thesis
    using assms ok' pit_okD(1) [OF ok']
    by (simp add: tables_ok_def fib_ok_def meas_ok_def sc_ok_def meas_names_def sc_names_def)
qed

lemma update_pit_tables_ok:
  assumes "tables_ok tb" and "\<And>e. pe_interest (f e) = pe_interest e" "\<And>e. pe_nte (f e) = pe_nte e"
    and "\<And>e. pit_entry_ok e \<Longrightarrow> pit_entry_ok (f e)"
  shows "tables_ok (update_pit pid f tb)"
proof -
  have "pit_ok (update_pit pid f tb)"
    using assms by (intro pit_ok_update) (auto simp: tables_ok_def)
  then show ?thesis
    using assms(1) by (simp add: tables_ok_def fib_ok_def meas_ok_def sc_ok_def meas_names_def sc_names_def)
qed

lemma instances_differ:
  "\<not> areSameType strategy_registry (s_instanceName best_route_instance) (s_instanceName kite_instance)"
  by code_simp

theorem strategy_change_clears_info_witness:
  "\<exists>e tb' e'. get_pit marked_tables 0 = Some e \<and> pe_info e \<noteq> [] \<and>
     StrategyChoice_insert (\<lambda>_. None) (\<lambda>_. None) strategy_registry [] (strategy_prefix ''kite'') marked_tables = (OK, tb') \<and>
     get_pit tb' 0 = Some e' \<and> pe_info e' = []"
proof -
  have ok0: "tables_ok (snd (snd (Pit_insert interest_a default_tables)))"
    by (rule pit_insert_tables_ok [OF default_tables_ok])
  have ok: "tables_ok marked_tables"
    unfolding marked_tables_def by (rule update_pit_tables_ok [OF ok0]) (simp_all add: pit_entry_ok_def)
  have pit0: "pit_ok default_tables" using default_tables_ok by (simp add: tables_ok_def)
  have sc: "sc_at (tb_nt marked_tables) = sc_at (tb_nt default_tables)"
    using pit0 by (rule Pit_insert_cases [where i = interest_a]) (auto simp: marked_tables_def fun_eq_iff)
  have "get_pit (snd (snd (Pit_insert interest_a default_tables))) 0 \<noteq> None"
    using pit0
  proof (rule Pit_insert_cases [where i = interest_a])
    fix pid e assume "get_pit default_tables pid = Some e"
    then show ?thesis by (simp add: default_at)
  qed (auto simp: get_pit_def default_tables_def setDefaultStrategy_def no_tables_def)
  then obtain e where e: "get_pit marked_tables 0 = Some e" "pe_info e \<noteq> []"
    by (auto simp: marked_tables_def)
  obtain k where k: "pe_nte e = Some k" using pit_okD(7) [of marked_tables 0 e] ok e by (auto simp: tables_ok_def)
  obtain old where old: "findEffectiveStrategy [] marked_tables = Some old" "effective [] marked_tables old"
    using findEffectiveStrategy_spec [of marked_tables "[]"] ok by (auto simp: tables_ok_def)
  have "sc_strategy old = best_route_instance"
    using old(2) by (auto simp: effective_def sc default_at)
  then have diff: "\<not> areSameType strategy_registry (s_instanceName (sc_strategy old)) (s_instanceName kite_instance)"
    using instances_differ by simp
  obtain tb' where ins: "StrategyChoice_insert (\<lambda>_. None) (\<lambda>_. None) strategy_registry [] (strategy_prefix ''kite'') marked_tables = (OK, tb')"
    by (cases "s_instanceName best_route_instance = s_instanceName kite_instance")
      (auto simp: StrategyChoice_insert_def create_kite Let_def sc default_at)
  have "get_pit tb' 0 = Some (clear_pit_info e)"
    using strategy_change_clears_info [OF ok create_kite ins old(1) diff e(1) k]
    by (simp add: governed_def sc default_at strict_prefix_def)
  then show ?thesis using e ins by auto
qed

end
