(* ===== verification/Content_Store.thy ===== *)
theory Content_Store
  imports Table_Entries "HOL-Library.Option_ord" "HOL-Library.Product_Lexorder"
begin

text \<open>
  The content store (\<^verbatim>\<open>cs.cpp\<close>, \<^verbatim>\<open>cs-entry.cpp\<close>) with its replacement policies
  (\<^verbatim>\<open>cs-policy.cpp\<close>, \<^verbatim>\<open>cs-policy-lru.cpp\<close>, \<^verbatim>\<open>cs-policy-priority-fifo.cpp\<close>).  The table
  is the sorted list of entries a \<^verbatim>\<open>std::set\<close> holds; an iterator to an entry is
  represented by the full name of the entry, which is unique in the table.
\<close>

named_theorems cs_laws

section \<open>Entries\<close>

record cs_entry =
  ce_data :: data
  ce_unsolicited :: bool
  ce_freshUntil :: int

definition updateFreshUntil :: "int \<Rightarrow> cs_entry \<Rightarrow> cs_entry" where
  "updateFreshUntil now e = e\<lparr>ce_freshUntil := now + ms (d_freshness (ce_data e))\<rparr>"

definition CsEntry_new :: "int \<Rightarrow> data \<Rightarrow> bool \<Rightarrow> cs_entry" where
  "CsEntry_new now d isUnsolicited =
     updateFreshUntil now \<lparr>ce_data = d, ce_unsolicited = isUnsolicited, ce_freshUntil = time_point_min\<rparr>"

definition isFresh :: "int \<Rightarrow> cs_entry \<Rightarrow> bool" where
  "isFresh now e \<longleftrightarrow> now \<le> ce_freshUntil e"

definition clearUnsolicited :: "cs_entry \<Rightarrow> cs_entry" where
  "clearUnsolicited e = e\<lparr>ce_unsolicited := False\<rparr>"

definition canSatisfy :: "int \<Rightarrow> interest \<Rightarrow> cs_entry \<Rightarrow> bool" where
  "canSatisfy now i e =
     (if \<not> matchesData i (ce_data e) then False
      else if i_mustBeFresh i \<and> \<not> isFresh now e then False
      else True)"

definition compareQueryWithData :: "name \<Rightarrow> data \<Rightarrow> int" where
  "compareQueryWithData q d =
     (let queryIsFullName = (q \<noteq> [] \<and> isImplicitSha256Digest (name_get q (- 1)));
          cmp = (if queryIsFullName
                 then name_compare q 0 (length q - 1) (d_name d) 0 (length (d_name d))
                 else name_compare q 0 (length q) (d_name d) 0 (length (d_name d)))
      in if cmp \<noteq> 0 then cmp
         else if queryIsFullName then compare_fields (name_get q (- 1)) (name_get (getFullName d) (- 1))
         else - 1)"

definition compareDataWithData :: "data \<Rightarrow> data \<Rightarrow> int" where
  "compareDataWithData lhs rhs =
     (let cmp = name_compare (d_name lhs) 0 (length (d_name lhs)) (d_name rhs) 0 (length (d_name rhs)) in
      if cmp \<noteq> 0 then cmp
      else compare_fields (name_get (getFullName lhs) (- 1)) (name_get (getFullName rhs) (- 1)))"

definition entry_less_query :: "cs_entry \<Rightarrow> name \<Rightarrow> bool" where
  "entry_less_query e q \<longleftrightarrow> compareQueryWithData q (ce_data e) > 0"

definition entry_less :: "cs_entry \<Rightarrow> cs_entry \<Rightarrow> bool" where
  "entry_less e e' \<longleftrightarrow> compareDataWithData (ce_data e) (ce_data e') < 0"

definition ce_key :: "cs_entry \<Rightarrow> name" where
  "ce_key e = getFullName (ce_data e)"

section \<open>The table\<close>

text \<open>\<^verbatim>\<open>std::set::emplace\<close>: an entry that is already there is kept.\<close>

fun cs_emplace :: "cs_entry \<Rightarrow> cs_entry list \<Rightarrow> cs_entry list \<times> bool" where
  "cs_emplace e [] = ([e], True)"
| "cs_emplace e (x # xs) =
     (if entry_less x e then (let (xs', isNew) = cs_emplace e xs in (x # xs', isNew))
      else if entry_less e x then (e # x # xs, True)
      else (x # xs, False))"

definition cs_modify :: "name \<Rightarrow> (cs_entry \<Rightarrow> cs_entry) \<Rightarrow> cs_entry list \<Rightarrow> cs_entry list" where
  "cs_modify k f t = map (\<lambda>e. if ce_key e = k then f e else e) t"

definition cs_remove :: "name \<Rightarrow> cs_entry list \<Rightarrow> cs_entry list" where
  "cs_remove k t = filter (\<lambda>e. ce_key e \<noteq> k) t"

definition cs_at :: "name \<Rightarrow> cs_entry list \<Rightarrow> cs_entry option" where
  "cs_at k t = find (\<lambda>e. ce_key e = k) t"

definition lower_bound :: "name \<Rightarrow> cs_entry list \<Rightarrow> nat" where
  "lower_bound q t = length (takeWhile (\<lambda>e. entry_less_query e q) t)"

definition findPrefixRange :: "name \<Rightarrow> cs_entry list \<Rightarrow> nat \<times> nat" where
  "findPrefixRange p t =
     (lower_bound p t,
      if length p > 0 then lower_bound (name_getSuccessor p) t else length t)"

definition range_entries :: "name \<Rightarrow> cs_entry list \<Rightarrow> cs_entry list" where
  "range_entries p t = (let (first, last) = findPrefixRange p t in take (last - first) (drop first t))"

section \<open>Replacement policies\<close>

text \<open>\<^verbatim>\<open>LruPolicy\<close>: one queue, least recently used first.  Pushing a reference that is in
  the queue has no effect; relocating moves it to the end.\<close>

definition insertToQueue :: "name \<Rightarrow> bool \<Rightarrow> name list \<Rightarrow> name list" where
  "insertToQueue i isNewEntry q =
     (let q' = (if i \<in> set q then q else q @ [i]) in
      if \<not> isNewEntry then remove1 i q' @ [i] else q')"

definition lru_attach :: "int \<Rightarrow> cs_entry \<Rightarrow> name list \<Rightarrow> name list" where
  "lru_attach now e q = insertToQueue (ce_key e) True q"

definition lru_doAfterRefresh :: "int \<Rightarrow> cs_entry \<Rightarrow> name list \<Rightarrow> name list" where
  "lru_doAfterRefresh now e q = insertToQueue (ce_key e) False q"

definition lru_doBeforeErase :: "name \<Rightarrow> name list \<Rightarrow> name list" where
  "lru_doBeforeErase i q = remove1 i q"

definition lru_doBeforeUse :: "name \<Rightarrow> name list \<Rightarrow> name list" where
  "lru_doBeforeUse i q = insertToQueue i False q"

fun lru_evictEntries :: "nat \<Rightarrow> name list \<Rightarrow> cs_entry list \<Rightarrow> name list \<times> cs_entry list" where
  "lru_evictEntries limit [] t = ([], t)"
| "lru_evictEntries limit (i # q) t =
     (if length t > limit then lru_evictEntries limit q (cs_remove i t) else (i # q, t))"

text \<open>\<^verbatim>\<open>PriorityFifoPolicy\<close>: three queues, and for every entry the queue it is in and the time
  at which it moves to the stale queue.\<close>

datatype queue_type = QUEUE_UNSOLICITED | QUEUE_STALE | QUEUE_FIFO

record pf_queues =
  pf_unsolicited :: "name list"
  pf_stale :: "name list"
  pf_fifo :: "name list"
  pf_info :: "(name \<times> queue_type \<times> int option) list"

fun pf_update :: "queue_type \<Rightarrow> (name list \<Rightarrow> name list) \<Rightarrow> pf_queues \<Rightarrow> pf_queues" where
  "pf_update QUEUE_UNSOLICITED f q = q\<lparr>pf_unsolicited := f (pf_unsolicited q)\<rparr>"
| "pf_update QUEUE_STALE f q = q\<lparr>pf_stale := f (pf_stale q)\<rparr>"
| "pf_update QUEUE_FIFO f q = q\<lparr>pf_fifo := f (pf_fifo q)\<rparr>"

definition attachQueue :: "int \<Rightarrow> cs_entry \<Rightarrow> pf_queues \<Rightarrow> pf_queues" where
  "attachQueue now e q =
     (let i = ce_key e;
          (queueType, moveStaleEvent) =
            (if ce_unsolicited e then (QUEUE_UNSOLICITED, None)
             else if \<not> isFresh now e then (QUEUE_STALE, None)
             else (QUEUE_FIFO, Some (now + ms (d_freshness (ce_data e)))));
          q' = pf_update queueType (\<lambda>xs. xs @ [i]) q
      in q'\<lparr>pf_info := tab_put i (queueType, moveStaleEvent) (pf_info q')\<rparr>)"

definition detachQueue :: "name \<Rightarrow> pf_queues \<Rightarrow> pf_queues" where
  "detachQueue i q =
     (case tab_get (pf_info q) i of
        None \<Rightarrow> q
      | Some (queueType, _) \<Rightarrow>
          (let q' = pf_update queueType (remove1 i) q in q'\<lparr>pf_info := tab_del i (pf_info q')\<rparr>))"

definition pf_doAfterRefresh :: "int \<Rightarrow> cs_entry \<Rightarrow> pf_queues \<Rightarrow> pf_queues" where
  "pf_doAfterRefresh now e q = attachQueue now e (detachQueue (ce_key e) q)"

definition pf_doBeforeUse :: "name \<Rightarrow> pf_queues \<Rightarrow> pf_queues" where
  "pf_doBeforeUse i q = q"

definition moveToStaleQueue :: "name \<Rightarrow> pf_queues \<Rightarrow> pf_queues" where
  "moveToStaleQueue i q =
     (case tab_get (pf_info q) i of
        None \<Rightarrow> q
      | Some _ \<Rightarrow>
          (let q' = pf_update QUEUE_STALE (\<lambda>xs. xs @ [i]) (pf_update QUEUE_FIFO (remove1 i) q)
           in q'\<lparr>pf_info := tab_put i (QUEUE_STALE, None) (pf_info q')\<rparr>))"

definition pf_front :: "pf_queues \<Rightarrow> name option" where
  "pf_front q =
     (if pf_unsolicited q \<noteq> [] then Some (hd (pf_unsolicited q))
      else if pf_stale q \<noteq> [] then Some (hd (pf_stale q))
      else if pf_fifo q \<noteq> [] then Some (hd (pf_fifo q))
      else None)"

definition evictOne :: "pf_queues \<Rightarrow> cs_entry list \<Rightarrow> pf_queues \<times> cs_entry list" where
  "evictOne q t =
     (case pf_front q of None \<Rightarrow> (q, t) | Some i \<Rightarrow> (detachQueue i q, cs_remove i t))"

text \<open>The loop of \<^verbatim>\<open>evictEntries\<close>; every round removes an entry, so as many rounds as
  there are entries are enough.\<close>

fun pf_evict_loop :: "nat \<Rightarrow> nat \<Rightarrow> pf_queues \<Rightarrow> cs_entry list \<Rightarrow> pf_queues \<times> cs_entry list" where
  "pf_evict_loop 0 limit q t = (q, t)"
| "pf_evict_loop (Suc fuel) limit q t =
     (if length t > limit then (let (q', t') = evictOne q t in pf_evict_loop fuel limit q' t')
      else (q, t))"

definition pf_evictEntries :: "nat \<Rightarrow> pf_queues \<Rightarrow> cs_entry list \<Rightarrow> pf_queues \<times> cs_entry list" where
  "pf_evictEntries limit q t = pf_evict_loop (length t) limit q t"

definition pf_empty :: pf_queues where
  "pf_empty = \<lparr>pf_unsolicited = [], pf_stale = [], pf_fifo = [], pf_info = []\<rparr>"

text \<open>The policy object of the store; calls are dispatched on its class.\<close>

datatype policy = LruPolicy "name list" | PriorityFifoPolicy pf_queues

fun policy_attach :: "int \<Rightarrow> cs_entry \<Rightarrow> policy \<Rightarrow> policy" where
  "policy_attach now e (LruPolicy q) = LruPolicy (lru_attach now e q)"
| "policy_attach now e (PriorityFifoPolicy q) = PriorityFifoPolicy (attachQueue now e q)"

fun doAfterRefresh :: "int \<Rightarrow> cs_entry \<Rightarrow> policy \<Rightarrow> policy" where
  "doAfterRefresh now e (LruPolicy q) = LruPolicy (lru_doAfterRefresh now e q)"
| "doAfterRefresh now e (PriorityFifoPolicy q) = PriorityFifoPolicy (pf_doAfterRefresh now e q)"

fun doBeforeErase :: "name \<Rightarrow> policy \<Rightarrow> policy" where
  "doBeforeErase i (LruPolicy q) = LruPolicy (lru_doBeforeErase i q)"
| "doBeforeErase i (PriorityFifoPolicy q) = PriorityFifoPolicy (detachQueue i q)"

fun doBeforeUse :: "name \<Rightarrow> policy \<Rightarrow> policy" where
  "doBeforeUse i (LruPolicy q) = LruPolicy (lru_doBeforeUse i q)"
| "doBeforeUse i (PriorityFifoPolicy q) = PriorityFifoPolicy (pf_doBeforeUse i q)"

fun evictEntries :: "nat \<Rightarrow> policy \<Rightarrow> cs_entry list \<Rightarrow> policy \<times> cs_entry list" where
  "evictEntries limit (LruPolicy q) t =
     (let (q', t') = lru_evictEntries limit q t in (LruPolicy q', t'))"
| "evictEntries limit (PriorityFifoPolicy q) t =
     (let (q', t') = pf_evictEntries limit q t in (PriorityFifoPolicy q', t'))"

definition doAfterInsert ::
  "int \<Rightarrow> nat \<Rightarrow> cs_entry \<Rightarrow> policy \<Rightarrow> cs_entry list \<Rightarrow> policy \<times> cs_entry list" where
  "doAfterInsert now limit e p t = evictEntries limit (policy_attach now e p) t"

section \<open>The content store\<close>

record cs =
  cs_table :: "cs_entry list"
  cs_limit :: nat
  cs_policy :: policy
  cs_shouldAdmit :: bool
  cs_shouldServe :: bool

definition Cs_new :: "nat \<Rightarrow> cs" where
  "Cs_new nMaxPackets =
     \<lparr>cs_table = [], cs_limit = nMaxPackets, cs_policy = LruPolicy [], cs_shouldAdmit = True,
      cs_shouldServe = True\<rparr>"

definition Cs_insert :: "int \<Rightarrow> data \<Rightarrow> bool \<Rightarrow> cs \<Rightarrow> cs" where
  "Cs_insert now d isUnsolicited s =
     (if \<not> cs_shouldAdmit s \<or> cs_limit s = 0 then s
      else if d_noCache d then s
      else
        let k = getFullName d;
            (t, isNewEntry) = cs_emplace (CsEntry_new now d isUnsolicited) (cs_table s);
            t1 = cs_modify k (updateFreshUntil now) t
        in if \<not> isNewEntry then
             (let t2 = cs_modify k (\<lambda>e. if ce_unsolicited e \<and> \<not> isUnsolicited
                                        then clearUnsolicited e else e) t1
              in case cs_at k t2 of
                   None \<Rightarrow> s\<lparr>cs_table := t2\<rparr>
                 | Some e \<Rightarrow> s\<lparr>cs_table := t2, cs_policy := doAfterRefresh now e (cs_policy s)\<rparr>)
           else
             (case cs_at k t1 of
                None \<Rightarrow> s\<lparr>cs_table := t1\<rparr>
              | Some e \<Rightarrow>
                  (let (p, t') = doAfterInsert now (cs_limit s) e (cs_policy s) t1
                   in s\<lparr>cs_table := t', cs_policy := p\<rparr>)))"

text \<open>\<^verbatim>\<open>eraseImpl\<close>: the first \<^verbatim>\<open>limit\<close> entries of the range leave the policy and the table.\<close>

definition Cs_erase :: "name \<Rightarrow> nat \<Rightarrow> cs \<Rightarrow> cs \<times> nat" where
  "Cs_erase p limit s =
     (let victims = take limit (range_entries p (cs_table s)) in
      (fold (\<lambda>e s. s\<lparr>cs_policy := doBeforeErase (ce_key e) (cs_policy s),
                      cs_table := cs_remove (ce_key e) (cs_table s)\<rparr>) victims s,
       length victims))"

definition Cs_find :: "int \<Rightarrow> interest \<Rightarrow> cs \<Rightarrow> data option \<times> cs" where
  "Cs_find now i s =
     (if \<not> cs_shouldServe s \<or> cs_limit s = 0 then (None, s)
      else case find (canSatisfy now i) (range_entries (i_name i) (cs_table s)) of
             None \<Rightarrow> (None, s)
           | Some e \<Rightarrow> (Some (ce_data e), s\<lparr>cs_policy := doBeforeUse (ce_key e) (cs_policy s)\<rparr>))"

definition Cs_setLimit :: "nat \<Rightarrow> cs \<Rightarrow> cs" where
  "Cs_setLimit nMaxEntries s =
     (let (p, t) = evictEntries nMaxEntries (cs_policy s) (cs_table s)
      in s\<lparr>cs_limit := nMaxEntries, cs_policy := p, cs_table := t\<rparr>)"

definition Cs_setPolicy :: "policy \<Rightarrow> cs \<Rightarrow> cs" where
  "Cs_setPolicy p s = Cs_setLimit (cs_limit s) (s\<lparr>cs_policy := p\<rparr>)"

definition Cs_enableAdmit :: "bool \<Rightarrow> cs \<Rightarrow> cs" where
  "Cs_enableAdmit b s = (if cs_shouldAdmit s = b then s else s\<lparr>cs_shouldAdmit := b\<rparr>)"

definition Cs_enableServe :: "bool \<Rightarrow> cs \<Rightarrow> cs" where
  "Cs_enableServe b s = (if cs_shouldServe s = b then s else s\<lparr>cs_shouldServe := b\<rparr>)"

text \<open>The scheduled event of the priority FIFO policy.\<close>

definition Cs_moveStale :: "name \<Rightarrow> cs \<Rightarrow> cs" where
  "Cs_moveStale i s =
     (case cs_policy s of
        LruPolicy _ \<Rightarrow> s
      | PriorityFifoPolicy q \<Rightarrow>
          (case tab_get (pf_info q) i of
             Some (QUEUE_FIFO, Some _) \<Rightarrow> s\<lparr>cs_policy := PriorityFifoPolicy (moveToStaleQueue i q)\<rparr>
           | _ \<Rightarrow> s))"

section \<open>Order of the table\<close>

definition dkey :: "data \<Rightarrow> name \<times> component option" where
  "dkey d = (d_name d, Some (Component 1 (d_digest d)))"

definition qkey :: "name \<Rightarrow> name \<times> component option" where
  "qkey q = (if q \<noteq> [] \<and> isImplicitSha256Digest (last q) then (butlast q, Some (last q)) else (q, None))"

lemma name_get_full: "name_get (getFullName d) (- 1) = Component 1 (d_digest d)"
  by (simp add: name_get_last getFullName_def)

lemma compare_names:
  "name_compare n 0 (length n) m 0 (length m) < 0 \<longleftrightarrow> n < m"
  "name_compare n 0 (length n) m 0 (length m) = 0 \<longleftrightarrow> n = m"
  "name_compare n 0 (length n - Suc 0) m 0 (length m) < 0 \<longleftrightarrow> butlast n < m"
  "name_compare n 0 (length n - Suc 0) m 0 (length m) = 0 \<longleftrightarrow> butlast n = m"
  using compare_loop_sign by (simp_all add: name_compare_def butlast_conv_take)

lemma compareQuery_sign:
  "compareQueryWithData q d < 0 \<longleftrightarrow> qkey q < dkey d"
  "compareQueryWithData q d = 0 \<longleftrightarrow> qkey q = dkey d"
  by (auto simp: compareQueryWithData_def Let_def compare_names qkey_def dkey_def name_get_full
      name_get_last less_component_def [symmetric] less_prod_def')

lemma compareData_sign: "compareDataWithData d d' < 0 \<longleftrightarrow> dkey d < dkey d'"
  by (auto simp: compareDataWithData_def Let_def compare_names dkey_def name_get_full
      less_component_def [symmetric] less_prod_def')

lemma entry_order [cs_laws]:
  "entry_less_query e q \<longleftrightarrow> dkey (ce_data e) < qkey q"
  "entry_less e e' \<longleftrightarrow> dkey (ce_data e) < dkey (ce_data e')"
  using compareQuery_sign [of q "ce_data e"] compareData_sign
  by (auto simp: entry_less_query_def entry_less_def)

lemma dkey_inject: "dkey d = dkey d' \<longleftrightarrow> getFullName d = getFullName d'"
  by (auto simp: dkey_def getFullName_def)

section \<open>Table lemmas\<close>

abbreviation ekey :: "cs_entry \<Rightarrow> name \<times> component option" where
  "ekey e \<equiv> dkey (ce_data e)"

definition table_ok :: "cs_entry list \<Rightarrow> bool" where
  "table_ok t \<longleftrightarrow> sorted_wrt (<) (map ekey t)"

abbreviation tkeys :: "cs_entry list \<Rightarrow> name set" where
  "tkeys t \<equiv> ce_key ` set t"

lemma ekey_inject: "ekey e = ekey e' \<longleftrightarrow> ce_key e = ce_key e'"
  by (simp add: ce_key_def dkey_inject)

lemma table_ok_filter [simp, cs_laws]: "table_ok t \<Longrightarrow> table_ok (filter P t)"
  by (induction t) (auto simp: table_ok_def)

lemma table_ok_distinct: "table_ok t \<Longrightarrow> distinct (map ce_key t)"
  by (induction t) (auto simp: table_ok_def ekey_inject [symmetric])

lemma table_ok_remove [simp, cs_laws]: "table_ok t \<Longrightarrow> table_ok (cs_remove k t)"
  by (simp add: cs_remove_def)

lemma tkeys_remove [simp, cs_laws]: "tkeys (cs_remove k t) = tkeys t - {k}"
  by (auto simp: cs_remove_def)

lemma length_tkeys: "table_ok t \<Longrightarrow> length t = card (tkeys t)"
  using distinct_card [OF table_ok_distinct, of t] by simp

lemma emplace_props:
  assumes "table_ok t"
  shows "table_ok (fst (cs_emplace e t)) \<and>
    set (fst (cs_emplace e t)) = (if snd (cs_emplace e t) then insert e (set t) else set t) \<and>
    (snd (cs_emplace e t) \<longleftrightarrow> ce_key e \<notin> tkeys t)"
  using assms
proof (induction t)
  case (Cons x t)
  then have IH: "table_ok (fst (cs_emplace e t))"
      "set (fst (cs_emplace e t)) = (if snd (cs_emplace e t) then insert e (set t) else set t)"
      "snd (cs_emplace e t) \<longleftrightarrow> ce_key e \<notin> tkeys t"
    and x: "\<forall>y \<in> set t. ekey x < ekey y" and t: "table_ok t"
    by (auto simp: table_ok_def)
  consider (lt) "ekey x < ekey e" | (gt) "ekey e < ekey x" | (eq) "ekey e = ekey x"
    using linorder_less_linear by blast
  then show ?case
  proof cases
    case lt
    then have "cs_emplace e (x # t) = (x # fst (cs_emplace e t), snd (cs_emplace e t))"
      by (simp add: cs_laws split: prod.splits)
    moreover have "ce_key e \<noteq> ce_key x" using lt ekey_inject [of e x] by auto
    moreover have "table_ok (x # fst (cs_emplace e t))"
      using IH(1,2) x lt by (auto simp: table_ok_def)
    ultimately show ?thesis using IH(2,3) by auto
  next
    case gt
    then have "cs_emplace e (x # t) = (e # x # t, True)" using order_less_not_sym [OF gt] by (simp add: cs_laws)
    moreover have "\<forall>y \<in> set (x # t). ekey e < ekey y" using gt x by (auto intro: less_trans)
    moreover from this have "ce_key e \<notin> tkeys (x # t)"
      using ekey_inject [of e] by (metis imageE order_less_irrefl)
    ultimately show ?thesis using Cons.prems by (auto simp: table_ok_def)
  next
    case eq
    then have "cs_emplace e (x # t) = (x # t, False)" by (simp add: cs_laws)
    then show ?thesis using Cons.prems eq ekey_inject [of e x] by auto
  qed
qed (simp add: table_ok_def)

lemma modify_props:
  assumes "\<And>e. ce_data (f e) = ce_data e"
  shows "map ekey (cs_modify k f t) = map ekey t" "map ce_key (cs_modify k f t) = map ce_key t"
    "tkeys (cs_modify k f t) = tkeys t" "table_ok (cs_modify k f t) = table_ok t"
    "length (cs_modify k f t) = length t"
proof -
  show *: "map ekey (cs_modify k f t) = map ekey t" "map ce_key (cs_modify k f t) = map ce_key t"
    using assms by (simp_all add: cs_modify_def ce_key_def)
  show "tkeys (cs_modify k f t) = tkeys t" using *(2) by (metis list.set_map)
  show "table_ok (cs_modify k f t) = table_ok t" using *(1) by (simp add: table_ok_def)
  show "length (cs_modify k f t) = length t" by (simp add: cs_modify_def)
qed

lemma entry_updates [simp]:
  "ce_data (updateFreshUntil now e) = ce_data e" "ce_data (clearUnsolicited e) = ce_data e"
  "ce_data (CsEntry_new now d u) = d" "ce_unsolicited (updateFreshUntil now e) = ce_unsolicited e"
  by (simp_all add: updateFreshUntil_def clearUnsolicited_def CsEntry_new_def)

lemma cs_at_Some: "cs_at k t = Some e \<Longrightarrow> e \<in> set t \<and> ce_key e = k"
  by (auto simp: cs_at_def find_Some_iff)

lemma cs_at_None: "cs_at k t = None \<longleftrightarrow> k \<notin> tkeys t"
  by (auto simp: cs_at_def find_None_iff)

lemma sorted_takeWhile_filter:
  "table_ok t \<Longrightarrow> takeWhile (\<lambda>e. ekey e < q) t = filter (\<lambda>e. ekey e < q) t"
proof (induction t)
  case (Cons x t)
  then have "\<forall>y \<in> set t. ekey x < ekey y" and "table_ok t" by (auto simp: table_ok_def)
  moreover from this(1) have "\<not> ekey x < q \<Longrightarrow> filter (\<lambda>e. ekey e < q) t = []"
    by (auto simp: filter_empty_conv)
  ultimately show ?case using Cons.IH by auto
qed simp

lemma sorted_drop_filter:
  "table_ok t \<Longrightarrow> drop (length (filter (\<lambda>e. ekey e < q) t)) t = filter (\<lambda>e. q \<le> ekey e) t"
proof (induction t)
  case (Cons x t)
  then have x: "\<forall>y \<in> set t. ekey x < ekey y" and t: "table_ok t" by (auto simp: table_ok_def)
  show ?case
  proof (cases "ekey x < q")
    case True
    then show ?thesis using Cons.IH [OF t] by simp
  next
    case False
    then have "\<forall>y \<in> set t. q \<le> ekey y" using x by (auto intro: order.trans less_imp_le)
    then have "filter (\<lambda>e. ekey e < q) t = []" "filter (\<lambda>e. q \<le> ekey e) t = t"
      by (auto simp: filter_empty_conv not_less)
    then show ?thesis using False by simp
  qed
qed simp

lemma range_entries_eq:
  assumes ok: "table_ok t"
  shows "range_entries p t =
    filter (\<lambda>e. qkey p \<le> ekey e \<and> (p \<noteq> [] \<longrightarrow> ekey e < qkey (name_getSuccessor p))) t"
proof -
  let ?u = "filter (\<lambda>e. qkey p \<le> ekey e) t"
  have lb: "lower_bound q t = length (filter (\<lambda>e. ekey e < qkey q) t)" for q
    by (simp add: lower_bound_def cs_laws sorted_takeWhile_filter [OF ok])
  have drop: "drop (lower_bound p t) t = ?u" by (simp add: lb sorted_drop_filter [OF ok])
  show ?thesis
  proof (cases "p = []")
    case True
    then have "range_entries p t = drop (lower_bound p t) t"
      by (simp add: range_entries_def findPrefixRange_def)
    then show ?thesis using drop True by simp
  next
    case False
    let ?q = "qkey (name_getSuccessor p)"
    have u: "table_ok ?u" by (simp add: ok)
    have n: "lower_bound (name_getSuccessor p) t - lower_bound p t = length (filter (\<lambda>e. ekey e < ?q) ?u)"
    proof (cases "qkey p \<le> ?q")
      case le: True
      have "length (filter (\<lambda>e. ekey e < ?q) t) =
          length (filter (\<lambda>e. ekey e < qkey p) t) + length (filter (\<lambda>e. ekey e < ?q) ?u)"
        using le by (induction t) (auto simp: not_less)
      then show ?thesis by (simp add: lb)
    next
      case gt: False
      then have "length (filter (\<lambda>e. ekey e < ?q) t) \<le> length (filter (\<lambda>e. ekey e < qkey p) t)"
        by (induction t) auto
      moreover have "filter (\<lambda>e. ekey e < ?q) ?u = []"
        using gt by (auto simp: filter_empty_conv)
      ultimately show ?thesis by (simp add: lb)
    qed
    have "take (length (filter (\<lambda>e. ekey e < ?q) ?u)) ?u = takeWhile (\<lambda>e. ekey e < ?q) ?u"
      by (metis sorted_takeWhile_filter [OF u] takeWhile_eq_take)
    then show ?thesis
      using False n drop by (simp add: range_entries_def findPrefixRange_def sorted_takeWhile_filter [OF u] conj_commute)
  qed
qed

text \<open>Every entry that can match an Interest lies in the range its name gives, unless a Data name
  has an implicit digest component of its own.\<close>

lemma qkey_successor:
  assumes "valid_name p" and "p \<noteq> []" and "\<not> isImplicitSha256Digest (last p)"
  shows "qkey (name_getSuccessor p) = (name_getSuccessor p, None)"
proof -
  have v: "valid_component (last p)" using assms(1,2) by (simp add: valid_name_def list_all_iff)
  have "last p < component_getSuccessor (last p)" by (rule successor_greater [OF v])
  then have "ctype (last p) \<le> ctype (component_getSuccessor (last p))"
    by (auto simp: less_component_def compare_fields_less key_less_def comp_key_def)
  moreover have "1 < ctype (last p)"
    using v assms(3) by (auto simp: valid_component_alt isImplicitSha256Digest_def is_sha256_type_def)
  ultimately have "\<not> isImplicitSha256Digest (component_getSuccessor (last p))"
    by (simp add: isImplicitSha256Digest_def)
  then show ?thesis using assms(2) by (simp add: qkey_def name_getSuccessor_eq)
qed

definition cacheable :: "data \<Rightarrow> bool" where
  "cacheable d \<longleftrightarrow> valid_name (d_name d) \<and> length (d_digest d) = DIGEST_SIZE \<and>
     list_all (\<lambda>c. \<not> isImplicitSha256Digest c) (d_name d)"

lemma valid_digest: "length v = DIGEST_SIZE \<Longrightarrow> valid_component (Component 1 v)"
  by (simp add: valid_component_alt)

lemma range_covers:
  assumes ok: "table_ok t" and e: "e \<in> set t" and c: "cacheable (ce_data e)"
    and v: "valid_name (i_name i)" and m: "matchesData i (ce_data e)"
  shows "e \<in> set (range_entries (i_name i) t)"
proof -
  let ?d = "ce_data e" and ?p = "i_name i"
  have c': "valid_name (d_name ?d)" "length (d_digest ?d) = DIGEST_SIZE"
      "\<And>x. x \<in> set (d_name ?d) \<Longrightarrow> \<not> isImplicitSha256Digest x"
    using c by (auto simp: cacheable_def list_all_iff)
  have "?p = getFullName ?d \<or> prefix ?p (d_name ?d)"
    using m matchesData_spec [OF c'(1,2), of i] by auto
  then have "qkey ?p \<le> dkey ?d \<and> (?p \<noteq> [] \<longrightarrow> dkey ?d < qkey (name_getSuccessor ?p))"
  proof
    assume p: "?p = getFullName ?d"
    let ?c = "Component 1 (d_digest ?d)"
    have "?c < component_getSuccessor ?c"
      by (rule successor_greater [OF valid_digest [OF c'(2)]])
    moreover have "isImplicitSha256Digest ?c" using c'(2) by (simp add: isImplicitSha256Digest_def)
    moreover have "d_name ?d < d_name ?d @ [x]" for x by (simp add: list_less_def lexord_append_rightI)
    ultimately show ?thesis
      by (auto simp: p getFullName_def qkey_def dkey_def name_getSuccessor_eq less_prod_def')
  next
    assume p: "prefix ?p (d_name ?d)"
    show ?thesis
    proof (cases "?p = []")
      case True
      then show ?thesis by (cases "d_name ?d") (auto simp: qkey_def dkey_def less_eq_prod_def)
    next
      case False
      have last: "\<not> isImplicitSha256Digest (last ?p)"
        using c'(3) p False by (metis last_in_set prefix_def Un_iff set_append)
      have "?p \<le> d_name ?d \<and> d_name ?d < name_getSuccessor ?p"
        using successor_range [OF False v c'(1)] p by blast
      then show ?thesis
        using qkey_successor [OF v False last] last
        by (auto simp: qkey_def dkey_def less_prod_def' less_eq_prod_def)
    qed
  qed
  then show ?thesis using e by (simp add: range_entries_eq [OF ok])
qed

section \<open>The interface of a replacement policy\<close>

text \<open>
  What the store relies on: the policy remembers exactly the entries it was told of, and
  eviction removes entries from policy and table alike until the limit is respected.
\<close>

locale replacement_policy =
  fixes attach :: "int \<Rightarrow> cs_entry \<Rightarrow> 'q \<Rightarrow> 'q"
    and refresh :: "int \<Rightarrow> cs_entry \<Rightarrow> 'q \<Rightarrow> 'q"
    and forget :: "name \<Rightarrow> 'q \<Rightarrow> 'q"
    and touch :: "name \<Rightarrow> 'q \<Rightarrow> 'q"
    and evict :: "nat \<Rightarrow> 'q \<Rightarrow> cs_entry list \<Rightarrow> 'q \<times> cs_entry list"
    and wf :: "'q \<Rightarrow> bool"
    and keys :: "'q \<Rightarrow> name set"
  assumes attach_wf: "wf q \<Longrightarrow> ce_key e \<notin> keys q \<Longrightarrow> wf (attach now e q)"
    and attach_keys: "wf q \<Longrightarrow> ce_key e \<notin> keys q \<Longrightarrow> keys (attach now e q) = insert (ce_key e) (keys q)"
    and refresh_wf: "wf q \<Longrightarrow> ce_key e \<in> keys q \<Longrightarrow> wf (refresh now e q)"
    and refresh_keys: "wf q \<Longrightarrow> ce_key e \<in> keys q \<Longrightarrow> keys (refresh now e q) = keys q"
    and forget_wf: "wf q \<Longrightarrow> wf (forget i q)"
    and forget_keys: "wf q \<Longrightarrow> keys (forget i q) = keys q - {i}"
    and touch_wf: "wf q \<Longrightarrow> i \<in> keys q \<Longrightarrow> wf (touch i q)"
    and touch_keys: "wf q \<Longrightarrow> i \<in> keys q \<Longrightarrow> keys (touch i q) = keys q"
    and evict_ok: "wf q \<Longrightarrow> table_ok t \<Longrightarrow> keys q = tkeys t \<Longrightarrow> evict limit q t = (q', t') \<Longrightarrow>
      wf q' \<and> keys q' = tkeys t' \<and> table_ok t' \<and> set t' \<subseteq> set t \<and> length t' = min limit (length t)"
begin

definition inv :: "'q \<Rightarrow> cs_entry list \<Rightarrow> bool" where
  "inv q t \<longleftrightarrow> wf q \<and> table_ok t \<and> keys q = tkeys t"

lemma inv_insert:
  assumes "inv q t" and "ce_key e \<notin> tkeys t" and "table_ok t'" and "tkeys t' = insert (ce_key e) (tkeys t)"
    and "evict limit (attach now e q) t' = (q'', t'')"
  shows "inv q'' t'' \<and> set t'' \<subseteq> set t' \<and> length t'' = min limit (length t')"
  using evict_ok [OF _ _ _ assms(5)] assms(1-4) by (simp add: inv_def attach_wf attach_keys)

lemma inv_refresh:
  "inv q t \<Longrightarrow> ce_key e \<in> tkeys t \<Longrightarrow> table_ok t' \<Longrightarrow> tkeys t' = tkeys t \<Longrightarrow> inv (refresh now e q) t'"
  by (simp add: inv_def refresh_wf refresh_keys)

lemma inv_erase: "inv q t \<Longrightarrow> inv (forget i q) (cs_remove i t)"
  by (simp add: inv_def forget_wf forget_keys)

lemma inv_use: "inv q t \<Longrightarrow> i \<in> tkeys t \<Longrightarrow> inv (touch i q) t"
  by (simp add: inv_def touch_wf touch_keys)

lemma inv_limit:
  "inv q t \<Longrightarrow> evict limit q t = (q', t') \<Longrightarrow>
     inv q' t' \<and> set t' \<subseteq> set t \<and> length t' = min limit (length t)"
  using evict_ok [of q t limit q' t'] by (simp add: inv_def)

end

subsection \<open>Least recently used\<close>

lemma lru_evict_spec:
  assumes "table_ok t" and "distinct q" and "set q = tkeys t"
  shows "lru_evictEntries limit q t =
    (drop (length t - limit) q, filter (\<lambda>e. ce_key e \<in> set (drop (length t - limit) q)) t)"
  using assms
proof (induction q arbitrary: t)
  case (Cons i q)
  have len: "length t = Suc (length q)"
    using length_tkeys [OF Cons.prems(1)] Cons.prems(3) distinct_card [OF Cons.prems(2)] by simp
  show ?case
  proof (cases "length t > limit")
    case True
    let ?t = "cs_remove i t"
    have ok: "table_ok ?t" "set q = tkeys ?t" using Cons.prems by auto
    have "length ?t = length q"
      using length_tkeys [OF ok(1)] ok(2) distinct_card [of q] Cons.prems(2) by simp
    then have d: "drop (length t - limit) (i # q) = drop (length ?t - limit) q"
      using True len by (simp add: Suc_diff_le)
    have "set (drop (length ?t - limit) q) \<subseteq> set q" by (rule set_drop_subset)
    then have "filter (\<lambda>e. ce_key e \<in> set (drop (length ?t - limit) q)) ?t =
        filter (\<lambda>e. ce_key e \<in> set (drop (length ?t - limit) q)) t"
      using Cons.prems(2) by (auto simp: cs_remove_def intro!: filter_cong)
    then show ?thesis using Cons.IH [OF ok(1) _ ok(2)] Cons.prems(2) True d by simp
  next
    case False
    then show ?thesis using Cons.prems(3) by (auto simp: filter_id_conv)
  qed
qed auto

lemma tkeys_filter: "set q \<subseteq> tkeys t \<Longrightarrow> tkeys (filter (\<lambda>e. ce_key e \<in> set q) t) = set q"
  by auto

lemmas lru_defs = lru_attach_def lru_doAfterRefresh_def lru_doBeforeErase_def lru_doBeforeUse_def
  insertToQueue_def

interpretation lru: replacement_policy lru_attach lru_doAfterRefresh lru_doBeforeErase lru_doBeforeUse
  lru_evictEntries distinct set
proof (unfold_locales, goal_cases)
  case (9 q t limit q' t')
  note spec = lru_evict_spec [OF 9(2,1,3), of limit]
  have len: "length t = length q"
    using length_tkeys [OF 9(2)] 9(1,3) distinct_card [of q] by simp
  have q': "q' = drop (length t - limit) q" and t': "t' = filter (\<lambda>e. ce_key e \<in> set q') t"
    using spec 9(4) by auto
  have sub: "set q' \<subseteq> tkeys t" using 9(3) q' set_drop_subset by fastforce
  have keys: "set q' = tkeys t'" using tkeys_filter [OF sub] t' by simp
  moreover have ok: "table_ok t'" using t' 9(2) by simp
  moreover have "length t' = min limit (length t)"
    using length_tkeys [OF ok] keys distinct_card [of q'] 9(1) len by (simp add: q')
  ultimately show ?case using 9(1) q' t' by auto
qed (auto simp: lru_defs Let_def)

subsection \<open>Priority FIFO\<close>

fun pf_queue :: "queue_type \<Rightarrow> pf_queues \<Rightarrow> name list" where
  "pf_queue QUEUE_UNSOLICITED q = pf_unsolicited q"
| "pf_queue QUEUE_STALE q = pf_stale q"
| "pf_queue QUEUE_FIFO q = pf_fifo q"

text \<open>An entry is in exactly the queue its information names, once, and it has a scheduled
  event exactly when this is the FIFO queue.\<close>

definition pf_wf :: "pf_queues \<Rightarrow> bool" where
  "pf_wf q \<longleftrightarrow> distinct (map fst (pf_info q)) \<and> (\<forall>ty. distinct (pf_queue ty q)) \<and>
     (\<forall>ty k. k \<in> set (pf_queue ty q) \<longleftrightarrow> (\<exists>tm. tab_get (pf_info q) k = Some (ty, tm))) \<and>
     (\<forall>k ty tm. tab_get (pf_info q) k = Some (ty, tm) \<longrightarrow> (tm \<noteq> None \<longleftrightarrow> ty = QUEUE_FIFO))"

definition pf_keys :: "pf_queues \<Rightarrow> name set" where
  "pf_keys q = dom (tab_get (pf_info q))"

lemma pf_queue_update [simp]:
  "pf_queue ty' (pf_update ty f q) = (if ty' = ty then f (pf_queue ty q) else pf_queue ty' q)"
  "pf_info (pf_update ty f q) = pf_info q"
  "pf_queue ty (q\<lparr>pf_info := x\<rparr>) = pf_queue ty q"
  by (cases ty; cases ty'; simp)+

lemma pf_wfD:
  assumes "pf_wf q"
  shows "distinct (map fst (pf_info q))" "distinct (pf_queue ty q)"
    "k \<in> set (pf_queue ty q) \<longleftrightarrow> (\<exists>tm. tab_get (pf_info q) k = Some (ty, tm))"
    "tab_get (pf_info q) k = Some (ty, tm) \<Longrightarrow> tm \<noteq> None \<longleftrightarrow> ty = QUEUE_FIFO"
  using assms unfolding pf_wf_def by blast+

lemma pf_add:
  assumes wf: "pf_wf q" and new: "tab_get (pf_info q) i = None" and tm: "tm \<noteq> None \<longleftrightarrow> ty = QUEUE_FIFO"
    and q': "q' = (pf_update ty (\<lambda>xs. xs @ [i]) q)\<lparr>pf_info := tab_put i (ty, tm) (pf_info q)\<rparr>"
  shows "pf_wf q'" and "pf_keys q' = insert i (pf_keys q)"
proof -
  have notin: "i \<notin> set (pf_queue ty' q)" for ty' using pf_wfD(3) [OF wf] new by auto
  show "pf_wf q'"
    unfolding pf_wf_def
  proof (intro conjI allI impI)
    show "distinct (map fst (pf_info q'))" using pf_wfD(1) [OF wf] by (simp add: q' distinct_update)
    show "distinct (pf_queue ty' q')" for ty' using pf_wfD(2) [OF wf] notin by (simp add: q')
    show "(k \<in> set (pf_queue ty' q')) = (\<exists>tm. tab_get (pf_info q') k = Some (ty', tm))" for k ty'
      using pf_wfD(3) [OF wf, of k ty'] notin [of ty'] by (auto simp: q')
    show "(tm' \<noteq> None) = (ty' = QUEUE_FIFO)" if "tab_get (pf_info q') k = Some (ty', tm')" for k ty' tm'
      using that pf_wfD(4) [OF wf, of k ty' tm'] tm by (auto simp: q' split: if_splits)
  qed
  show "pf_keys q' = insert i (pf_keys q)" by (auto simp: q' pf_keys_def)
qed

lemma pf_detach:
  assumes wf: "pf_wf q"
  shows "pf_wf (detachQueue i q)" and "pf_keys (detachQueue i q) = pf_keys q - {i}"
proof -
  have *: "pf_wf (detachQueue i q) \<and> pf_keys (detachQueue i q) = pf_keys q - {i}"
  proof (cases "tab_get (pf_info q) i")
    case None
    then show ?thesis using wf by (auto simp: detachQueue_def pf_keys_def)
  next
    case (Some r)
    obtain ty tm where r: "r = (ty, tm)" by (cases r)
    define q' where "q' = detachQueue i q"
    have get: "tab_get (pf_info q') k = (if k = i then None else tab_get (pf_info q) k)"
      and que: "pf_queue ty' q' = (if ty' = ty then remove1 i (pf_queue ty q) else pf_queue ty' q)" for k ty'
      using Some r by (simp_all add: q'_def detachQueue_def Let_def)
    have "pf_wf q'"
      unfolding pf_wf_def
    proof (intro conjI allI impI)
      show "distinct (map fst (pf_info q'))"
        using pf_wfD(1) [OF wf] Some r by (simp add: q'_def detachQueue_def Let_def distinct_delete)
      show "distinct (pf_queue ty' q')" for ty' using pf_wfD(2) [OF wf] by (simp add: que)
      show "(k \<in> set (pf_queue ty' q')) = (\<exists>tm. tab_get (pf_info q') k = Some (ty', tm))" for k ty'
        using pf_wfD(3) [OF wf, of k ty'] pf_wfD(2) [OF wf, of ty] Some r by (auto simp: get que)
      show "(tm' \<noteq> None) = (ty' = QUEUE_FIFO)" if "tab_get (pf_info q') k = Some (ty', tm')" for k ty' tm'
        using that pf_wfD(4) [OF wf, of k ty' tm'] by (auto simp: get split: if_splits)
    qed
    moreover have "pf_keys q' = pf_keys q - {i}" by (auto simp: pf_keys_def get split: if_splits)
    ultimately show ?thesis by (simp add: q'_def)
  qed
  then show "pf_wf (detachQueue i q)" "pf_keys (detachQueue i q) = pf_keys q - {i}" by auto
qed

lemma pf_attach:
  assumes "pf_wf q" and "ce_key e \<notin> pf_keys q"
  shows "pf_wf (attachQueue now e q)" "pf_keys (attachQueue now e q) = insert (ce_key e) (pf_keys q)"
proof -
  have "tab_get (pf_info q) (ce_key e) = None" using assms(2) by (auto simp: pf_keys_def)
  note add = pf_add [OF assms(1) this]
  define r where "r = (if ce_unsolicited e then (QUEUE_UNSOLICITED, None)
             else if \<not> isFresh now e then (QUEUE_STALE, None)
             else (QUEUE_FIFO, Some (now + ms (d_freshness (ce_data e)))))"
  have r: "snd r \<noteq> None \<longleftrightarrow> fst r = QUEUE_FIFO" by (simp add: r_def)
  have "attachQueue now e q =
      (pf_update (fst r) (\<lambda>xs. xs @ [ce_key e]) q)\<lparr>pf_info := tab_put (ce_key e) (fst r, snd r) (pf_info q)\<rparr>"
    by (simp add: attachQueue_def Let_def r_def)
  from add [OF r this]
  show "pf_wf (attachQueue now e q)" "pf_keys (attachQueue now e q) = insert (ce_key e) (pf_keys q)" .
qed

lemma pf_front_Some:
  assumes "pf_wf q" and "pf_front q = Some i"
  shows "i \<in> pf_keys q"
proof -
  obtain ty where "pf_queue ty q \<noteq> []" "i = hd (pf_queue ty q)"
    using assms(2) by (auto simp: pf_front_def split: if_splits intro: pf_queue.simps [symmetric]
        that [of QUEUE_UNSOLICITED] that [of QUEUE_STALE] that [of QUEUE_FIFO])
  then have "i \<in> set (pf_queue ty q)" by simp
  then show ?thesis using pf_wfD(3) [OF assms(1)] by (auto simp: pf_keys_def)
qed

lemma pf_front_None:
  assumes "pf_wf q" and "pf_front q = None"
  shows "pf_keys q = {}"
proof -
  have "pf_queue ty q = []" for ty
    using assms(2) by (cases ty) (auto simp: pf_front_def split: if_splits)
  then have "tab_get (pf_info q) k \<noteq> Some (ty, tm)" for k ty tm
    using pf_wfD(3) [OF assms(1), of k ty] by auto
  then have "tab_get (pf_info q) k = None" for k by (cases "tab_get (pf_info q) k") auto
  then show ?thesis by (simp add: pf_keys_def dom_def)
qed

lemma pf_moveToStale:
  assumes wf: "pf_wf q" and i: "tab_get (pf_info q) i = Some (QUEUE_FIFO, tm)"
  shows "pf_wf (moveToStaleQueue i q)" and "pf_keys (moveToStaleQueue i q) = pf_keys q"
proof -
  let ?d = "detachQueue i q"
  have get: "tab_get (pf_info ?d) i = None" "tab_get (pf_info (moveToStaleQueue i q)) = tab_get (tab_put i (QUEUE_STALE, None) (pf_info ?d))"
    using i by (auto simp: detachQueue_def moveToStaleQueue_def Let_def fun_eq_iff)
  have que: "pf_queue ty (moveToStaleQueue i q) = pf_queue ty (pf_update QUEUE_STALE (\<lambda>xs. xs @ [i]) ?d)" for ty
    using i by (cases ty) (auto simp: detachQueue_def moveToStaleQueue_def Let_def)
  have dist: "distinct (map fst (pf_info (moveToStaleQueue i q)))"
    using i pf_wfD(1) [OF wf] by (simp add: moveToStaleQueue_def Let_def distinct_update)
  note add = pf_add [OF pf_detach(1) [OF wf] get(1), of None QUEUE_STALE, OF _ refl, simplified]
  show "pf_wf (moveToStaleQueue i q)"
    using add(1) dist que get(2) unfolding pf_wf_def by simp
  have "pf_keys (moveToStaleQueue i q) = insert i (pf_keys ?d)"
    unfolding pf_keys_def get(2) by auto
  then show "pf_keys (moveToStaleQueue i q) = pf_keys q"
    using pf_detach(2) [OF wf] i by (auto simp: pf_keys_def)
qed

lemma pf_evict_loop_ok:
  assumes "pf_wf q" and "table_ok t" and "pf_keys q = tkeys t" and "length t \<le> fuel"
    and "pf_evict_loop fuel limit q t = (q', t')"
  shows "pf_wf q' \<and> pf_keys q' = tkeys t' \<and> table_ok t' \<and> set t' \<subseteq> set t \<and> length t' = min limit (length t)"
  using assms
proof (induction fuel arbitrary: q t)
  case (Suc fuel)
  show ?case
  proof (cases "length t > limit")
    case True
    then have "pf_keys q \<noteq> {}" using Suc.prems(3) by auto
    then obtain i where i: "pf_front q = Some i"
      using pf_front_None [OF Suc.prems(1)] by (cases "pf_front q") auto
    let ?q = "detachQueue i q" and ?t = "cs_remove i t"
    have ok: "pf_wf ?q" "table_ok ?t" "pf_keys ?q = tkeys ?t"
      using pf_detach [OF Suc.prems(1)] Suc.prems(2,3) by simp_all
    have "i \<in> tkeys t" using pf_front_Some [OF Suc.prems(1) i] Suc.prems(3) by simp
    then have len: "length t = Suc (length ?t)"
      using length_tkeys [OF Suc.prems(2)] length_tkeys [OF ok(2)] card_Suc_Diff1 [of "tkeys t" i] by simp
    have "pf_wf q' \<and> pf_keys q' = tkeys t' \<and> table_ok t' \<and> set t' \<subseteq> set ?t \<and> length t' = min limit (length ?t)"
      using Suc.IH [OF ok] Suc.prems(4,5) True len i by (simp add: evictOne_def)
    then show ?thesis using len True by (auto simp: cs_remove_def)
  next
    case False
    then show ?thesis using Suc.prems by auto
  qed
qed auto

lemma pf_refresh:
  assumes "pf_wf q" and "ce_key e \<in> pf_keys q"
  shows "pf_wf (attachQueue now e (detachQueue (ce_key e) q))"
    "pf_keys (attachQueue now e (detachQueue (ce_key e) q)) = pf_keys q"
proof -
  have "ce_key e \<notin> pf_keys (detachQueue (ce_key e) q)" using pf_detach(2) [OF assms(1)] by simp
  note * = pf_attach [OF pf_detach(1) [OF assms(1)] this]
  show "pf_wf (attachQueue now e (detachQueue (ce_key e) q))" by (rule *(1))
  show "pf_keys (attachQueue now e (detachQueue (ce_key e) q)) = pf_keys q"
    unfolding *(2) pf_detach(2) [OF assms(1)] using assms(2) by (rule insert_Diff)
qed

interpretation pfifo: replacement_policy attachQueue pf_doAfterRefresh detachQueue pf_doBeforeUse
  pf_evictEntries pf_wf pf_keys
proof (unfold_locales, goal_cases)
  case (9 q t limit q' t')
  show ?case by (rule pf_evict_loop_ok [OF 9(1-3) order_refl 9(4) [unfolded pf_evictEntries_def]])
qed (simp_all add: pf_attach pf_refresh pf_detach pf_doAfterRefresh_def pf_doBeforeUse_def insert_absorb)

subsection \<open>The policy of the store\<close>

fun policy_wf :: "policy \<Rightarrow> bool" where
  "policy_wf (LruPolicy q) = distinct q"
| "policy_wf (PriorityFifoPolicy q) = pf_wf q"

fun policy_keys :: "policy \<Rightarrow> name set" where
  "policy_keys (LruPolicy q) = set q"
| "policy_keys (PriorityFifoPolicy q) = pf_keys q"

interpretation pol: replacement_policy policy_attach doAfterRefresh doBeforeErase doBeforeUse
  evictEntries policy_wf policy_keys
proof (unfold_locales, goal_cases)
  case (1 q e now) then show ?case by (cases q) (simp_all add: lru.attach_wf pfifo.attach_wf)
next
  case (2 q e now) then show ?case
    by (cases q) (simp_all add: lru.attach_keys pfifo.attach_keys)
next
  case (3 q e now) then show ?case by (cases q) (simp_all add: lru.refresh_wf pfifo.refresh_wf)
next
  case (4 q e now) then show ?case
    by (cases q) (simp_all add: lru.refresh_keys pfifo.refresh_keys)
next
  case (5 q i) then show ?case by (cases q) (simp_all add: lru.forget_wf pfifo.forget_wf)
next
  case (6 q i) then show ?case by (cases q) (simp_all add: lru.forget_keys pfifo.forget_keys)
next
  case (7 q i) then show ?case by (cases q) (simp_all add: lru.touch_wf pfifo.touch_wf)
next
  case (8 q i) then show ?case by (cases q) (simp_all add: lru.touch_keys pfifo.touch_keys)
next
  case (9 q t limit q' t')
  show ?case
  proof (cases q)
    case (LruPolicy ql)
    then obtain q1 where "lru_evictEntries limit ql t = (q1, t')" "q' = LruPolicy q1"
      using 9(4) by (auto split: prod.splits)
    then show ?thesis using lru.evict_ok [of ql t limit q1 t'] 9(1-3) LruPolicy by simp
  next
    case (PriorityFifoPolicy qp)
    then obtain q1 where "pf_evictEntries limit qp t = (q1, t')" "q' = PriorityFifoPolicy q1"
      using 9(4) by (auto split: prod.splits)
    then show ?thesis using pfifo.evict_ok [of qp t limit q1 t'] 9(1-3) PriorityFifoPolicy by simp
  qed
qed

section \<open>The invariant of the store\<close>

definition cs_ok :: "cs \<Rightarrow> bool" where
  "cs_ok s \<longleftrightarrow> policy_wf (cs_policy s) \<and> table_ok (cs_table s) \<and>
     policy_keys (cs_policy s) = tkeys (cs_table s) \<and> length (cs_table s) \<le> cs_limit s"

lemma cs_ok_inv: "cs_ok s \<longleftrightarrow> pol.inv (cs_policy s) (cs_table s) \<and> length (cs_table s) \<le> cs_limit s"
  by (auto simp: cs_ok_def pol.inv_def)

lemma Cs_setLimit_ok:
  assumes "pol.inv (cs_policy s) (cs_table s)"
  shows "cs_ok (Cs_setLimit n s)" and "set (cs_table (Cs_setLimit n s)) \<subseteq> set (cs_table s)"
    and "length (cs_table (Cs_setLimit n s)) = min n (length (cs_table s))"
proof -
  obtain p t where e: "evictEntries n (cs_policy s) (cs_table s) = (p, t)"
    by (cases "evictEntries n (cs_policy s) (cs_table s)")
  from pol.inv_limit [OF assms e] e
  show "cs_ok (Cs_setLimit n s)" "set (cs_table (Cs_setLimit n s)) \<subseteq> set (cs_table s)"
    "length (cs_table (Cs_setLimit n s)) = min n (length (cs_table s))"
    by (auto simp: cs_ok_inv Cs_setLimit_def)
qed

lemma Cs_find_ok: "cs_ok s \<Longrightarrow> cs_ok (snd (Cs_find now i s))"
proof -
  assume ok: "cs_ok s"
  show ?thesis
  proof (cases "find (canSatisfy now i) (range_entries (i_name i) (cs_table s))")
    case (Some e)
    then have "e \<in> set (range_entries (i_name i) (cs_table s))" by (auto simp: find_Some_iff)
    then have "ce_key e \<in> tkeys (cs_table s)"
      using range_entries_eq [of "cs_table s"] ok by (auto simp: cs_ok_def)
    then show ?thesis using ok Some pol.inv_use by (auto simp: Cs_find_def cs_ok_inv)
  qed (use ok in \<open>simp add: Cs_find_def\<close>)
qed

lemma Cs_erase_ok: "cs_ok s \<Longrightarrow> cs_ok (fst (Cs_erase p n s))"
  unfolding Cs_erase_def Let_def fst_conv
  by (rule fold_inv) (auto simp: cs_ok_inv cs_remove_def intro: pol.inv_erase [unfolded cs_remove_def] le_trans [OF length_filter_le])

lemma Cs_moveStale_ok: "cs_ok s \<Longrightarrow> cs_ok (Cs_moveStale i s)"
  by (auto simp: Cs_moveStale_def cs_ok_def pf_moveToStale split: policy.splits option.splits queue_type.splits)

text \<open>One insertion: either the entry was there and is refreshed, or it is added and entries
  over the limit are evicted.\<close>

lemma Cs_insert_cases:
  assumes ok: "cs_ok s" and adm: "cs_shouldAdmit s" "cs_limit s \<noteq> 0" "\<not> d_noCache d"
  obtains (old) t e where "getFullName d \<in> tkeys (cs_table s)" "e \<in> set t" "ce_key e = getFullName d"
      "map ekey t = map ekey (cs_table s)"
      "Cs_insert now d u s = s\<lparr>cs_table := t, cs_policy := doAfterRefresh now e (cs_policy s)\<rparr>"
  | (new) t e p t' where "getFullName d \<notin> tkeys (cs_table s)" "e \<in> set t" "ce_key e = getFullName d"
      "table_ok t" "tkeys t = insert (getFullName d) (tkeys (cs_table s))"
      "evictEntries (cs_limit s) (policy_attach now e (cs_policy s)) t = (p, t')"
      "Cs_insert now d u s = s\<lparr>cs_table := t', cs_policy := p\<rparr>"
proof -
  let ?k = "getFullName d"
  define e0 where "e0 = CsEntry_new now d u"
  obtain t isNew where em: "cs_emplace e0 (cs_table s) = (t, isNew)" by (cases "cs_emplace e0 (cs_table s)")
  have k0: "ce_key e0 = ?k" by (simp add: e0_def ce_key_def)
  have E: "table_ok t" "set t = (if isNew then insert e0 (set (cs_table s)) else set (cs_table s))"
      "isNew \<longleftrightarrow> ?k \<notin> tkeys (cs_table s)"
    using emplace_props [of "cs_table s" e0] ok em k0 by (auto simp: cs_ok_def)
  define t1 where "t1 = cs_modify ?k (updateFreshUntil now) t"
  have t1: "map ekey t1 = map ekey t" "tkeys t1 = tkeys t" "table_ok t1 = table_ok t"
    unfolding t1_def by (rule modify_props; simp)+
  show thesis
  proof (cases isNew)
    case True
    have keys: "tkeys t1 = insert ?k (tkeys (cs_table s))" using E(2) True t1 k0 by auto
    then obtain e where e: "cs_at ?k t1 = Some e" using cs_at_None [of ?k t1] by (cases "cs_at ?k t1") auto
    obtain p t' where ev: "evictEntries (cs_limit s) (policy_attach now e (cs_policy s)) t1 = (p, t')"
      by (cases "evictEntries (cs_limit s) (policy_attach now e (cs_policy s)) t1")
    have "Cs_insert now d u s = s\<lparr>cs_table := t', cs_policy := p\<rparr>"
      using adm em e ev True by (simp add: Cs_insert_def Let_def e0_def t1_def doAfterInsert_def)
    then show thesis using new keys cs_at_Some [OF e] E t1 ev True by blast
  next
    case False
    define t2 where "t2 = cs_modify ?k (\<lambda>e. if ce_unsolicited e \<and> \<not> u then clearUnsolicited e else e) t1"
    have t2: "map ekey t2 = map ekey t1" "tkeys t2 = tkeys t1"
      unfolding t2_def by (rule modify_props; simp)+
    have eq: "t = cs_table s"
    proof -
      have "\<not> snd (cs_emplace e0 ts) \<Longrightarrow> fst (cs_emplace e0 ts) = ts" for ts
        by (induction ts) (auto split: prod.splits if_splits)
      then show ?thesis using em False by (metis fst_conv snd_conv)
    qed
    have keys: "?k \<in> tkeys t2" using E(3) False t1 t2 eq by simp
    then obtain e where e: "cs_at ?k t2 = Some e" using cs_at_None [of ?k t2] by (cases "cs_at ?k t2") auto
    have "Cs_insert now d u s = s\<lparr>cs_table := t2, cs_policy := doAfterRefresh now e (cs_policy s)\<rparr>"
      using adm em e False by (simp add: Cs_insert_def Let_def e0_def t1_def t2_def)
    moreover have "map ekey t2 = map ekey (cs_table s)" using t1 t2 eq by simp
    ultimately show thesis using old keys cs_at_Some [OF e] E(3) False by blast
  qed
qed

lemma ekeys_same:
  assumes "map ekey t = map ekey t'"
  shows "tkeys t = tkeys t'" "table_ok t = table_ok t'" "length t = length t'"
proof -
  have key: "ce_key e = (\<lambda>(n, c). n @ [the c]) (ekey e)" for e
    by (simp add: ce_key_def dkey_def getFullName_def)
  have "map ce_key t = map (\<lambda>(n, c). n @ [the c]) (map ekey t)" by (simp add: key)
  also have "\<dots> = map ce_key t'" unfolding assms by (simp add: key)
  finally show "tkeys t = tkeys t'" by (metis list.set_map)
  show "table_ok t = table_ok t'" using assms by (simp add: table_ok_def)
  show "length t = length t'" using assms by (metis length_map)
qed

lemma Cs_insert_ok:
  assumes ok: "cs_ok s"
  shows "cs_ok (Cs_insert now d u s)"
proof (cases "cs_shouldAdmit s \<and> cs_limit s \<noteq> 0 \<and> \<not> d_noCache d")
  case False
  then show ?thesis using ok by (auto simp: Cs_insert_def)
next
  case True
  then have adm: "cs_shouldAdmit s" "cs_limit s \<noteq> 0" "\<not> d_noCache d" by auto
  have inv: "pol.inv (cs_policy s) (cs_table s)" "length (cs_table s) \<le> cs_limit s"
    using ok by (auto simp: cs_ok_inv)
  show ?thesis
    using ok adm
  proof (cases rule: Cs_insert_cases [where d = d and u = u and now = now])
    case (old t e)
    note same = ekeys_same [OF old(4)]
    have "pol.inv (doAfterRefresh now e (cs_policy s)) t"
      using pol.inv_refresh [OF inv(1), of e t now] old(1,3) same ok by (simp add: cs_ok_def)
    then show ?thesis using inv(2) same(3) by (simp add: old(5) cs_ok_inv)
  next
    case (new t e p t')
    have "pol.inv p t' \<and> length t' = min (cs_limit s) (length t)"
      using pol.inv_insert [OF inv(1) _ new(4) _ new(6)] new(1,3,5) by simp
    then show ?thesis by (simp add: new(7) cs_ok_inv)
  qed
qed

section \<open>Properties\<close>

datatype cs_op = CsInsert int data bool | CsFind int interest | CsErase name nat | CsSetLimit nat
  | CsMoveStale name | CsEnableAdmit bool | CsEnableServe bool

fun cs_step :: "cs_op \<Rightarrow> cs \<Rightarrow> cs" where
  "cs_step (CsInsert now d u) s = Cs_insert now d u s"
| "cs_step (CsFind now i) s = snd (Cs_find now i s)"
| "cs_step (CsErase p n) s = fst (Cs_erase p n s)"
| "cs_step (CsSetLimit n) s = Cs_setLimit n s"
| "cs_step (CsMoveStale i) s = Cs_moveStale i s"
| "cs_step (CsEnableAdmit b) s = Cs_enableAdmit b s"
| "cs_step (CsEnableServe b) s = Cs_enableServe b s"

lemma cs_step_ok: "cs_ok s \<Longrightarrow> cs_ok (cs_step op s)"
proof (cases op)
  case (CsSetLimit n)
  assume "cs_ok s"
  then show ?thesis using Cs_setLimit_ok(1) [of s n] CsSetLimit by (simp add: cs_ok_inv)
qed (simp_all add: Cs_insert_ok Cs_find_ok Cs_erase_ok Cs_moveStale_ok, simp_all add: Cs_enableAdmit_def
  Cs_enableServe_def cs_ok_def)

lemma policy_empty: "pol.inv (LruPolicy []) []" "pol.inv (PriorityFifoPolicy pf_empty) []"
proof -
  have "pf_queue ty pf_empty = []" for ty by (cases ty) (simp_all add: pf_empty_def)
  then show "pol.inv (PriorityFifoPolicy pf_empty) []"
    by (simp add: pol.inv_def table_ok_def pf_keys_def pf_wf_def) (simp add: pf_empty_def)
qed (simp add: pol.inv_def table_ok_def)

lemma cs_new_ok: "pol.inv p [] \<Longrightarrow> cs_ok (Cs_setPolicy p (Cs_new n))"
  unfolding Cs_setPolicy_def by (intro Cs_setLimit_ok(1)) (simp add: Cs_new_def)

text \<open>C29: after any history of insertions, lookups, erasures and limit changes, under either
  replacement policy, the store holds at most its limit of packets, no two of them with
  the same full name, and the policy's queues hold every stored packet exactly once, so
  that eviction never runs into an empty queue.\<close>

theorem cs_invariant:
  "cs_ok (fold cs_step ops (Cs_setPolicy (LruPolicy []) (Cs_new n))) \<and>
   cs_ok (fold cs_step ops (Cs_setPolicy (PriorityFifoPolicy pf_empty) (Cs_new n)))"
  by (intro conjI fold_inv [where P = cs_ok] cs_step_ok cs_new_ok policy_empty)


lemma find_filter: "(\<And>x. x \<in> set xs \<Longrightarrow> P x \<Longrightarrow> Q x) \<Longrightarrow> find P (filter Q xs) = find P xs"
  by (induction xs) auto

lemma cs_find_scan:
  assumes "cs_ok s" and "cs_shouldServe s" and "0 < cs_limit s"
    and "list_all (\<lambda>e. cacheable (ce_data e)) (cs_table s)" and "valid_name (i_name i)"
  shows "fst (Cs_find now i s) = map_option ce_data (find (canSatisfy now i) (cs_table s))"
proof -
  have ok: "table_ok (cs_table s)" using assms(1) by (simp add: cs_ok_def)
  have "e \<in> set (range_entries (i_name i) (cs_table s))"
    if "e \<in> set (cs_table s)" "canSatisfy now i e" for e
    using range_covers [OF ok that(1) _ assms(5)] that assms(4)
    by (auto simp: canSatisfy_def list_all_iff split: if_splits)
  then have "find (canSatisfy now i) (range_entries (i_name i) (cs_table s)) =
      find (canSatisfy now i) (cs_table s)"
    unfolding range_entries_eq [OF ok] by (intro find_filter) auto
  then show ?thesis using assms(2,3) by (auto simp: Cs_find_def split: option.splits)
qed

text \<open>C28: searching only the range the name gives finds what a scan of the whole table finds:
  the first packet, in the canonical order of full names, that can satisfy the Interest;
  a miss means that no stored packet can.\<close>

theorem cs_find_is_scan:
  assumes "cs_ok s" and "cs_shouldServe s" and "0 < cs_limit s"
    and "list_all (\<lambda>e. cacheable (ce_data e)) (cs_table s)" and "valid_name (i_name i)"
  shows "fst (Cs_find now i s) = map_option ce_data (find (canSatisfy now i) (cs_table s))"
  using cs_find_scan [OF assms] .

definition data_a :: data where
  "data_a = \<lparr>d_name = [Component 8 [65]], d_contentType = 0, d_freshness = 10,
     d_content = [], d_digest = replicate 32 7, d_pitToken = None, d_noCache = False\<rparr>"

definition interest_for :: "name \<Rightarrow> interest" where
  "interest_for n = \<lparr>i_name = n, i_canBePrefix = False, i_mustBeFresh = False, i_hint = [],
     i_nonce = 1, i_lifetime = 4000, i_hopLimit = None, i_pitToken = None, i_nextHopFaceId = None\<rparr>"

lemma data_a_cacheable: "cacheable data_a" "valid_name (d_name data_a)"
  by (simp_all add: cacheable_def data_a_def valid_name_def valid_component_alt DIGEST_SIZE_def
      isImplicitSha256Digest_def is_sha256_type_def)

definition cs_with_a :: cs where
  "cs_with_a = (Cs_new 1)\<lparr>cs_table := [CsEntry_new 0 data_a False], cs_policy := LruPolicy [getFullName data_a]\<rparr>"

lemma cs_with_a_ok: "cs_ok cs_with_a"
  by (simp add: cs_with_a_def Cs_new_def cs_ok_def table_ok_def ce_key_def)

theorem cs_find_is_scan_witness:
  "fst (Cs_find 5 (interest_for [Component 8 [65]]) cs_with_a) = Some data_a"
  using cs_find_is_scan [OF cs_with_a_ok, of "interest_for [Component 8 [65]]" 5] data_a_cacheable
  by (simp add: cs_with_a_def Cs_new_def canSatisfy_def matchesData_def interest_for_def data_a_def)

lemma cacheable_key: "getFullName d = getFullName d' \<Longrightarrow> cacheable d \<longleftrightarrow> cacheable d'"
  by (simp add: cacheable_def getFullName_def)

lemma Cs_insert_keys:
  assumes ok: "cs_ok s" and adm: "cs_shouldAdmit s" "cs_limit s \<noteq> 0" "\<not> d_noCache d"
  shows "tkeys (cs_table (Cs_insert now d u s)) \<subseteq> insert (getFullName d) (tkeys (cs_table s))"
    and "cs_policy s = LruPolicy q \<Longrightarrow> getFullName d \<in> tkeys (cs_table (Cs_insert now d u s))"
    and "cs_limit (Cs_insert now d u s) = cs_limit s" "cs_shouldServe (Cs_insert now d u s) = cs_shouldServe s"
proof -
  let ?s = "Cs_insert now d u s" and ?k = "getFullName d"
  have "tkeys (cs_table ?s) \<subseteq> insert ?k (tkeys (cs_table s)) \<and>
    (cs_policy s = LruPolicy q \<longrightarrow> ?k \<in> tkeys (cs_table ?s)) \<and> cs_limit ?s = cs_limit s \<and>
    cs_shouldServe ?s = cs_shouldServe s"
    using ok adm
  proof (cases rule: Cs_insert_cases [where d = d and u = u and now = now])
    case (old t e)
    then show ?thesis using ekeys_same [OF old(4)] by auto
  next
    case (new t e p t')
    have inv: "pol.inv (cs_policy s) (cs_table s)" using ok by (simp add: cs_ok_inv)
    have "set t' \<subseteq> set t" using pol.inv_insert [OF inv _ new(4) _ new(6)] new(1,3,5) by simp
    moreover have "?k \<in> tkeys t'" if q: "cs_policy s = LruPolicy q"
    proof -
      have q': "set q = tkeys (cs_table s)" "distinct q" using ok q by (auto simp: cs_ok_def)
      have dq: "distinct (q @ [?k])" "set (q @ [?k]) = tkeys t" using q' new(1,5) by auto
      have len: "length t = Suc (length q)"
        using length_tkeys [OF new(4)] dq distinct_card [of "q @ [?k]"] by simp
      have "lru_attach now e q = q @ [?k]"
        using new(1,3) q'(1) by (simp add: lru_defs)
      then have "lru_evictEntries (cs_limit s) (q @ [?k]) t = (case p of LruPolicy r \<Rightarrow> r, t')"
        using new(6) q by (auto split: prod.splits)
      from trans [OF this [symmetric] lru_evict_spec [OF new(4) dq]]
      have "t' = filter (\<lambda>x. ce_key x \<in> set (drop (length t - cs_limit s) (q @ [?k]))) t"
        unfolding prod.inject by (rule conjunct2)
      moreover have "?k \<in> set (drop (length t - cs_limit s) (q @ [?k]))"
        using adm(2) len by simp
      ultimately show ?thesis using new(2,3) by (auto intro: rev_image_eqI)
    qed
    ultimately show ?thesis using new(5,7) by auto
  qed
  then show "tkeys (cs_table ?s) \<subseteq> insert ?k (tkeys (cs_table s))"
    "cs_policy s = LruPolicy q \<Longrightarrow> ?k \<in> tkeys (cs_table ?s)"
    "cs_limit ?s = cs_limit s" "cs_shouldServe ?s = cs_shouldServe s" by blast+
qed

lemma full_name_match:
  assumes "cacheable d" and "cacheable d'" and "i_name i = getFullName d" and "\<not> i_canBePrefix i" and "\<not> i_mustBeFresh i"
  shows "matchesData i d' \<longleftrightarrow> getFullName d' = getFullName d"
proof -
  have "isImplicitSha256Digest (Component 1 (d_digest d))"
    using assms(1) by (simp add: cacheable_def isImplicitSha256Digest_def)
  then have "d_name d' \<noteq> getFullName d"
    using assms(2) by (auto simp: cacheable_def getFullName_def list_all_iff)
  then show ?thesis
    using matchesData_spec [of d' i] assms by (auto simp: cacheable_def)
qed

text \<open>Under the LRU policy a packet that was just inserted is not the one that is evicted:
  an Interest for its full name is answered with it.\<close>

theorem cs_insert_find:
  assumes "cs_ok s" and "cs_policy s = LruPolicy q" and "cs_shouldAdmit s" and "cs_shouldServe s"
    and "0 < cs_limit s" and "\<not> d_noCache d" and "cacheable d"
    and "list_all (\<lambda>e. cacheable (ce_data e)) (cs_table s)"
  shows "\<exists>d'. fst (Cs_find now' (interest_for (getFullName d)) (Cs_insert now d u s)) = Some d' \<and>
    getFullName d' = getFullName d"
proof -
  let ?s = "Cs_insert now d u s" and ?i = "interest_for (getFullName d)"
  have adm: "cs_limit s \<noteq> 0" using assms(5) by simp
  note keys = Cs_insert_keys [OF assms(1,3) adm assms(6), where now = now and u = u]
  have c: "cacheable (ce_data e)" if "e \<in> set (cs_table ?s)" for e
  proof -
    have "ce_key e \<in> insert (getFullName d) (tkeys (cs_table s))" using keys(1) that by blast
    then obtain d0 where "cacheable d0" "getFullName (ce_data e) = getFullName d0"
      using assms(7,8) unfolding ce_key_def list_all_iff by blast
    then show ?thesis using cacheable_key by blast
  qed
  have m: "canSatisfy now' ?i e \<longleftrightarrow> ce_key e = getFullName d" if "e \<in> set (cs_table ?s)" for e
    using full_name_match [OF assms(7) c [OF that], of ?i] by (simp add: interest_for_def canSatisfy_def ce_key_def)
  have v: "valid_name (i_name ?i)"
    using assms(7) valid_digest [of "d_digest d"]
    by (simp add: interest_for_def getFullName_def cacheable_def valid_name_def)
  have "fst (Cs_find now' ?i ?s) = map_option ce_data (find (canSatisfy now' ?i) (cs_table ?s))"
    using Cs_insert_ok [OF assms(1)] keys(3,4) assms(4,5) c v
    by (intro cs_find_scan) (auto simp: list_all_iff)
  moreover obtain e0 where "e0 \<in> set (cs_table ?s)" "ce_key e0 = getFullName d"
    using keys(2) [OF assms(2)] by auto
  then obtain e where "find (canSatisfy now' ?i) (cs_table ?s) = Some e"
    using m by (cases "find (canSatisfy now' ?i) (cs_table ?s)") (auto simp: find_None_iff)
  moreover from this have "ce_key e = getFullName d" using m by (auto simp: find_Some_iff)
  ultimately show ?thesis by (simp add: ce_key_def)
qed

theorem cs_insert_find_witness:
  "\<exists>d'. fst (Cs_find 9 (interest_for (getFullName data_a)) (Cs_insert 5 data_a False (Cs_new 1))) = Some d' \<and>
     getFullName d' = getFullName data_a"
proof (rule cs_insert_find)
  show "cs_ok (Cs_new 1)" by (simp add: Cs_new_def cs_ok_def table_ok_def)
qed (simp_all add: data_a_cacheable, simp_all add: Cs_new_def data_a_def)

text \<open>Under the LRU policy, lowering the limit keeps the most recently used packets: those at
  the end of the queue, as many as the limit allows.\<close>

theorem cs_lru_keeps_recent:
  assumes "cs_ok s" and "cs_policy s = LruPolicy q"
  shows "cs_policy (Cs_setLimit n s) = LruPolicy (drop (length q - n) q) \<and>
    cs_table (Cs_setLimit n s) = filter (\<lambda>e. ce_key e \<in> set (drop (length q - n) q)) (cs_table s)"
proof -
  have *: "table_ok (cs_table s)" "distinct q" "set q = tkeys (cs_table s)"
    using assms by (auto simp: cs_ok_def)
  have "length (cs_table s) = length q"
    using length_tkeys [OF *(1)] *(2,3) distinct_card [of q] by simp
  then show ?thesis using lru_evict_spec [OF *, of n] assms(2) by (simp add: Cs_setLimit_def)
qed

theorem cs_lru_keeps_recent_witness:
  "cs_table (Cs_setLimit 0 cs_with_a) = []"
  using cs_lru_keeps_recent [OF cs_with_a_ok, of "[getFullName data_a]" 0] by (simp add: cs_with_a_def)

end
