(* ===== verification/Dead_Nonce_List.thy ===== *)
theory Dead_Nonce_List
  imports Table_Entries
begin

text \<open>
  The dead nonce list (\<^verbatim>\<open>dead-nonce-list.cpp\<close>): a queue of hashes of name and nonce, with
  marks inserted at fixed intervals from which the capacity is adjusted.  CityHash is the
  parameter \<^verbatim>\<open>H\<close> of the definitions that use it.
\<close>

section \<open>Operations\<close>

record dnl =
  dnl_queue :: "64 word list"
  dnl_capacity :: nat
  dnl_counts :: "nat list"

definition INITIAL_CAPACITY :: nat where "INITIAL_CAPACITY = 2 ^ 14"
definition MIN_CAPACITY :: nat where "MIN_CAPACITY = 2 ^ 10"
definition MAX_CAPACITY :: nat where "MAX_CAPACITY = 2 ^ 24"
definition MARK :: "64 word" where "MARK = 0"
definition EXPECTED_MARK_COUNT :: nat where "EXPECTED_MARK_COUNT = 5"
definition EVICT_LIMIT :: nat where "EVICT_LIMIT = 64"
definition MIN_LIFETIME :: int where "MIN_LIFETIME = ms 50"
definition DEFAULT_LIFETIME :: int where "DEFAULT_LIFETIME = ms 6000"

definition DeadNonceList_new :: "int \<Rightarrow> unit + dnl" where
  "DeadNonceList_new lifetime =
     (if lifetime < MIN_LIFETIME then Inl ()
      else Inr \<lparr>dnl_queue = replicate EXPECTED_MARK_COUNT MARK, dnl_capacity = INITIAL_CAPACITY,
                dnl_counts = []\<rparr>)"

definition makeEntry :: "(byte list \<Rightarrow> 32 word \<Rightarrow> 64 word) \<Rightarrow> name \<Rightarrow> 32 word \<Rightarrow> 64 word" where
  "makeEntry H n nonce = H (name_wireEncode n) nonce"

definition countMarks :: "dnl \<Rightarrow> nat" where
  "countMarks l = count_list (dnl_queue l) MARK"

definition dnl_size :: "dnl \<Rightarrow> nat" where
  "dnl_size l = length (dnl_queue l) - countMarks l"

definition dnl_has :: "(byte list \<Rightarrow> 32 word \<Rightarrow> 64 word) \<Rightarrow> name \<Rightarrow> 32 word \<Rightarrow> dnl \<Rightarrow> bool" where
  "dnl_has H n nonce l \<longleftrightarrow> makeEntry H n nonce \<in> set (dnl_queue l)"

definition dnl_evictEntries :: "dnl \<Rightarrow> dnl" where
  "dnl_evictEntries l =
     (if length (dnl_queue l) \<le> dnl_capacity l then l
      else let nEvict = min (length (dnl_queue l) - dnl_capacity l) EVICT_LIMIT
           in l\<lparr>dnl_queue := drop nEvict (dnl_queue l)\<rparr>)"

definition dnl_add :: "(byte list \<Rightarrow> 32 word \<Rightarrow> 64 word) \<Rightarrow> name \<Rightarrow> 32 word \<Rightarrow> dnl \<Rightarrow> dnl" where
  "dnl_add H n nonce l =
     (let entry = makeEntry H n nonce in
      if entry \<in> set (dnl_queue l)
      then l\<lparr>dnl_queue := remove1 entry (dnl_queue l) @ [entry]\<rparr>
      else dnl_evictEntries (l\<lparr>dnl_queue := dnl_queue l @ [entry]\<rparr>))"

definition dnl_mark :: "dnl \<Rightarrow> dnl" where
  "dnl_mark l =
     (let l' = l\<lparr>dnl_queue := dnl_queue l @ [MARK]\<rparr>
      in l'\<lparr>dnl_counts := dnl_counts l' @ [countMarks l']\<rparr>)"

text \<open>
  The bounds of the equal range are at the start, respectively at the end, of the sorted
  counts exactly when all counts are above, respectively below, the expected one.  The
  products with the constants 0.9 and 1.2 are exact up to rounding below one tenth, so
  their truncation is the integer quotient.
\<close>

definition adjustCapacity :: "dnl \<Rightarrow> dnl" where
  "adjustCapacity l =
     (let cap = (if list_all (\<lambda>c. c > EXPECTED_MARK_COUNT) (dnl_counts l)
                 then max MIN_CAPACITY (dnl_capacity l * 9 div 10)
                 else if list_all (\<lambda>c. c < EXPECTED_MARK_COUNT) (dnl_counts l)
                 then min MAX_CAPACITY (dnl_capacity l * 12 div 10)
                 else dnl_capacity l)
      in dnl_evictEntries (l\<lparr>dnl_capacity := cap, dnl_counts := []\<rparr>))"

section \<open>Lemmas\<close>

definition dnl_ok :: "dnl \<Rightarrow> bool" where
  "dnl_ok l \<longleftrightarrow> MIN_CAPACITY \<le> dnl_capacity l \<and> dnl_capacity l \<le> MAX_CAPACITY"

datatype dnl_op = DnlAdd name "32 word" | DnlMark | DnlAdjust

fun dnl_step :: "(byte list \<Rightarrow> 32 word \<Rightarrow> 64 word) \<Rightarrow> dnl_op \<Rightarrow> dnl \<Rightarrow> dnl" where
  "dnl_step H (DnlAdd n nonce) l = dnl_add H n nonce l"
| "dnl_step H DnlMark l = dnl_mark l"
| "dnl_step H DnlAdjust l = adjustCapacity l"

lemma evict_capacity [simp]: "dnl_capacity (dnl_evictEntries l) = dnl_capacity l"
  by (simp add: dnl_evictEntries_def Let_def)

lemma dnl_step_ok: "dnl_ok l \<Longrightarrow> dnl_ok (dnl_step H op l)"
  by (cases op) (auto simp: dnl_ok_def dnl_add_def dnl_mark_def adjustCapacity_def Let_def
      MIN_CAPACITY_def MAX_CAPACITY_def)

text \<open>The last \<^verbatim>\<open>m\<close> elements of the queue.\<close>

definition recent :: "nat \<Rightarrow> 64 word \<Rightarrow> dnl \<Rightarrow> bool" where
  "recent m x l \<longleftrightarrow> x \<in> set (drop (length (dnl_queue l) - m) (dnl_queue l))"

lemma recent_in: "recent m x l \<Longrightarrow> x \<in> set (dnl_queue l)"
  by (auto simp: recent_def dest: in_set_dropD)

lemma evict_recent:
  assumes "dnl_ok l" and "recent m x l" and "m \<le> MIN_CAPACITY"
  shows "recent m x (dnl_evictEntries l)"
proof (cases "length (dnl_queue l) \<le> dnl_capacity l")
  case False
  define k where "k = min (length (dnl_queue l) - dnl_capacity l) EVICT_LIMIT"
  have "k + m \<le> length (dnl_queue l)" using assms(1,3) False by (auto simp: k_def dnl_ok_def)
  then have "length (dnl_queue l) - k - m + k = length (dnl_queue l) - m" by simp
  then show ?thesis
    using assms(2) False by (simp add: recent_def dnl_evictEntries_def Let_def k_def [symmetric])
qed (use assms(2) in \<open>simp add: dnl_evictEntries_def\<close>)

lemma drop_snoc_mem: "x \<in> set (drop (length q - m) q) \<Longrightarrow> x \<in> set (drop (Suc (length q) - Suc m) (q @ [y]))"
  by simp

lemma relocate_mem:
  assumes "x \<in> set (drop (length q - m) q)" and "y \<in> set q"
  shows "x \<in> set (drop (length q - Suc m) (remove1 y q @ [y]))"
proof (cases "x = y")
  case True
  then show ?thesis using assms(2) length_pos_if_in_set [OF assms(2)]
    by (auto simp: length_remove1 drop_Cons' )
next
  case False
  have "x \<in> set (drop (length q - Suc m) (remove1 y q))"
  proof -
    have q: "q = take (length q - m) q @ drop (length q - m) q" by simp
    show ?thesis
    proof (cases "y \<in> set (take (length q - m) q)")
      case True
      then have "remove1 y q = remove1 y (take (length q - m) q) @ drop (length q - m) q"
        by (metis q remove1_append)
      moreover have "length (remove1 y (take (length q - m) q)) = length q - Suc m"
        using True by (simp add: length_remove1)
      ultimately show ?thesis using assms(1) by simp
    next
      case False
      then have "remove1 y q = take (length q - m) q @ remove1 y (drop (length q - m) q)"
        by (metis q remove1_append)
      moreover have "x \<in> set (remove1 y (drop (length q - m) q))"
        using assms(1) \<open>x \<noteq> y\<close> by simp
      ultimately show ?thesis by (simp add: drop_append)
    qed
  qed
  then show ?thesis by (simp add: drop_append)
qed

lemma dnl_step_recent:
  assumes "dnl_ok l" and "recent m x l" and "m < MIN_CAPACITY"
  shows "recent (Suc m) x (dnl_step H op l)"
proof (cases op)
  case (DnlAdd n nonce)
  let ?e = "makeEntry H n nonce"
  show ?thesis
  proof (cases "?e \<in> set (dnl_queue l)")
    case True
    then show ?thesis
      using relocate_mem [OF assms(2) [unfolded recent_def] True] length_pos_if_in_set [OF True]
      by (simp add: DnlAdd dnl_add_def Let_def recent_def length_remove1)
  next
    case False
    have "recent (Suc m) x (l\<lparr>dnl_queue := dnl_queue l @ [?e]\<rparr>)"
      using assms(2) by (simp add: recent_def)
    then have "recent (Suc m) x (dnl_evictEntries (l\<lparr>dnl_queue := dnl_queue l @ [?e]\<rparr>))"
      using assms(1,3) by (intro evict_recent) (simp_all add: dnl_ok_def)
    then show ?thesis using False by (simp add: DnlAdd dnl_add_def Let_def)
  qed
next
  case DnlMark
  then show ?thesis using assms(2) by (simp add: dnl_mark_def Let_def recent_def)
next
  case DnlAdjust
  obtain cap where cap: "adjustCapacity l = dnl_evictEntries (l\<lparr>dnl_capacity := cap, dnl_counts := []\<rparr>)"
    by (simp add: adjustCapacity_def Let_def)
  define l' where "l' = l\<lparr>dnl_capacity := cap, dnl_counts := []\<rparr>"
  have l': "adjustCapacity l = dnl_evictEntries l'" "dnl_queue l' = dnl_queue l" "dnl_ok l'"
    using cap dnl_step_ok [OF assms(1), of H DnlAdjust] by (simp_all add: l'_def dnl_ok_def)
  have "set (drop (length (dnl_queue l) - m) (dnl_queue l)) \<subseteq>
      set (drop (length (dnl_queue l) - Suc m) (dnl_queue l))"
    by (rule set_drop_subset_set_drop) simp
  then have "recent (Suc m) x l'" using assms(2) l'(2) by (auto simp: recent_def)
  then show ?thesis using evict_recent [OF l'(3)] assms(3) by (simp add: DnlAdjust l'(1))
qed

lemma dnl_run_recent:
  "dnl_ok l \<Longrightarrow> recent m x l \<Longrightarrow> m + length ops \<le> MIN_CAPACITY \<Longrightarrow>
     recent (m + length ops) x (fold (dnl_step H) ops l)"
proof (induction ops arbitrary: l m)
  case (Cons op ops)
  then show ?case
    using Cons.IH [OF dnl_step_ok [OF Cons.prems(1)] dnl_step_recent [OF Cons.prems(1,2)]] by simp
qed simp

lemma add_recent: "dnl_ok l \<Longrightarrow> recent 1 (makeEntry H n nonce) (dnl_add H n nonce l)"
proof -
  assume ok: "dnl_ok l"
  let ?e = "makeEntry H n nonce"
  have "recent 1 ?e (dnl_evictEntries (l\<lparr>dnl_queue := dnl_queue l @ [?e]\<rparr>))"
    using ok by (intro evict_recent) (simp_all add: dnl_ok_def recent_def MIN_CAPACITY_def)
  then show ?thesis by (auto simp: dnl_add_def Let_def recent_def)
qed

section \<open>Properties\<close>

text \<open>A nonce stays in the dead nonce list for at least \<^verbatim>\<open>MIN_CAPACITY - 1\<close> further
  operations, whatever they are: insertions, marks, or adjustments that lower the
  capacity.\<close>

theorem dead_nonce_kept:
  assumes "dnl_ok l" and "length ops < MIN_CAPACITY"
  shows "dnl_has H n nonce (fold (dnl_step H) ops (dnl_add H n nonce l))"
proof -
  have "dnl_ok (dnl_add H n nonce l)" using dnl_step_ok [OF assms(1), of H "DnlAdd n nonce"] by simp
  from dnl_run_recent [OF this add_recent [OF assms(1)], of ops] assms(2)
  show ?thesis by (auto simp: dnl_has_def dest: recent_in)
qed

definition dnl_fresh :: dnl where
  "dnl_fresh = \<lparr>dnl_queue = replicate EXPECTED_MARK_COUNT MARK, dnl_capacity = INITIAL_CAPACITY, dnl_counts = []\<rparr>"

theorem dead_nonce_kept_witness:
  "dnl_ok dnl_fresh \<and> dnl_has (\<lambda>bs x. of_nat (length bs)) [] 7 (fold (dnl_step (\<lambda>bs x. of_nat (length bs)))
     [DnlMark, DnlAdjust, DnlAdd [Component 8 [1]] 9] (dnl_add (\<lambda>bs x. of_nat (length bs)) [] 7 dnl_fresh))"
proof -
  have ok: "dnl_ok dnl_fresh"
    by (simp add: dnl_ok_def dnl_fresh_def INITIAL_CAPACITY_def MIN_CAPACITY_def MAX_CAPACITY_def)
  moreover have "length [DnlMark, DnlAdjust, DnlAdd [Component 8 [1]] 9] < MIN_CAPACITY"
    by (simp add: MIN_CAPACITY_def)
  ultimately show ?thesis using dead_nonce_kept by blast
qed

text \<open>The capacity stays between its hard limits whatever the mark counts are, starting from
  a list that was constructed; construction fails exactly for a lifetime below the minimum.\<close>

theorem dead_nonce_capacity_bounds:
  "case DeadNonceList_new lifetime of
     Inl _ \<Rightarrow> lifetime < MIN_LIFETIME
   | Inr l \<Rightarrow> MIN_LIFETIME \<le> lifetime \<and> dnl_ok (fold (dnl_step H) ops l)"
proof (cases "lifetime < MIN_LIFETIME")
  case False
  have "dnl_ok dnl_fresh"
    by (simp add: dnl_ok_def dnl_fresh_def INITIAL_CAPACITY_def MIN_CAPACITY_def MAX_CAPACITY_def)
  then have "dnl_ok (fold (dnl_step H) ops dnl_fresh)"
    by (rule fold_inv [where P = dnl_ok]) (rule dnl_step_ok)
  then show ?thesis using False by (simp add: DeadNonceList_new_def dnl_fresh_def)
qed (simp add: DeadNonceList_new_def)

end
