(* ===== verification/Kite_Packets.thy ===== *)
theory Kite_Packets
  imports Interest_Codec Strategy_Registry
begin

text \<open>
  The packets of the KITE protocol: prefix announcements (\<^verbatim>\<open>prefix-announcement.cpp\<close>,
  \<^verbatim>\<open>security/validity-period.cpp\<close>), acknowledgments (\<^verbatim>\<open>kite/ack.cpp\<close>), requests
  (\<^verbatim>\<open>kite/request.cpp\<close>) and the signing of Interests
  (\<^verbatim>\<open>security/interest-signer.cpp\<close>, the \<^verbatim>\<open>sign\<close> methods of
  \<^verbatim>\<open>security/key-chain.cpp\<close>).  The key chosen by the key chain (its signature type and
  locator), the signature value computed from a packet, SHA-256 and the conversion of
  ISO date strings are arguments of the definitions.
\<close>

section \<open>Signature elements\<close>

definition addCustomTlv :: "block \<Rightarrow> signature_info \<Rightarrow> signature_info" where
  "addCustomTlv b si =
     (case find_element (btype b) (si_otherTlvs si) of
        None \<Rightarrow> si\<lparr>si_otherTlvs := si_otherTlvs si @ [b]\<rparr>
      | Some old \<Rightarrow> if old \<noteq> b then si\<lparr>si_otherTlvs := replace_first (btype b) b (si_otherTlvs si)\<rparr> else si)"

definition removeCustomTlv :: "nat \<Rightarrow> signature_info \<Rightarrow> signature_info" where
  "removeCustomTlv t si = si\<lparr>si_otherTlvs := filter (\<lambda>b. btype b \<noteq> t) (si_otherTlvs si)\<rparr>"

definition si_setNonce :: "byte list option \<Rightarrow> signature_info \<Rightarrow> signature_info" where
  "si_setNonce nonce si =
     (case nonce of None \<Rightarrow> removeCustomTlv 38 si | Some n \<Rightarrow> addCustomTlv (Block 38 n) si)"

definition si_getNonce :: "signature_info \<Rightarrow> byte list option" where
  "si_getNonce si = map_option bvalue (find_element 38 (si_otherTlvs si))"

text \<open>Times are milliseconds since the Unix epoch.\<close>

definition si_setTime :: "int option \<Rightarrow> signature_info \<Rightarrow> signature_info" where
  "si_setTime t si =
     (case t of None \<Rightarrow> removeCustomTlv 40 si
      | Some x \<Rightarrow> addCustomTlv (makeNonNegativeIntegerBlock 40 (duration_count x)) si)"

definition si_getTime :: "signature_info \<Rightarrow> tlv_error + int option" where
  "si_getTime si =
     (case find_element 40 (si_otherTlvs si) of
        None \<Rightarrow> Inr None
      | Some b \<Rightarrow> bind_sum (block_readNonNegativeInteger b) (\<lambda>v. Inr (Some (duration_of v))))"

section \<open>Signing\<close>

text \<open>The key found in the PIB: its signature type and the name that locates its certificate.\<close>

record signing_key =
  sk_type :: nat
  sk_locator :: key_locator

definition prepareSignatureInfo :: "signing_key \<Rightarrow> signature_info \<Rightarrow> signature_info" where
  "prepareSignatureInfo k si =
     si\<lparr>si_type := Some (sk_type k),
        si_keyLocator := (if si_keyLocator si = None then Some (sk_locator k) else si_keyLocator si)\<rparr>"

text \<open>The signature value is appended to the unsigned portion, and the result is decoded.\<close>

definition KeyChain_sign_data ::
  "signing_key \<Rightarrow> (block list \<Rightarrow> byte list) \<Rightarrow> data_packet \<Rightarrow> tlv_error + data_packet" where
  "KeyChain_sign_data k sign d =
     bind_sum (Data_unsigned_elements (d\<lparr>dp_signatureInfo := prepareSignatureInfo k SignatureInfo_new\<rparr>)) (\<lambda>els.
       Data_wireDecode (Block 6 (elements_encode (els @ [Block 23 (sign els)]))))"

definition extractSignedRanges ::
  "(byte list \<Rightarrow> byte list) \<Rightarrow> byte list \<Rightarrow> interest_packet \<Rightarrow> tlv_error + interest_packet" where
  "extractSignedRanges H rnd i =
     bind_sum (Interest_wireEncode rnd i) (\<lambda>w.
     bind_sum (Interest_wireDecode H w) (\<lambda>i'.
       if ctype (name_get (ip_name i') (- 1)) \<noteq> 2 then Inl ParametersDigestError
       else if findFirstParameter 44 i' = None then Inl (MissingElement 44)
       else Inr i'))"

definition KeyChain_sign_interest ::
  "(byte list \<Rightarrow> byte list) \<Rightarrow> byte list \<Rightarrow> signing_key \<Rightarrow> (interest_packet \<Rightarrow> byte list) \<Rightarrow> signature_info \<Rightarrow>
   interest_packet \<Rightarrow> tlv_error + interest_packet" where
  "KeyChain_sign_interest H rnd k sign info i =
     bind_sum (ip_setSignatureInfo H (prepareSignatureInfo k info) i) (\<lambda>i1.
     bind_sum (extractSignedRanges H rnd i1) (\<lambda>i2.
       setSignatureValueInternal H (Block 46 (sign i2)) i2))"

text \<open>
  The time stamp of a signed Interest: the current time unless it is not at least a
  millisecond after the last one used; in nanoseconds, with the next last time.
\<close>

definition getFreshTimestamp :: "int \<Rightarrow> int \<Rightarrow> int" where
  "getFreshTimestamp now m_lastUsedTimestamp =
     (let diff = now - m_lastUsedTimestamp;
          cast = (if diff \<ge> 0 then diff div 1000000 else - ((- diff) div 1000000))
      in if cast > 0 then now else m_lastUsedTimestamp + 1000000)"

definition makeSignedInterest ::
  "(byte list \<Rightarrow> byte list) \<Rightarrow> byte list \<Rightarrow> signing_key \<Rightarrow> (interest_packet \<Rightarrow> byte list) \<Rightarrow> byte list \<Rightarrow> int \<Rightarrow>
   interest_packet \<Rightarrow> tlv_error + interest_packet" where
  "makeSignedInterest H rnd k sign nonce timestamp i =
     KeyChain_sign_interest H rnd k sign
       (si_setTime (Some (timestamp div 1000000)) (si_setNonce (Some nonce) SignatureInfo_new)) i"

section \<open>Validity periods and prefix announcements\<close>

text \<open>Times in seconds; \<^verbatim>\<open>toIso\<close> and \<^verbatim>\<open>fromIso\<close> convert them.\<close>

type_synonym validity_period = "int \<times> int"

definition ValidityPeriod_wireEncode :: "(int \<Rightarrow> byte list) \<Rightarrow> validity_period \<Rightarrow> block" where
  "ValidityPeriod_wireEncode toIso v =
     Block 253 (elements_encode [Block 254 (toIso (fst v)), Block 255 (toIso (snd v))])"

definition ValidityPeriod_wireDecode :: "(byte list \<Rightarrow> int option) \<Rightarrow> block \<Rightarrow> tlv_error + validity_period" where
  "ValidityPeriod_wireDecode fromIso wire =
     bind_sum (parse wire) (\<lambda>els.
       if btype wire \<noteq> 253 then Inl (UnexpectedType (btype wire))
       else case els of
              [nb, na] \<Rightarrow>
                if btype nb \<noteq> 254 \<or> length (bvalue nb) \<noteq> 15 \<or> btype na \<noteq> 255 \<or> length (bvalue na) \<noteq> 15
                then Inl (Malformed 253)
                else (case (fromIso (bvalue nb), fromIso (bvalue na)) of
                        (Some b, Some a) \<Rightarrow> Inr (b, a)
                      | _ \<Rightarrow> Inl WrongFormat)
            | _ \<Rightarrow> Inl (Malformed 253))"

record prefix_ann =
  pa_name :: name
  pa_expiration :: int
  pa_validity :: "validity_period option"

definition getKeywordComponent :: component where
  "getKeywordComponent = Component 32 [0x50, 0x41]"

definition content_value :: "data_packet \<Rightarrow> byte list" where
  "content_value d = (case dp_content d of None \<Rightarrow> [] | Some c \<Rightarrow> bvalue c)"

definition PrefixAnnouncement_of :: "(byte list \<Rightarrow> int option) \<Rightarrow> data_packet \<Rightarrow> tlv_error + prefix_ann" where
  "PrefixAnnouncement_of fromIso d =
     (let dataName = dp_name d in
      if length dataName < 3 \<or> name_get dataName (- 3) \<noteq> getKeywordComponent \<or>
         \<not> isVersion EITHER (name_get dataName (- 2)) \<or> \<not> isSegment EITHER (name_get dataName (- 1))
      then Inl NotAnAnnouncement
      else if mi_type (dp_metaInfo d) \<noteq> 5 then Inl NotAnAnnouncement
      else if content_value d = [] then Inl (EmptyValue 21)
      else bind_sum (parse_elements (content_value d)) (\<lambda>payload.
           bind_sum (get_element 109 payload) (\<lambda>b.
           bind_sum (block_readNonNegativeInteger b) (\<lambda>v.
           bind_sum (case find_element 253 payload of
                       None \<Rightarrow> Inr None
                     | Some x \<Rightarrow> bind_sum (ValidityPeriod_wireDecode fromIso x) (\<lambda>p. Inr (Some p))) (\<lambda>validity.
             case find (\<lambda>e. btype e \<noteq> 109 \<and> btype e \<noteq> 253 \<and> isCriticalType (btype e)) payload of
               Some e \<Rightarrow> Inl (UnrecognizedCritical (btype e))
             | None \<Rightarrow> Inr \<lparr>pa_name = getPrefix dataName (- 3), pa_expiration = duration_of v,
                           pa_validity = validity\<rparr>)))))"

definition PrefixAnnouncement_data :: "(int \<Rightarrow> byte list) \<Rightarrow> 64 word \<Rightarrow> prefix_ann \<Rightarrow> data_packet" where
  "PrefixAnnouncement_data toIso version pa =
     (Data_new (pa_name pa @ [getKeywordComponent, fromVersion TYPED version, fromSegment TYPED 0]))
     \<lparr>dp_metaInfo := MetaInfo_new\<lparr>mi_type := 5\<rparr>,
      dp_content := Some (Block 21 (elements_encode
        (makeNonNegativeIntegerBlock 109 (duration_count (pa_expiration pa)) #
         (case pa_validity pa of None \<Rightarrow> [] | Some v \<Rightarrow> [ValidityPeriod_wireEncode toIso v]))))\<rparr>"

definition PrefixAnnouncement_toData ::
  "signing_key \<Rightarrow> (block list \<Rightarrow> byte list) \<Rightarrow> (int \<Rightarrow> byte list) \<Rightarrow> 64 word \<Rightarrow> prefix_ann \<Rightarrow> tlv_error + data_packet" where
  "PrefixAnnouncement_toData k sign toIso version pa =
     KeyChain_sign_data k sign (PrefixAnnouncement_data toIso version pa)"

definition pa_setExpiration :: "int \<Rightarrow> prefix_ann \<Rightarrow> interest_error + prefix_ann" where
  "pa_setExpiration t pa = (if t < 0 then Inl InvalidArgument else Inr (pa\<lparr>pa_expiration := t\<rparr>))"

section \<open>Requests\<close>

text \<open>The RV prefix and the producer suffix of a name; errors are \<^verbatim>\<open>std::invalid_argument\<close>.\<close>

definition extractPrefixes :: "name \<Rightarrow> interest_error + (name \<times> name)" where
  "extractPrefixes n =
     (let keywordPos = length (takeWhile (\<lambda>c. c \<noteq> KITE_KEYWORD) n) in
      if keywordPos = 0 then Inl InvalidArgument
      else if keywordPos = length n then Inl InvalidArgument
      else (let rvPrefix = getPrefix n (int keywordPos);
                producerSuffixLength = int (length n) - int keywordPos - 1 - 1
            in if producerSuffixLength > 0
               then Inr (rvPrefix, getSubName n (int keywordPos + 1) (Some (nat producerSuffixLength)))
               else Inl InvalidArgument))"

record request =
  rq_rvPrefix :: name
  rq_producerSuffix :: name
  rq_expiration :: "int option"
  rq_nonce :: "byte list option"
  rq_timestamp :: "int option"

definition Request_new :: request where
  "Request_new = \<lparr>rq_rvPrefix = [], rq_producerSuffix = [], rq_expiration = None, rq_nonce = None, rq_timestamp = None\<rparr>"

definition Request_decode :: "interest_packet \<Rightarrow> request \<Rightarrow> tlv_error + request" where
  "Request_decode i r =
     bind_sum (isSigned i) (\<lambda>signed.
     if \<not> signed then Inl NotSigned
     else bind_sum (getSignatureInfo i) (\<lambda>si.
     if si_getNonce (the si) = None then Inl (MissingElement 38)
     else bind_sum (si_getTime (the si)) (\<lambda>time.
     if time = None then Inl (MissingElement 38)
     else (case extractPrefixes (ip_name i) of
             Inl _ \<Rightarrow> Inl WrongFormat
           | Inr (rvPrefix, producerSuffix) \<Rightarrow>
               bind_sum (parse (hd (ip_parameters i))) (\<lambda>params.
               bind_sum (case find_element 109 params of
                           None \<Rightarrow> Inr (rq_expiration r)
                         | Some b \<Rightarrow> bind_sum (block_readNonNegativeInteger b) (\<lambda>v. Inr (Some (duration_of v)))) (\<lambda>expiration.
                 Inr \<lparr>rq_rvPrefix = rvPrefix, rq_producerSuffix = producerSuffix, rq_expiration = expiration,
                      rq_nonce = si_getNonce (the si), rq_timestamp = time\<rparr>))))))"

definition Request_makeInterest ::
  "(byte list \<Rightarrow> byte list) \<Rightarrow> byte list \<Rightarrow> signing_key \<Rightarrow> (interest_packet \<Rightarrow> byte list) \<Rightarrow> byte list \<Rightarrow> int \<Rightarrow>
   request \<Rightarrow> interest_error + interest_packet" where
  "Request_makeInterest H rnd k sign nonce timestamp r =
     (if rq_rvPrefix r = [] then Inl InvalidArgument
      else if rq_producerSuffix r = [] then Inl InvalidArgument
      else bind_sum (ip_setName H (rq_rvPrefix r @ [KITE_KEYWORD] @ rq_producerSuffix r) (Interest_new [])) (\<lambda>i0.
           let i1 = (case rq_expiration r of
                       None \<Rightarrow> i0
                     | Some t \<Rightarrow> setApplicationParameters H (makeNonNegativeIntegerBlock 109 (duration_count t)) i0)
           in case makeSignedInterest H rnd k sign nonce timestamp i1 of
                Inl e \<Rightarrow> Inl (TlvError e)
              | Inr i \<Rightarrow> Inr i))"

definition getProducerPrefix :: "request \<Rightarrow> name" where
  "getProducerPrefix r = rq_producerSuffix r"

definition rq_setExpiration :: "int \<Rightarrow> request \<Rightarrow> interest_error + request" where
  "rq_setExpiration t r = (if t < 0 then Inl InvalidArgument else Inr (r\<lparr>rq_expiration := Some t\<rparr>))"

section \<open>Acknowledgments\<close>

text \<open>The announcement in an acknowledgment with the given content type and content.\<close>

definition Ack_of :: "(byte list \<Rightarrow> int option) \<Rightarrow> nat \<Rightarrow> byte list \<Rightarrow> tlv_error + prefix_ann" where
  "Ack_of fromIso contentType content =
     (if contentType \<noteq> 6 then Inl NotAnAck
      else bind_sum (parse_elements content) (\<lambda>payload.
        case bind_sum (get_element 6 payload) (\<lambda>b.
             bind_sum (Data_wireDecode b) (PrefixAnnouncement_of fromIso)) of
          Inl _ \<Rightarrow> Inl NotAnAck
        | Inr pa \<Rightarrow> Inr pa))"

definition Ack_makeData ::
  "signing_key \<Rightarrow> (block list \<Rightarrow> byte list) \<Rightarrow> (int \<Rightarrow> byte list) \<Rightarrow> 64 word \<Rightarrow> name \<Rightarrow> prefix_ann option \<Rightarrow>
   interest_error + data_packet" where
  "Ack_makeData k sign toIso version interestName prefixAnn =
     (case prefixAnn of
        None \<Rightarrow> Inl InvalidArgument
      | Some pa \<Rightarrow>
          bind_sum (extractPrefixes interestName) (\<lambda>(rvPrefix, producerSuffix).
          if producerSuffix \<noteq> pa_name pa then Inl InvalidArgument
          else case bind_sum (PrefixAnnouncement_toData k sign toIso version pa) (\<lambda>paData.
                    bind_sum (Data_wireEncode paData) (\<lambda>w.
                    KeyChain_sign_data k sign
                      (setContent (Block 21 (elements_encode [w]))
                        ((Data_new interestName)\<lparr>dp_metaInfo := MetaInfo_new\<lparr>mi_type := 6\<rparr>\<rparr>)))) of
                 Inl e \<Rightarrow> Inl (TlvError e)
               | Inr d \<Rightarrow> Inr d))"

section \<open>Lemmas\<close>

lemma block_encode_length: "length (block_encode b) \<le> length (bvalue b) + 18"
proof -
  have "sizeOfVarNumber n \<le> 9" for n by (simp add: sizeOfVarNumber_def)
  from this [of "of_nat (btype b)"] this [of "of_nat (length (bvalue b))"]
  show ?thesis by (simp add: block_encode_eq sizeOf_write)
qed

lemma nni_block_length: "length (bvalue (makeNonNegativeIntegerBlock t v)) \<le> 8"
  using sizeOfNni_cases [of v]
  by (auto simp: makeNonNegativeIntegerBlock_def prepend_nni_is_write sizeOf_write_nni)

lemma nni_encode_length: "length (block_encode (makeNonNegativeIntegerBlock t v)) \<le> 26"
  using block_encode_length [of "makeNonNegativeIntegerBlock t v"] nni_block_length [of t v] by linarith

definition signing_key_ok :: "signing_key \<Rightarrow> bool" where
  "signing_key_ok k \<longleftrightarrow> sk_type k < 2 ^ 16 \<and> locator_ok (sk_locator k) \<and>
     (case KeyLocator_wireEncode (sk_locator k) of Inl _ \<Rightarrow> False | Inr b \<Rightarrow> length (bvalue b) < 2 ^ 32)"

lemma no_locator [simp]:
  "si_keyLocator SignatureInfo_new = None"
  "si_keyLocator (si_setTime t si) = si_keyLocator si"
  "si_keyLocator (si_setNonce n si) = si_keyLocator si"
  by (auto simp: SignatureInfo_new_def si_setTime_def si_setNonce_def addCustomTlv_def removeCustomTlv_def
      split: option.splits)

lemma sign_info_encode:
  assumes "signing_key_ok k" and "si_keyLocator si = None"
  shows "\<exists>b. SignatureInfo_wireEncode type (prepareSignatureInfo k si) = Inr b \<and> btype b = type \<and>
    length (bvalue b) < 2 ^ 33 + length (elements_encode (si_otherTlvs si))"
proof -
  obtain lb where lb: "KeyLocator_wireEncode (sk_locator k) = Inr lb" "length (bvalue lb) < 2 ^ 32"
    using assms by (auto simp: signing_key_ok_def split: sum.splits)
  define t where "t = makeNonNegativeIntegerBlock 27 (of_nat (sk_type k))"
  define b where "b = Block type (elements_encode (t # [lb] @ si_otherTlvs si))"
  have "SignatureInfo_wireEncode type (prepareSignatureInfo k si) = Inr b"
    using lb(1) assms(2) by (simp add: SignatureInfo_wireEncode_def prepareSignatureInfo_def b_def t_def)
  moreover have "length (bvalue b) < 2 ^ 33 + length (elements_encode (si_otherTlvs si))"
  proof -
    have "length (block_encode t) \<le> 26" unfolding t_def by (rule nni_encode_length)
    moreover have "length (block_encode lb) \<le> length (bvalue lb) + 18" by (rule block_encode_length)
    ultimately have "length (block_encode t) + length (block_encode lb) < 2 ^ 33" using lb(2) by simp
    then show ?thesis by (simp add: b_def)
  qed
  ultimately show ?thesis by (auto simp: b_def)
qed

lemma sign_data:
  assumes key: "signing_key_ok k" and name: "valid_name (dp_name d)" "length (bvalue (name_block (dp_name d))) < 2 ^ 32"
    and meta: "dp_metaInfo d = MetaInfo_new\<lparr>mi_type := t\<rparr>" "t < 2 ^ 32"
    and content: "dp_content d = Some (Block 21 c)" "length c < 2 ^ 60"
    and sign: "\<And>els. length (sign els) < 2 ^ 32"
  shows "\<exists>d' w. KeyChain_sign_data k sign d = Inr d' \<and> dp_name d' = dp_name d \<and> dp_metaInfo d' = dp_metaInfo d \<and>
    dp_content d' = dp_content d \<and> Data_wireEncode d' = Inr w \<and> Data_wireDecode w = Inr d' \<and> btype w = 6 \<and>
    length (bvalue w) < length c + 2 ^ 40"
proof -
  let ?d = "d\<lparr>dp_signatureInfo := prepareSignatureInfo k SignatureInfo_new\<rparr>"
  obtain sb where sb: "SignatureInfo_wireEncode 22 (prepareSignatureInfo k SignatureInfo_new) = Inr sb" "length (bvalue sb) < 2 ^ 33"
    using sign_info_encode [OF key no_locator(1), of 22] by (auto simp: SignatureInfo_new_def)
  define els where "els = [name_block (dp_name d), MetaInfo_wireEncode (dp_metaInfo d), Block 21 c, sb]"
  have els: "Data_unsigned_elements ?d = Inr els"
    using sb(1) content(1) by (simp add: Data_unsigned_elements_def els_def)
  define d' where "d' = ?d\<lparr>dp_signatureValue := Some (Block 23 (sign els))\<rparr>"
  define w where "w = Block 6 (elements_encode (els @ [Block 23 (sign els)]))"
  have ok: "data_ok d'"
    using key name meta content
    by (simp add: data_ok_def d'_def meta_ok_def MetaInfo_new_def DEFAULT_FRESHNESS_PERIOD_def sig_ok_def
        prepareSignatureInfo_def signing_key_ok_def SignatureInfo_new_def)
  have un: "Data_unsigned_elements d' = Inr els"
    using els by (simp add: d'_def Data_unsigned_elements_def)
  have enc: "Data_wireEncode d' = Inr w"
    using un by (simp add: Data_wireEncode_def w_def) (simp add: d'_def prepareSignatureInfo_def)
  have m: "length (bvalue (MetaInfo_wireEncode (dp_metaInfo d))) \<le> 26"
    using nni_encode_length [of 24 "of_nat t"] meta(1)
    by (simp add: MetaInfo_wireEncode_def MetaInfo_new_def DEFAULT_FRESHNESS_PERIOD_def)
  have len: "length (bvalue w) < length c + 2 ^ 40"
  proof -
    note b = block_encode_length
    show ?thesis
      using b [of "name_block (dp_name d)"] b [of "MetaInfo_wireEncode (dp_metaInfo d)"] b [of "Block 21 c"] b [of sb]
        b [of "Block 23 (sign els)"] name(2) m sb(2) sign [of els]
      by (simp add: w_def els_def)
  qed
  have dec: "Data_wireDecode w = Inr d'"
    using data_roundtrip [OF ok enc] len content(2) by simp
  have "KeyChain_sign_data k sign d = Inr d'"
    using els dec by (simp add: KeyChain_sign_data_def w_def)
  then show ?thesis using enc dec len by (auto simp: d'_def w_def)
qed

definition iso_ok :: "(int \<Rightarrow> byte list) \<Rightarrow> (byte list \<Rightarrow> int option) \<Rightarrow> int \<Rightarrow> bool" where
  "iso_ok toIso fromIso t \<longleftrightarrow> length (toIso t) = 15 \<and> fromIso (toIso t) = Some t"

definition pa_ok :: "(int \<Rightarrow> byte list) \<Rightarrow> (byte list \<Rightarrow> int option) \<Rightarrow> prefix_ann \<Rightarrow> bool" where
  "pa_ok toIso fromIso pa \<longleftrightarrow> valid_name (pa_name pa) \<and> length (bvalue (name_block (pa_name pa))) < 2 ^ 31 \<and>
     0 \<le> pa_expiration pa \<and> pa_expiration pa < 2 ^ 63 \<and>
     (case pa_validity pa of None \<Rightarrow> True
      | Some (nb, na) \<Rightarrow> iso_ok toIso fromIso nb \<and> iso_ok toIso fromIso na)"

lemma validity_roundtrip:
  assumes "iso_ok toIso fromIso nb" and "iso_ok toIso fromIso na"
  shows "ValidityPeriod_wireDecode fromIso (ValidityPeriod_wireEncode toIso (nb, na)) = Inr (nb, na)"
    and "length (bvalue (ValidityPeriod_wireEncode toIso (nb, na))) \<le> 66"
proof -
  let ?els = "[Block 254 (toIso nb), Block 255 (toIso na)]"
  show len: "length (bvalue (ValidityPeriod_wireEncode toIso (nb, na))) \<le> 66"
    using block_encode_length [of "Block 254 (toIso nb)"] block_encode_length [of "Block 255 (toIso na)"] assms
    by (simp add: ValidityPeriod_wireEncode_def iso_ok_def)
  have "parse (Block 253 (elements_encode ?els)) = Inr ?els"
    using len by (intro parse_Block) (simp_all add: typed_def ValidityPeriod_wireEncode_def)
  then show "ValidityPeriod_wireDecode fromIso (ValidityPeriod_wireEncode toIso (nb, na)) = Inr (nb, na)"
    using assms by (simp add: ValidityPeriod_wireDecode_def ValidityPeriod_wireEncode_def iso_ok_def)
qed

lemma version_segment [simp]:
  "isVersion EITHER (fromVersion TYPED v)" "isSegment EITHER (fromSegment TYPED v)"
  using nni_value_length [of v]
  by (auto simp: isVersion_def isSegment_def isConvention_def fromVersion_def fromSegment_def fromNumber_def
      isNumber_def canDecodeTypedConvention_def)

lemma announcement_roundtrip:
  assumes ok: "pa_ok toIso fromIso pa"
    and d: "dp_name d = dp_name (PrefixAnnouncement_data toIso version pa)"
      "dp_metaInfo d = dp_metaInfo (PrefixAnnouncement_data toIso version pa)"
      "dp_content d = dp_content (PrefixAnnouncement_data toIso version pa)"
  shows "PrefixAnnouncement_of fromIso d = Inr pa"
    and "\<exists>c. dp_content d = Some (Block 21 c) \<and> length c \<le> 110"
proof -
  define e where "e = makeNonNegativeIntegerBlock 109 (duration_count (pa_expiration pa))"
  define v where "v = (case pa_validity pa of None \<Rightarrow> [] | Some v \<Rightarrow> [ValidityPeriod_wireEncode toIso v])"
  have c: "dp_content d = Some (Block 21 (elements_encode (e # v)))"
    using d(3) by (simp add: PrefixAnnouncement_data_def e_def v_def)
  have vl: "length (elements_encode v) \<le> 84"
  proof (cases "pa_validity pa")
    case (Some p)
    obtain nb na where p: "p = (nb, na)" by (cases p)
    have "length (bvalue (ValidityPeriod_wireEncode toIso (nb, na))) \<le> 66"
      using ok Some p by (intro validity_roundtrip(2)) (auto simp: pa_ok_def)
    then show ?thesis
      using block_encode_length [of "ValidityPeriod_wireEncode toIso (nb, na)"] by (simp add: v_def Some p)
  qed (simp add: v_def)
  have len: "length (elements_encode (e # v)) \<le> 110"
    using nni_encode_length [of 109 "duration_count (pa_expiration pa)"] vl by (simp add: e_def)
  show "\<exists>c. dp_content d = Some (Block 21 c) \<and> length c \<le> 110" using c len by blast
  have typed: "list_all typed (e # v)"
    by (auto simp: e_def v_def typed_def ValidityPeriod_wireEncode_def split: option.splits)
  have parse: "parse_elements (elements_encode (e # v)) = Inr (e # v)"
    using typed_ok [OF typed] len by simp
  have ne: "elements_encode (e # v) \<noteq> []" by (simp add: block_encode_eq)
  have n: "dp_name d = pa_name pa @ [getKeywordComponent, fromVersion TYPED version, fromSegment TYPED 0]"
    using d(1) by (simp add: PrefixAnnouncement_data_def Data_new_def)
  have ng: "name_get (dp_name d) (- 3) = getKeywordComponent" "name_get (dp_name d) (- 2) = fromVersion TYPED version"
    "name_get (dp_name d) (- 1) = fromSegment TYPED 0" "getPrefix (dp_name d) (- 3) = pa_name pa"
    by (simp_all add: n name_get_def nth_append getPrefix_take nat_add_distrib)
  have val: "(case find_element 253 (e # v) of None \<Rightarrow> Inr None
      | Some x \<Rightarrow> bind_sum (ValidityPeriod_wireDecode fromIso x) (\<lambda>p. Inr (Some p))) = Inr (pa_validity pa)"
    using ok validity_roundtrip(1)
    by (auto simp: e_def v_def pa_ok_def ValidityPeriod_wireEncode_def split: option.splits)
  have crit: "find (\<lambda>e. btype e \<noteq> 109 \<and> btype e \<noteq> 253 \<and> isCriticalType (btype e)) (e # v) = None"
    by (auto simp: e_def v_def ValidityPeriod_wireEncode_def split: option.splits)
  have m: "mi_type (dp_metaInfo d) = 5" using d(2) by (simp add: PrefixAnnouncement_data_def)
  have exp: "duration_of (duration_count (pa_expiration pa)) = pa_expiration pa" using ok by (simp add: pa_ok_def)
  show "PrefixAnnouncement_of fromIso d = Inr pa"
    unfolding PrefixAnnouncement_of_def Let_def content_value_def c option.case block.sel parse ng m val bind_sum_simps crit
    using ne by (simp add: n get_element_def) (simp add: e_def exp)
qed

lemma name_block_append:
  "bvalue (name_block (n @ m)) = bvalue (name_block n) @ bvalue (name_block m)"
  unfolding name_block_elements by (induction n) simp_all

lemma component_block_length: "length (bvalue (name_block [c])) \<le> length (cvalue c) + 18"
  using block_encode_length [of "component_block c"] by (simp add: name_block_elements) (simp add: component_block_def)

lemma announcement_name:
  assumes "pa_ok toIso fromIso pa"
  shows "valid_name (dp_name (PrefixAnnouncement_data toIso version pa))"
    and "length (bvalue (name_block (dp_name (PrefixAnnouncement_data toIso version pa)))) < 2 ^ 32"
proof -
  have n: "dp_name (PrefixAnnouncement_data toIso version pa) =
      pa_name pa @ [getKeywordComponent] @ [fromVersion TYPED version] @ [fromSegment TYPED 0]"
    by (simp add: PrefixAnnouncement_data_def Data_new_def)
  have len: "length (cvalue (fromVersion TYPED v)) \<le> 8 \<and> length (cvalue (fromSegment TYPED v)) \<le> 8" for v
    using nni_value_length [of v] by (auto simp: fromVersion_def fromSegment_def fromNumber_def)
  show "valid_name (dp_name (PrefixAnnouncement_data toIso version pa))"
    using assms by (simp add: n valid_name_def pa_ok_def) (simp add: valid_component_alt getKeywordComponent_def
        fromVersion_def fromSegment_def fromNumber_def is_sha256_type_def)
  have "length (cvalue getKeywordComponent) = 2" by (simp add: getKeywordComponent_def)
  then show "length (bvalue (name_block (dp_name (PrefixAnnouncement_data toIso version pa)))) < 2 ^ 32"
    unfolding n name_block_append length_append
    using assms len [of version] len [of 0] component_block_length [of getKeywordComponent]
      component_block_length [of "fromVersion TYPED version"] component_block_length [of "fromSegment TYPED 0"]
    by (simp add: pa_ok_def)
qed

lemma extractPrefixes_split:
  assumes "KITE_KEYWORD \<notin> set rv" and "rv \<noteq> []" and "suf \<noteq> []"
  shows "extractPrefixes (rv @ KITE_KEYWORD # suf @ [d]) = Inr (rv, suf)"
proof -
  let ?n = "rv @ KITE_KEYWORD # suf @ [d]"
  have tw: "takeWhile (\<lambda>c. c \<noteq> KITE_KEYWORD) ?n = rv" using assms(1) by (subst takeWhile_append2) auto
  have sub: "getSubName ?n (int (length rv) + 1) (Some (length suf)) = suf"
  proof -
    have "getSubName ?n (int (length rv) + 1) (Some (length suf)) =
        map (\<lambda>j. ?n ! j) [Suc (length rv) ..< Suc (length rv) + length suf]"
      by (simp add: getSubName_def Let_def nat_add_distrib)
    also have "\<dots> = suf" by (rule nth_equalityI) (simp_all add: nth_append nth_Cons' del: upt_Suc)
    finally show ?thesis .
  qed
  show ?thesis
    unfolding extractPrefixes_def Let_def tw using assms(2,3) sub by (simp add: getPrefix_take)
qed

text \<open>The content of an acknowledgment: the signed announcement, as it is read back.\<close>

lemma announcement_content:
  assumes "pa_ok toIso fromIso pa" and "signing_key_ok k" and "\<And>els. length (sign els) < 2 ^ 32"
  obtains p w where "KeyChain_sign_data k sign (PrefixAnnouncement_data toIso version pa) = Inr p" and "Data_wireEncode p = Inr w"
    and "length (elements_encode [w]) < 2 ^ 60" and "Ack_of fromIso 6 (elements_encode [w]) = Inr pa"
proof -
  let ?p = "PrefixAnnouncement_data toIso version pa"
  obtain c where c: "dp_content ?p = Some (Block 21 c)" "length c \<le> 110"
    using announcement_roundtrip(2) [OF assms(1), of ?p version] by auto
  have meta: "dp_metaInfo ?p = MetaInfo_new\<lparr>mi_type := 5\<rparr>" by (simp add: PrefixAnnouncement_data_def)
  have c60: "length c < 2 ^ 60" using c(2) by simp
  obtain p w where p: "KeyChain_sign_data k sign ?p = Inr p" "dp_name p = dp_name ?p" "dp_metaInfo p = dp_metaInfo ?p"
      "dp_content p = dp_content ?p"
    and w: "Data_wireEncode p = Inr w" "Data_wireDecode w = Inr p" "btype w = 6" "length (bvalue w) < length c + 2 ^ 40"
    using sign_data [where sign = sign, OF assms(2) announcement_name [OF assms(1)] meta _ c(1) c60 assms(3)] by auto
  have pa: "PrefixAnnouncement_of fromIso p = Inr pa" using announcement_roundtrip(1) [OF assms(1) p(2-4)] .
  have wl: "length (elements_encode [w]) < 2 ^ 60"
    using block_encode_length [of w] w(4) c(2) by simp
  then have "parse_elements (elements_encode [w]) = Inr [w]"
    using typed_ok [of "[w]"] parse_elements_encode [of "[w]"] w(3) by (simp add: typed_def)
  then have "Ack_of fromIso 6 (elements_encode [w]) = Inr pa"
    using w pa by (simp add: Ack_of_def get_element_def)
  then show thesis using p(1) w(1) wl that by blast
qed

section \<open>Properties\<close>


definition key_a :: signing_key where
  "key_a = \<lparr>sk_type = 3, sk_locator = LocatorName [Component 8 [75]]\<rparr>"

definition announcement_a :: prefix_ann where
  "announcement_a = \<lparr>pa_name = [Component 8 [80]], pa_expiration = 60000, pa_validity = Some (1, 2)\<rparr>"

definition kite_name :: name where
  "kite_name = [Component 8 [82], KITE_KEYWORD, Component 8 [80], Component 2 (replicate 32 0)]"

lemma key_a_ok: "signing_key_ok key_a"
proof -
  have "length (bvalue (name_block [Component 8 [75]])) \<le> 19" using component_block_length [of "Component 8 [75]"] by simp
  then show ?thesis
    using block_encode_length [of "name_block [Component 8 [75]]"]
    by (simp add: signing_key_ok_def key_a_def locator_ok_def valid_name_def valid_component_alt is_sha256_type_def
        KeyLocator_wireEncode_def)
qed

lemma announcement_a_ok: "pa_ok (\<lambda>t. replicate 15 (word_of_int t)) (\<lambda>bs. Some (uint (hd bs))) announcement_a"
  using component_block_length [of "Component 8 [80]"]
  by (simp add: pa_ok_def announcement_a_def iso_ok_def valid_name_def valid_component_alt is_sha256_type_def)


section \<open>Signed requests\<close>

definition with_params :: "(byte list \<Rightarrow> byte list) \<Rightarrow> name \<Rightarrow> block list \<Rightarrow> byte list option \<Rightarrow> interest_packet" where
  "with_params H base ps nonce =
     (Interest_new (base @ [Component 2 (H (elements_encode ps))]))\<lparr>ip_nonce := nonce, ip_parameters := ps\<rparr>"

lemma digest_component:
  "(\<And>bs. length (H bs) = DIGEST_SIZE) \<Longrightarrow> isParametersSha256Digest (Component 2 (H x)) \<and> valid_component (Component 2 (H x))"
  by (simp add: isParametersSha256Digest_def valid_component_alt)

lemma find_digest_end:
  assumes "no_digest base" and "\<And>bs. length (H bs) = DIGEST_SIZE"
  shows "findParametersDigestComponent (base @ [Component 2 (H x)]) = int (length base)"
  using find_digest_at [OF assms(1), of "Component 2 (H x)" "[]" 0] digest_component [of H x] assms(2)
  by (simp add: findParametersDigestComponent_def)

lemma add_digest_first:
  assumes "no_digest base"
  shows "addOrReplaceParametersDigestComponent H ((Interest_new base)\<lparr>ip_parameters := ps\<rparr>) = with_params H base ps None"
  using find_digest_none [OF assms, of 0 "- 1"]
  by (simp add: addOrReplaceParametersDigestComponent_def Let_def findParametersDigestComponent_def
      with_params_def Interest_new_def computeParametersDigest_def)

lemma add_digest_again:
  assumes "no_digest base" and "\<And>bs. length (H bs) = DIGEST_SIZE"
  shows "addOrReplaceParametersDigestComponent H ((with_params H base qs nonce)\<lparr>ip_parameters := ps\<rparr>) =
    with_params H base ps nonce"
  using find_digest_end [of base H "elements_encode qs", OF assms]
  by (simp add: addOrReplaceParametersDigestComponent_def Let_def with_params_def Interest_new_def computeParametersDigest_def)

lemma with_params_ok:
  assumes "no_digest base" and H: "\<And>bs. length (H bs) = DIGEST_SIZE" and "valid_name base" and "params_ok ps"
    and "ps \<noteq> []" and "length nonce = 4"
  shows "interest_ok H (with_params H base ps (Some nonce))"
proof -
  let ?i = "with_params H base ps (Some nonce)"
  have n: "ip_name ?i = base @ [Component 2 (H (elements_encode ps))]" "ip_parameters ?i = ps"
    by (simp_all add: with_params_def Interest_new_def)
  have f: "findParametersDigestComponent (ip_name ?i) = int (length base)"
    unfolding n by (rule find_digest_end [OF assms(1) H])
  have "isParametersDigestValid H ?i"
    unfolding isParametersDigestValid_def Let_def f hasApplicationParameters_def computeParametersDigest_def
    unfolding n using assms(5) by (simp add: name_get_def)
  moreover have "valid_name (ip_name ?i)"
    using assms(3) digest_component [of H "elements_encode ps"] H by (simp add: n valid_name_def)
  ultimately show ?thesis
    using f assms(4,6) by (simp add: interest_ok_def n)
      (simp add: with_params_def Interest_new_def DEFAULT_INTEREST_LIFETIME_def)
qed

lemma with_params_encode:
  assumes "no_digest base" and H: "\<And>bs. length (H bs) = DIGEST_SIZE" and "ps \<noteq> []" and "length nonce = 4"
    and "length (bvalue (name_block base)) < 2 ^ 32" and "length (elements_encode ps) < 2 ^ 60"
  shows "\<exists>w. Interest_wireEncode nonce (with_params H base ps None) = Inr w \<and>
    Interest_wireEncode nonce (with_params H base ps (Some nonce)) = Inr w \<and> length (bvalue w) < 2 ^ 64"
proof -
  let ?n = "base @ [Component 2 (H (elements_encode ps))]"
  define w where "w = Block 5 (elements_encode ([name_block ?n, Block 10 nonce] @ ps))"
  have f: "findParametersDigestComponent ?n = int (length base)" by (rule find_digest_end [OF assms(1) H])
  have "Interest_wireEncode nonce (with_params H base ps x) = Inr w" if "x = None \<or> x = Some nonce" for x
    using f that assms(3)
    by (auto simp: Interest_wireEncode_def with_params_def Interest_new_def Let_def hasApplicationParameters_def
        ip_getNonce_def hint_part_def lifetime_part_def hopLimit_part_def w_def)
  moreover have "length (bvalue (name_block ?n)) < 2 ^ 32 + 100"
    using assms(5) component_block_length [of "Component 2 (H (elements_encode ps))"] H
    by (simp add: name_block_append DIGEST_SIZE_def)
  then have "length (bvalue w) < 2 ^ 64"
    using block_encode_length [of "name_block ?n"] block_encode_length [of "Block 10 nonce"] assms(4,6)
    by (simp add: w_def)
  ultimately show ?thesis by blast
qed

lemma find_element_add: "find_element (btype b) (si_otherTlvs (addCustomTlv b si)) = Some b"
proof -
  have r: "find_element t xs \<noteq> None \<Longrightarrow> btype b = t \<Longrightarrow> find_element t (replace_first t b xs) = Some b" for t xs
    by (induction xs) auto
  have a: "find_element t xs = None \<Longrightarrow> btype b = t \<Longrightarrow> find_element t (xs @ [b]) = Some b" for t xs
    by (induction xs) (auto split: if_splits)
  show ?thesis
    using r [of "btype b" "si_otherTlvs si"] a [of "btype b" "si_otherTlvs si"]
    by (auto simp: addCustomTlv_def split: option.splits)
qed

definition request_info :: "signing_key \<Rightarrow> byte list \<Rightarrow> int \<Rightarrow> signature_info" where
  "request_info k nonce timestamp = prepareSignatureInfo k
     (si_setTime (Some (timestamp div 1000000)) (si_setNonce (Some nonce) SignatureInfo_new))"

lemma request_info_tlvs:
  "si_otherTlvs (request_info k nonce timestamp) =
     [Block 38 nonce, makeNonNegativeIntegerBlock 40 (duration_count (timestamp div 1000000))]"
  by (simp add: request_info_def prepareSignatureInfo_def si_setTime_def si_setNonce_def addCustomTlv_def SignatureInfo_new_def)

lemma request_info_ok:
  assumes "signing_key_ok k" and "length nonce = 8"
  shows "sig_ok (request_info k nonce timestamp)"
    and "\<exists>b. SignatureInfo_wireEncode 44 (request_info k nonce timestamp) = Inr b \<and> btype b = 44 \<and>
      length (bvalue b) < 2 ^ 34 \<and> SignatureInfo_wireDecode 44 b = Inr (request_info k nonce timestamp)"
proof -
  have n: "nonce \<noteq> []" using assms(2) by auto
  show ok: "sig_ok (request_info k nonce timestamp)"
    using assms n unfolding sig_ok_def request_info_tlvs
    by (simp add: request_info_def prepareSignatureInfo_def signing_key_ok_def extension_ok_def isCriticalType_def)
  let ?si = "si_setTime (Some (timestamp div 1000000)) (si_setNonce (Some nonce) SignatureInfo_new)"
  have tl: "si_otherTlvs ?si = si_otherTlvs (request_info k nonce timestamp)"
    by (simp add: request_info_def prepareSignatureInfo_def)
  obtain b where b: "SignatureInfo_wireEncode 44 (request_info k nonce timestamp) = Inr b" "btype b = 44"
    "length (bvalue b) < 2 ^ 33 + length (elements_encode (si_otherTlvs (request_info k nonce timestamp)))"
    using sign_info_encode [OF assms(1), of ?si 44] unfolding tl request_info_def [symmetric] by auto
  moreover have "length (elements_encode (si_otherTlvs (request_info k nonce timestamp))) \<le> 100"
    using block_encode_length [of "Block 38 nonce"] assms(2)
      nni_encode_length [of 40 "duration_count (timestamp div 1000000)"] by (simp add: request_info_tlvs)
  ultimately have "length (bvalue b) < 2 ^ 34" by simp
  moreover from this have "SignatureInfo_wireDecode 44 b = Inr (request_info k nonce timestamp)"
    using sig_roundtrip [OF ok b(1)] by simp
  ultimately show "\<exists>b. SignatureInfo_wireEncode 44 (request_info k nonce timestamp) = Inr b \<and> btype b = 44 \<and>
      length (bvalue b) < 2 ^ 34 \<and> SignatureInfo_wireDecode 44 b = Inr (request_info k nonce timestamp)"
    using b by blast
qed

lemma sign_request:
  assumes nd: "no_digest base" and H: "\<And>bs. length (H bs) = DIGEST_SIZE" and val: "valid_name base"
    and size: "length (bvalue (name_block base)) < 2 ^ 32" and key: "signing_key_ok k" and nonce: "length nonce = 8"
    and rnd: "length rnd = 4" and v: "length v < 2 ^ 32" and sign: "\<And>i. length (sign i) < 2 ^ 32"
    and i1: "ip_parameters i1 = [] \<and> v = [] \<and> i1 = Interest_new base \<or> i1 = with_params H base [Block 36 v] None"
    and sb: "SignatureInfo_wireEncode 44 (request_info k nonce timestamp) = Inr sb" "btype sb = 44" "length (bvalue sb) < 2 ^ 34"
  shows "\<exists>sv. makeSignedInterest H rnd k sign nonce timestamp i1 =
      Inr (with_params H base [Block 36 v, sb, Block 46 sv] (Some rnd)) \<and> length sv < 2 ^ 32"
proof -
  let ?ps = "[Block 36 v, sb]"
  have s1: "ip_setSignatureInfo H (request_info k nonce timestamp) i1 = Inr (with_params H base ?ps None)"
  proof (cases "ip_parameters i1 = []")
    case True
    then have "i1 = Interest_new base" "v = []" using i1 by (auto simp: with_params_def)
    then show ?thesis
      using add_digest_first [OF nd, of H ?ps] sb by (simp add: ip_setSignatureInfo_def Let_def Interest_new_def)
  next
    case False
    then have e: "i1 = with_params H base [Block 36 v] None" using i1 by auto
    have "ip_parameters i1 = [Block 36 v]" by (simp add: e with_params_def)
    then show ?thesis
      using add_digest_again [where H = H and qs = "[Block 36 v]" and nonce = None and ps = ?ps, OF nd H] sb by (simp add: ip_setSignatureInfo_def Let_def e)
  qed
  have ps: "params_ok ?ps" using sb(2,3) by (simp add: params_ok_def isCriticalType_def)
  have len: "length (elements_encode ?ps) < 2 ^ 60"
    using block_encode_length [of "Block 36 v"] block_encode_length [of sb] v sb(3) by simp
  obtain w where w: "Interest_wireEncode rnd (with_params H base ?ps None) = Inr w"
      "Interest_wireEncode rnd (with_params H base ?ps (Some rnd)) = Inr w" "length (bvalue w) < 2 ^ 64"
    using with_params_encode [where H = H, OF nd H _ rnd size len] by auto
  have "Interest_wireDecode H w = Inr (with_params H base ?ps (Some rnd))"
    using interest_roundtrip [OF with_params_ok [where H = H, OF nd H val ps _ rnd] w(2,3)] by simp
  then have s2: "extractSignedRanges H rnd (with_params H base ?ps None) = Inr (with_params H base ?ps (Some rnd))"
    using w(1) sb(2) by (simp add: extractSignedRanges_def)
      (simp add: with_params_def Interest_new_def name_get_def findFirstParameter_def nth_append)
  define sv where "sv = sign (with_params H base ?ps (Some rnd))"
  have "setSignatureValueInternal H (Block 46 sv) (with_params H base ?ps (Some rnd)) =
      Inr (with_params H base [Block 36 v, sb, Block 46 sv] (Some rnd))"
    using add_digest_again [where H = H and qs = ?ps and nonce = "Some rnd" and ps = "[Block 36 v, sb, Block 46 sv]", OF nd H] sb(2)
    by (simp add: setSignatureValueInternal_def findFirstParameter_def) (simp add: with_params_def)
  then show ?thesis
    using s1 s2 sign
    by (auto simp: makeSignedInterest_def KeyChain_sign_interest_def request_info_def [symmetric] sv_def)
qed

definition request_ok :: "request \<Rightarrow> bool" where
  "request_ok r \<longleftrightarrow> rq_rvPrefix r \<noteq> [] \<and> rq_producerSuffix r \<noteq> [] \<and> KITE_KEYWORD \<notin> set (rq_rvPrefix r) \<and>
     valid_name (rq_rvPrefix r @ rq_producerSuffix r) \<and> no_digest (rq_rvPrefix r @ rq_producerSuffix r) \<and>
     length (bvalue (name_block (rq_rvPrefix r))) < 2 ^ 30 \<and> length (bvalue (name_block (rq_producerSuffix r))) < 2 ^ 30 \<and>
     (case rq_expiration r of None \<Rightarrow> True | Some t \<Rightarrow> 0 \<le> t \<and> t < 2 ^ 63)"

lemma request_base:
  assumes "request_ok r"
  defines "base \<equiv> rq_rvPrefix r @ [KITE_KEYWORD] @ rq_producerSuffix r"
  shows "no_digest base" "valid_name base" "length (bvalue (name_block base)) < 2 ^ 32" "base \<noteq> []"
proof -
  have len: "length (bvalue (name_block [KITE_KEYWORD])) \<le> 22"
    using component_block_length [of KITE_KEYWORD] by (simp add: KITE_KEYWORD_def)
  show "no_digest base" "valid_name base" "base \<noteq> []"
    using assms(1)
    by (auto simp: base_def request_ok_def valid_name_def KITE_KEYWORD_def isParametersSha256Digest_def
        valid_component_alt is_sha256_type_def)
  show "length (bvalue (name_block base)) < 2 ^ 32"
    unfolding base_def name_block_append length_append using assms(1) len by (simp add: request_ok_def)
qed

lemma request_decode_signed:
  assumes nd: "no_digest base" and base: "base = rq_rvPrefix r @ [KITE_KEYWORD] @ rq_producerSuffix r" and r: "request_ok r"
    and sb: "SignatureInfo_wireDecode 44 sb = Inr (request_info k nonce timestamp)" "btype sb = 44"
    and time: "0 \<le> timestamp" "timestamp < 2 ^ 63"
    and v: "v = (case rq_expiration r of None \<Rightarrow> [] | Some t \<Rightarrow> block_encode (makeNonNegativeIntegerBlock 109 (duration_count t)))"
  shows "Request_decode (with_params H base [Block 36 v, sb, Block 46 sv] n) Request_new =
    Inr (r\<lparr>rq_nonce := Some nonce, rq_timestamp := Some (timestamp div 1000000)\<rparr>)"
proof -
  let ?i = "with_params H base [Block 36 v, sb, Block 46 sv] n"
  have i: "ip_name ?i = base @ [Component 2 (H (elements_encode [Block 36 v, sb, Block 46 sv]))]"
    "ip_parameters ?i = [Block 36 v, sb, Block 46 sv]" by (simp_all add: with_params_def Interest_new_def)
  have si: "getSignatureInfo ?i = Inr (Some (request_info k nonce timestamp))"
    using sb by (simp add: getSignatureInfo_def findFirstParameter_def i)
  have sgn: "isSigned ?i = Inr True"
    using sb(2) by (simp add: isSigned_def si getSignatureValue_def findFirstParameter_def i name_get_def nth_append)
  have nonce: "si_getNonce (request_info k nonce timestamp) = Some nonce"
    by (simp add: si_getNonce_def request_info_tlvs)
  have tdiv: "0 \<le> timestamp div 1000000" "timestamp div 1000000 < 2 ^ 63"
    using time by (simp_all add: pos_imp_zdiv_nonneg_iff)
  have tm: "si_getTime (request_info k nonce timestamp) = Inr (Some (timestamp div 1000000))"
    using tdiv by (simp add: si_getTime_def request_info_tlvs)
  have ep: "extractPrefixes (ip_name ?i) = Inr (rq_rvPrefix r, rq_producerSuffix r)"
    using extractPrefixes_split [of "rq_rvPrefix r" "rq_producerSuffix r"] r
    unfolding i unfolding base by (simp add: request_ok_def)
  have ex: "bind_sum (parse (Block 36 v)) (\<lambda>params. case find_element 109 params of None \<Rightarrow> Inr None
      | Some b \<Rightarrow> bind_sum (block_readNonNegativeInteger b) (\<lambda>x. Inr (Some (duration_of x)))) = Inr (rq_expiration r)"
  proof (cases "rq_expiration r")
    case (Some t)
    let ?b = "makeNonNegativeIntegerBlock 109 (duration_count t)"
    have "parse (Block 36 v) = Inr [?b]"
      using parse_Block [of "[?b]" 36] nni_encode_length [of 109 "duration_count t"] by (simp add: v Some typed_def)
    then show ?thesis using r Some by (simp add: request_ok_def)
  qed (simp add: v parse_def)
  then obtain params where pp: "parse (Block 36 v) = Inr params" by (auto simp: bind_sum_Inr)
  show ?thesis
    unfolding Request_decode_def sgn si bind_sum_simps option.sel nonce tm ep
    unfolding i list.sel pp using ex pp by (simp add: Request_new_def bind_sum_def split: option.splits sum.splits)
qed

text \<open>C17: a KITE request made by a producer with an RV prefix that does not itself hold the keyword
  is a well-formed signed Interest, and the rendezvous server that decodes it finds the RV
  prefix, the producer suffix, the expiration period, the nonce and the time it was made with.\<close>

theorem kite_request_roundtrip:
  assumes "request_ok r" and H: "\<And>bs. length (H bs) = DIGEST_SIZE" and "signing_key_ok k" and "length nonce = 8"
    and "length rnd = 4" and "\<And>i. length (sign i) < 2 ^ 32" and "0 \<le> timestamp" and "timestamp < 2 ^ 63"
  shows "\<exists>i. Request_makeInterest H rnd k sign nonce timestamp r = Inr i \<and> interest_ok H i \<and>
    Request_decode i Request_new = Inr (r\<lparr>rq_nonce := Some nonce, rq_timestamp := Some (timestamp div 1000000)\<rparr>)"
proof -
  define base where "base = rq_rvPrefix r @ [KITE_KEYWORD] @ rq_producerSuffix r"
  note b = request_base [OF assms(1), folded base_def]
  define v where "v = (case rq_expiration r of None \<Rightarrow> [] | Some t \<Rightarrow> block_encode (makeNonNegativeIntegerBlock 109 (duration_count t)))"
  define i1 where "i1 = (case rq_expiration r of None \<Rightarrow> Interest_new base
     | Some t \<Rightarrow> setApplicationParameters H (makeNonNegativeIntegerBlock 109 (duration_count t)) (Interest_new base))"
  have i1: "ip_parameters i1 = [] \<and> v = [] \<and> i1 = Interest_new base \<or> i1 = with_params H base [Block 36 v] None"
  proof (cases "rq_expiration r")
    case (Some t)
    then show ?thesis
      using add_digest_first [OF b(1), of H "[Block 36 v]"]
      by (simp add: i1_def v_def setApplicationParameters_def setApplicationParametersInternal_def) (simp add: Interest_new_def)
  qed (simp add: i1_def v_def Interest_new_def)
  have vlen: "length v < 2 ^ 32"
    using le_less_trans [OF nni_encode_length [of 109], of "2 ^ 32"] by (simp add: v_def split: option.splits)
  obtain sb where sb: "SignatureInfo_wireEncode 44 (request_info k nonce timestamp) = Inr sb" "btype sb = 44"
      "length (bvalue sb) < 2 ^ 34" "SignatureInfo_wireDecode 44 sb = Inr (request_info k nonce timestamp)"
    using request_info_ok(2) [OF assms(3,4)] by blast
  obtain sv where sv: "makeSignedInterest H rnd k sign nonce timestamp i1 =
      Inr (with_params H base [Block 36 v, sb, Block 46 sv] (Some rnd))"
    using sign_request [where H = H and sign = sign, OF b(1) H b(2,3) assms(3-5) vlen assms(6) i1 sb(1-3)] by blast
  have name: "ip_setName H base (Interest_new []) = Inr (Interest_new base)"
    using find_digest_none [OF b(1), of 0 "- 1"] b(4)
    by (simp add: ip_setName_def findParametersDigestComponent_def hasApplicationParameters_def Interest_new_def)
  have "Request_makeInterest H rnd k sign nonce timestamp r = Inr (with_params H base [Block 36 v, sb, Block 46 sv] (Some rnd))"
    using assms(1) name sv unfolding base_def [symmetric] Request_makeInterest_def
    by (simp add: request_ok_def i1_def Let_def)
  moreover have "params_ok [Block 36 v, sb, Block 46 sv]" using sb(2) by (simp add: params_ok_def isCriticalType_def)
  then have "interest_ok H (with_params H base [Block 36 v, sb, Block 46 sv] (Some rnd))"
    by (intro with_params_ok [OF b(1) H b(2)]) (simp_all add: assms(5))
  moreover note request_decode_signed [OF b(1) base_def assms(1) sb(4,2) assms(7,8) v_def]
  ultimately show ?thesis by blast
qed

definition request_r :: request where
  "request_r = Request_new\<lparr>rq_rvPrefix := [Component 8 [82]], rq_producerSuffix := [Component 8 [80]], rq_expiration := Some 60000\<rparr>"

theorem kite_request_roundtrip_witness:
  "\<exists>i. Request_makeInterest zero_hash [1, 2, 3, 4] key_a (\<lambda>_. [9]) (replicate 8 5) 7000000 request_r = Inr i \<and>
    interest_ok zero_hash i \<and>
    Request_decode i Request_new = Inr (request_r\<lparr>rq_nonce := Some (replicate 8 5), rq_timestamp := Some (7000000 div 1000000)\<rparr>)"
proof (rule kite_request_roundtrip [OF _ _ key_a_ok])
  show "request_ok request_r"
    using component_block_length [of "Component 8 [82]"] component_block_length [of "Component 8 [80]"]
    by (simp add: request_ok_def request_r_def KITE_KEYWORD_def valid_name_def valid_component_alt is_sha256_type_def
        isParametersSha256Digest_def)
qed (simp_all add: zero_hash_def)

text \<open>Time stamps of signed Interests strictly increase, by at least a millisecond.\<close>

lemma timestamp_increases: "prev + 1000000 \<le> getFreshTimestamp now prev"
proof -
  have "1000000 \<le> d" if "(if d \<ge> 0 then d div 1000000 else - ((- d) div 1000000)) > (0 :: int)" "d = now - prev" for d
    using that by (auto simp: pos_imp_zdiv_pos_iff pos_imp_zdiv_nonneg_iff split: if_splits)
  then show ?thesis by (auto simp: getFreshTimestamp_def Let_def)
qed

end
