(* ===== verification/Forwarder_State.thy ===== *)
theory Forwarder_State
  imports Strategy_Choice Content_Store Dead_Nonce_List Kite_Packets
begin

text \<open>
  The state of the forwarder (\<^verbatim>\<open>fw/forwarder.hpp\<close>), the face table
  (\<^verbatim>\<open>fw/face-table.cpp\<close>), the network region table, the policies for unsolicited Data,
  the outgoing pipelines (\<^verbatim>\<open>fw/forwarder.cpp\<close>) and what the strategies use of them:
  the algorithms of \<^verbatim>\<open>fw/algorithm.cpp\<close> and the actions of \<^verbatim>\<open>fw/strategy.cpp\<close>.
  What a handler sends is appended to the list of actions of the state.  The clock
  does not advance within a handler.  Sets of face pointers are traversed in the order
  of the records they were collected from.
\<close>

named_theorems fwd_laws

section \<open>State\<close>

datatype fault = NullDereference | PacketError tlv_error

datatype action =
    SendInterest face interest
  | SendData face data
  | SendNack face nack
  | SlAnnounce prefix_ann nat int
  | SlRenew name nat int

datatype unsolicited_policy = DropAll | AdmitLocal | AdmitNetwork | AdmitAll

record counters =
  nInInterests :: "64 word"
  nOutInterests :: "64 word"
  nInData :: "64 word"
  nOutData :: "64 word"
  nInNacks :: "64 word"
  nOutNacks :: "64 word"
  nSatisfiedInterests :: "64 word"
  nUnsatisfiedInterests :: "64 word"
  nUnsolicitedData :: "64 word"
  nCsHits :: "64 word"
  nCsMisses :: "64 word"

record fwd = tables +
  fw_faces :: "(nat \<times> face) list"
  fw_lastFaceId :: nat
  fw_cs :: cs
  fw_dnl :: dnl
  fw_regions :: "name list"
  fw_policy :: unsolicited_policy
  fw_defaultHopLimit :: byte
  fw_counters :: counters
  fw_actions :: "action list"

text \<open>
  The clock and the code outside the program: hashing, date parsing, random order, and the
  conversion of strategy parameters to numbers.
\<close>

record env =
  en_now :: int
  en_hash :: "byte list \<Rightarrow> 32 word \<Rightarrow> 64 word"
  en_fromIso :: "byte list \<Rightarrow> int option"
  en_shuffle :: "next_hop list \<Rightarrow> next_hop list"
  en_toInt :: "byte list \<Rightarrow> int option"
  en_toRatio :: "byte list \<Rightarrow> (int \<times> int) option"

definition emit :: "action \<Rightarrow> fwd \<Rightarrow> fwd" where
  "emit a s = s\<lparr>fw_actions := fw_actions s @ [a]\<rparr>"

definition bump :: "(counters \<Rightarrow> counters) \<Rightarrow> fwd \<Rightarrow> fwd" where
  "bump f s = s\<lparr>fw_counters := f (fw_counters s)\<rparr>"

definition INVALID_FACEID :: nat where "INVALID_FACEID = 0"
definition FACEID_RESERVED_MAX :: nat where "FACEID_RESERVED_MAX = 255"

section \<open>Face table, regions, unsolicited Data\<close>

definition FaceTable_get :: "nat \<Rightarrow> fwd \<Rightarrow> face option" where
  "FaceTable_get i s = tab_get (fw_faces s) i"

definition FaceTable_addImpl :: "face \<Rightarrow> nat \<Rightarrow> fwd \<Rightarrow> fwd" where
  "FaceTable_addImpl face faceId s = s\<lparr>fw_faces := tab_put faceId (face\<lparr>f_id := faceId\<rparr>) (fw_faces s)\<rparr>"

definition FaceTable_add :: "face \<Rightarrow> fwd \<Rightarrow> fwd" where
  "FaceTable_add face s =
     (if f_id face \<noteq> INVALID_FACEID \<and> tab_get (fw_faces s) (f_id face) \<noteq> None then s
      else let faceId = fw_lastFaceId s + 1
           in FaceTable_addImpl face faceId (s\<lparr>fw_lastFaceId := faceId\<rparr>))"

definition isInProducerRegion :: "name list \<Rightarrow> name list \<Rightarrow> bool" where
  "isInProducerRegion regions forwardingHint \<longleftrightarrow>
     list_ex (\<lambda>regionName. list_ex (\<lambda>delegation. isPrefixOf delegation regionName) forwardingHint) regions"

fun decide_unsolicited :: "unsolicited_policy \<Rightarrow> face \<Rightarrow> bool" where
  "decide_unsolicited DropAll inFace = False"
| "decide_unsolicited AdmitLocal inFace = (f_scope inFace = SCOPE_LOCAL)"
| "decide_unsolicited AdmitNetwork inFace = (f_scope inFace = SCOPE_NON_LOCAL)"
| "decide_unsolicited AdmitAll inFace = True"

section \<open>Algorithms\<close>

definition wouldViolateScope :: "face \<Rightarrow> interest \<Rightarrow> face \<Rightarrow> bool" where
  "wouldViolateScope inFace interest outFace =
     (if f_scope outFace = SCOPE_LOCAL then False
      else if isPrefixOf LOCALHOST (i_name interest) then True
      else if isPrefixOf LOCALHOP (i_name interest) then f_scope inFace \<noteq> SCOPE_LOCAL
      else False)"

text \<open>Where a nonce was seen: in- or out-record, of the same or of another face.\<close>

record duplicate_nonce =
  dn_inSame :: bool
  dn_inOther :: bool
  dn_outSame :: bool
  dn_outOther :: bool

definition findDuplicateNonce :: "pit_entry \<Rightarrow> 32 word \<Rightarrow> face \<Rightarrow> duplicate_nonce" where
  "findDuplicateNonce e nonce face =
     \<lparr>dn_inSame = list_ex (\<lambda>r. fr_lastNonce r = nonce \<and> fr_face r = face) (pe_in e),
      dn_inOther = list_ex (\<lambda>r. fr_lastNonce r = nonce \<and> fr_face r \<noteq> face) (pe_in e),
      dn_outSame = list_ex (\<lambda>r. fr_lastNonce r = nonce \<and> fr_face r = face) (pe_out e),
      dn_outOther = list_ex (\<lambda>r. fr_lastNonce r = nonce \<and> fr_face r \<noteq> face) (pe_out e)\<rparr>"

definition hasPendingOutRecords :: "int \<Rightarrow> pit_entry \<Rightarrow> bool" where
  "hasPendingOutRecords now e \<longleftrightarrow> list_ex (\<lambda>r. fr_expiry r \<ge> now \<and> or_nack r = None) (pe_out e)"

text \<open>The time of the last transmission; there is none without an out-record.\<close>

definition getLastOutgoing :: "pit_entry \<Rightarrow> int option" where
  "getLastOutgoing e =
     (case pe_out e of
        [] \<Rightarrow> None
      | r # rs \<Rightarrow> Some (fold (\<lambda>x m. if m < fr_lastRenewed x then fr_lastRenewed x else m) rs (fr_lastRenewed r)))"

definition isNextHopEligible :: "face \<Rightarrow> interest \<Rightarrow> next_hop \<Rightarrow> pit_entry \<Rightarrow> bool \<Rightarrow> int \<Rightarrow> bool" where
  "isNextHopEligible inFace interest nexthop e wantUnused now =
     (let outFace = nh_face nexthop in
      if (f_id outFace = f_id inFace \<and> f_linkType outFace \<noteq> AD_HOC) \<or> wouldViolateScope inFace interest outFace
      then False
      else if wantUnused
      then (case getOutRecord e outFace of None \<Rightarrow> True | Some r \<Rightarrow> \<not> fr_expiry r > now)
      else True)"

fun earliest_loop :: "face \<Rightarrow> interest \<Rightarrow> pit_entry \<Rightarrow> next_hop list \<Rightarrow> next_hop option \<Rightarrow> int option \<Rightarrow> next_hop option" where
  "earliest_loop inFace interest e [] found earliest = found"
| "earliest_loop inFace interest e (h # hs) found earliest =
     (if \<not> isNextHopEligible inFace interest h e False 0 then earliest_loop inFace interest e hs found earliest
      else case getOutRecord e (nh_face h) of
             None \<Rightarrow> earliest_loop inFace interest e hs found earliest
           | Some r \<Rightarrow>
               if (case earliest of None \<Rightarrow> True | Some t \<Rightarrow> fr_lastRenewed r < t)
               then earliest_loop inFace interest e hs (Some h) (Some (fr_lastRenewed r))
               else earliest_loop inFace interest e hs found earliest)"

definition findEligibleNextHopWithEarliestOutRecord ::
  "face \<Rightarrow> interest \<Rightarrow> next_hop list \<Rightarrow> pit_entry \<Rightarrow> next_hop option" where
  "findEligibleNextHopWithEarliestOutRecord inFace interest nexthops e =
     earliest_loop inFace interest e nexthops None None"

section \<open>Outgoing pipelines\<close>

text \<open>The result tells whether an out-record is returned, or the null pointer.\<close>

definition onOutgoingInterest :: "env \<Rightarrow> interest \<Rightarrow> face \<Rightarrow> nat \<Rightarrow> fwd \<Rightarrow> bool \<times> fwd" where
  "onOutgoingInterest E interest egress pid s =
     (if i_hopLimit interest = Some 0 \<and> f_scope egress = SCOPE_NON_LOCAL then (False, s)
      else (True, bump (\<lambda>c. c\<lparr>nOutInterests := nOutInterests c + 1\<rparr>)
                   (emit (SendInterest egress interest)
                     (update_pit pid (insertOrUpdateOutRecord (en_now E) egress interest) s))))"

definition onOutgoingData :: "data \<Rightarrow> face \<Rightarrow> fwd \<Rightarrow> bool \<times> fwd" where
  "onOutgoingData d egress s =
     (if f_id egress = INVALID_FACEID then (False, s)
      else if f_scope egress = SCOPE_NON_LOCAL \<and> isPrefixOf LOCALHOST (d_name d) then (False, s)
      else (True, bump (\<lambda>c. c\<lparr>nOutData := nOutData c + 1\<rparr>) (emit (SendData egress d) s)))"

definition onOutgoingNack :: "nack_reason \<Rightarrow> face \<Rightarrow> nat \<Rightarrow> fwd \<Rightarrow> bool \<times> fwd" where
  "onOutgoingNack reason egress pid s =
     (if f_id egress = INVALID_FACEID then (False, s)
      else case Option.bind (get_pit s pid) (\<lambda>e. getInRecord e egress) of
             None \<Rightarrow> (False, s)
           | Some inRecord \<Rightarrow>
               if f_linkType egress \<noteq> POINT_TO_POINT then (False, s)
               else (True, bump (\<lambda>c. c\<lparr>nOutNacks := nOutNacks c + 1\<rparr>)
                      (emit (SendNack egress \<lparr>n_interest = ir_interest inRecord, n_reason = reason\<rparr>)
                        (update_pit pid (deleteInRecord egress) s))))"

definition setExpiryTimer :: "env \<Rightarrow> nat \<Rightarrow> int \<Rightarrow> fwd \<Rightarrow> fwd" where
  "setExpiryTimer E pid duration s =
     update_pit pid (\<lambda>e. e\<lparr>pe_timer := Some (en_now E + ms (max duration 0))\<rparr>) s"

definition insertDeadNonceList :: "env \<Rightarrow> pit_entry \<Rightarrow> face option \<Rightarrow> fwd \<Rightarrow> fwd" where
  "insertDeadNonceList E e upstream s =
     (let needDnl = (if pe_satisfied e
                     then i_mustBeFresh (pe_interest e) \<and> ms (pe_dataFreshness e) < DEFAULT_LIFETIME
                     else True)
      in if \<not> needDnl then s
         else case upstream of
                None \<Rightarrow>
                  s\<lparr>fw_dnl := fold (\<lambda>r. dnl_add (en_hash E) (pe_name e) (fr_lastNonce r)) (pe_out e) (fw_dnl s)\<rparr>
              | Some face \<Rightarrow>
                 (case getOutRecord e face of
                    None \<Rightarrow> s
                  | Some r \<Rightarrow> s\<lparr>fw_dnl := dnl_add (en_hash E) (pe_name e) (fr_lastNonce r) (fw_dnl s)\<rparr>))"

section \<open>Actions of strategies\<close>

definition sendInterest :: "env \<Rightarrow> interest \<Rightarrow> face \<Rightarrow> nat \<Rightarrow> fwd \<Rightarrow> bool \<times> fwd" where
  "sendInterest E interest egress pid s =
     (if i_pitToken interest \<noteq> None then onOutgoingInterest E (interest\<lparr>i_pitToken := None\<rparr>) egress pid s
      else onOutgoingInterest E interest egress pid s)"

definition sendData :: "data \<Rightarrow> face \<Rightarrow> nat \<Rightarrow> fwd \<Rightarrow> bool \<times> fwd" where
  "sendData d egress pid s =
     (let pitToken = Option.bind (Option.bind (get_pit s pid) (\<lambda>e. getInRecord e egress))
                       (\<lambda>r. i_pitToken (ir_interest r));
          s1 = update_pit pid (deleteInRecord egress) s
      in if pitToken \<noteq> None then onOutgoingData (d\<lparr>d_pitToken := pitToken\<rparr>) egress s1
         else onOutgoingData d egress s1)"

definition pendingDownstreams :: "int \<Rightarrow> face \<Rightarrow> in_record list \<Rightarrow> face list" where
  "pendingDownstreams now inFace rs =
     remdups (map fr_face (filter (\<lambda>r. fr_expiry r > now \<and>
        \<not> (f_id (fr_face r) = f_id inFace \<and> f_linkType (fr_face r) \<noteq> AD_HOC)) rs))"

definition sendDataToAll :: "env \<Rightarrow> data \<Rightarrow> nat \<Rightarrow> face \<Rightarrow> fwd \<Rightarrow> fwd" where
  "sendDataToAll E d pid inFace s =
     (case get_pit s pid of
        None \<Rightarrow> s
      | Some e \<Rightarrow> fold (\<lambda>face. snd \<circ> sendData d face pid) (pendingDownstreams (en_now E) inFace (pe_in e)) s)"

definition sendNack :: "nack_reason \<Rightarrow> face \<Rightarrow> nat \<Rightarrow> fwd \<Rightarrow> fwd" where
  "sendNack reason egress pid s = snd (onOutgoingNack reason egress pid s)"

definition sendNacks :: "nack_reason \<Rightarrow> nat \<Rightarrow> fwd \<Rightarrow> fwd" where
  "sendNacks reason pid s =
     (case get_pit s pid of
        None \<Rightarrow> s
      | Some e \<Rightarrow> fold (\<lambda>face. sendNack reason face pid) (remdups (map fr_face (pe_in e))) s)"

definition rejectPendingInterest :: "env \<Rightarrow> nat \<Rightarrow> fwd \<Rightarrow> fwd" where
  "rejectPendingInterest E pid s = setExpiryTimer E pid 0 s"

text \<open>
  The delegations of a forwarding hint, those with the KITE keyword skipped: the first
  with a nexthop, otherwise the entry of the last one looked up.
\<close>

fun hint_lookup :: "name list \<Rightarrow> fib_entry option \<Rightarrow> fwd \<Rightarrow> fib_entry option" where
  "hint_lookup [] fibEntry s = fibEntry"
| "hint_lookup (delegation # fh) fibEntry s =
     (if delegation \<noteq> [] \<and> hd delegation = KITE_KEYWORD then hint_lookup fh fibEntry s
      else let found = Fib_findLongestPrefixMatch delegation s in
           if fe_nextHops found \<noteq> [] then Some found else hint_lookup fh (Some found) s)"

definition lookupFib :: "pit_entry \<Rightarrow> fwd \<Rightarrow> fib_entry" where
  "lookupFib e s =
     (if i_hint (pe_interest e) = [] then Fib_findLongestPrefixMatch_pit e s
      else case hint_lookup (i_hint (pe_interest e)) None s of
             None \<Rightarrow> Fib_findLongestPrefixMatch_pit e s
           | Some fibEntry \<Rightarrow> fibEntry)"

definition lookupFib_name :: "name \<Rightarrow> fwd \<Rightarrow> fib_entry" where
  "lookupFib_name n s = Fib_findLongestPrefixMatch n s"

end
