(* ===== verification/Strategies.thy ===== *)
theory Strategies
  imports Forwarder_State
begin

text \<open>
  The forwarding strategies: retransmission suppression
  (\<^verbatim>\<open>retx-suppression-exponential.cpp\<close>), the treatment of Nacks shared by several
  strategies (\<^verbatim>\<open>process-nack-traits.cpp\<close>), best-route, multicast, random and the KITE
  strategy (\<^verbatim>\<open>kite-strategy.cpp\<close>).  A handler that dereferences a null pointer, or lets
  an exception escape, ends with a fault and the state reached so far.  A strategy
  object is named by the prefix of the strategy choice entry that owns it.
\<close>

section \<open>Retransmission suppression\<close>

datatype retx_result = RETX_NEW | RETX_FORWARD | RETX_SUPPRESS

text \<open>The interval kept in the strategy information, the initial one when there is none.\<close>

definition suppression_interval :: "strategy \<Rightarrow> strategy_info_host \<Rightarrow> int" where
  "suppression_interval st info =
     (case getStrategyInfo 1020 info of Some (PitInfo t) \<Rightarrow> t | _ \<Rightarrow> s_initialInterval st)"

definition next_interval :: "strategy \<Rightarrow> int \<Rightarrow> int" where
  "next_interval st t = min (s_maxInterval st) (t * fst (s_multiplier st) div snd (s_multiplier st))"

definition decidePerPitEntry :: "env \<Rightarrow> strategy \<Rightarrow> nat \<Rightarrow> fwd \<Rightarrow> retx_result \<times> fwd" where
  "decidePerPitEntry E st pid s =
     (case get_pit s pid of
        None \<Rightarrow> (RETX_NEW, s)
      | Some e \<Rightarrow>
         if \<not> hasPendingOutRecords (en_now E) e then (RETX_NEW, s)
         else (case getLastOutgoing e of
                 None \<Rightarrow> (RETX_NEW, s)
               | Some lastOutgoing \<Rightarrow>
                  (let t = suppression_interval st (pe_info e);
                       put = (\<lambda>t s. update_pit pid (\<lambda>e. e\<lparr>pe_info := setStrategyInfo (PitInfo t) (pe_info e)\<rparr>) s)
                   in if en_now E - lastOutgoing < ms t then (RETX_SUPPRESS, put t s)
                      else (RETX_FORWARD, put (next_interval st t) s))))"

definition update_out_info :: "nat \<Rightarrow> face \<Rightarrow> (strategy_info_host \<Rightarrow> strategy_info_host) \<Rightarrow> fwd \<Rightarrow> fwd" where
  "update_out_info pid face f s =
     update_pit pid (\<lambda>e. e\<lparr>pe_out := update_rec face (\<lambda>r. r\<lparr>fr_info := f (fr_info r)\<rparr>) (pe_out e)\<rparr>) s"

definition update_in_info :: "nat \<Rightarrow> face \<Rightarrow> (strategy_info_host \<Rightarrow> strategy_info_host) \<Rightarrow> fwd \<Rightarrow> fwd" where
  "update_in_info pid face f s =
     update_pit pid (\<lambda>e. e\<lparr>pe_in := update_rec face (\<lambda>r. r\<lparr>fr_info := f (fr_info r)\<rparr>) (pe_in e)\<rparr>) s"

definition out_record_of :: "nat \<Rightarrow> face \<Rightarrow> fwd \<Rightarrow> out_record option" where
  "out_record_of pid face s = Option.bind (get_pit s pid) (\<lambda>e. getOutRecord e face)"

definition in_record_of :: "nat \<Rightarrow> face \<Rightarrow> fwd \<Rightarrow> in_record option" where
  "in_record_of pid face s = Option.bind (get_pit s pid) (\<lambda>e. getInRecord e face)"

definition decidePerUpstream :: "env \<Rightarrow> strategy \<Rightarrow> nat \<Rightarrow> face \<Rightarrow> fwd \<Rightarrow> retx_result \<times> fwd" where
  "decidePerUpstream E st pid outFace s =
     (case out_record_of pid outFace s of
        None \<Rightarrow> (RETX_NEW, s)
      | Some r \<Rightarrow>
         (let t = suppression_interval st (fr_info r);
              s' = update_out_info pid outFace (setStrategyInfo (PitInfo t)) s
          in if en_now E - fr_lastRenewed r < ms t then (RETX_SUPPRESS, s') else (RETX_FORWARD, s')))"

definition incrementIntervalForOutRecord :: "strategy \<Rightarrow> nat \<Rightarrow> face \<Rightarrow> fwd \<Rightarrow> fwd" where
  "incrementIntervalForOutRecord st pid face s =
     update_out_info pid face
       (\<lambda>info. setStrategyInfo (PitInfo (next_interval st (suppression_interval st info))) info) s"

section \<open>Nacks\<close>

text \<open>
  The scan of \<^verbatim>\<open>processNack\<close>: number of out-records without Nack, the face of the last of
  them, and the least severe reason seen.
\<close>

fun nack_scan :: "out_record list \<Rightarrow> nat \<Rightarrow> face option \<Rightarrow> nack_reason \<Rightarrow> nat \<times> face option \<times> nack_reason" where
  "nack_scan [] n lastFace least = (n, lastFace, least)"
| "nack_scan (r # rs) n lastFace least =
     (case or_nack r of
        None \<Rightarrow> nack_scan rs (Suc n) (Some (fr_face r)) least
      | Some reason \<Rightarrow> nack_scan rs n lastFace (if isLessSevere reason least then reason else least))"

definition processNack ::
  "(face \<Rightarrow> nack_reason \<Rightarrow> fwd \<Rightarrow> (fault, fwd) outcome) \<Rightarrow> (nack_reason \<Rightarrow> fwd \<Rightarrow> (fault, fwd) outcome) \<Rightarrow>
   nat \<Rightarrow> fwd \<Rightarrow> (fault, fwd) outcome" where
  "processNack sendNackForTraits sendNacksForTraits pid s =
     (case get_pit s pid of
        None \<Rightarrow> ok s
      | Some e \<Rightarrow>
         (let (nOutRecordsNotNacked, lastFaceNotNacked, outNack) = nack_scan (pe_out e) 0 None NACK_NONE in
          if nOutRecordsNotNacked = 1 \<and> getInRecord e (the lastFaceNotNacked) \<noteq> None
          then sendNackForTraits (the lastFaceNotNacked) outNack s
          else if nOutRecordsNotNacked > 0 then ok s
          else sendNacksForTraits outNack s))"

text \<open>The default way to send the Nacks, used by best-route and random.\<close>

definition processNack_default :: "nat \<Rightarrow> fwd \<Rightarrow> (fault, fwd) outcome" where
  "processNack_default pid s =
     processNack (\<lambda>face reason s. ok (sendNack reason face pid s)) (\<lambda>reason s. ok (sendNacks reason pid s)) pid s"

section \<open>Best-route, multicast, random\<close>

definition nack_and_reject :: "env \<Rightarrow> face \<Rightarrow> nat \<Rightarrow> fwd \<Rightarrow> fwd" where
  "nack_and_reject E face pid s = rejectPendingInterest E pid (sendNack NO_ROUTE face pid s)"

definition best_route_afterReceiveInterest ::
  "env \<Rightarrow> strategy \<Rightarrow> interest \<Rightarrow> face \<Rightarrow> nat \<Rightarrow> fwd \<Rightarrow> fwd" where
  "best_route_afterReceiveInterest E st interest ingress pid s0 =
     (let (suppression, s) = decidePerPitEntry E st pid s0 in
      if suppression = RETX_SUPPRESS then s
      else case get_pit s pid of
             None \<Rightarrow> s
           | Some e \<Rightarrow>
              (let nexthops = fe_nextHops (lookupFib e s) in
               if suppression = RETX_NEW then
                 (case find (\<lambda>h. isNextHopEligible ingress interest h e False 0) nexthops of
                    None \<Rightarrow> nack_and_reject E ingress pid s
                  | Some it \<Rightarrow> snd (sendInterest E interest (nh_face it) pid s))
               else (case find (\<lambda>h. isNextHopEligible ingress interest h e True (en_now E)) nexthops of
                       Some it \<Rightarrow> snd (sendInterest E interest (nh_face it) pid s)
                     | None \<Rightarrow>
                        (case findEligibleNextHopWithEarliestOutRecord ingress interest nexthops e of
                           None \<Rightarrow> s
                         | Some it \<Rightarrow> snd (sendInterest E interest (nh_face it) pid s)))))"

definition multicast_hop :: "env \<Rightarrow> strategy \<Rightarrow> interest \<Rightarrow> face \<Rightarrow> nat \<Rightarrow> next_hop \<Rightarrow> fwd \<Rightarrow> fwd" where
  "multicast_hop E st interest ingress pid nexthop s0 =
     (let outFace = nh_face nexthop;
          (suppressResult, s) = decidePerUpstream E st pid outFace s0
      in if suppressResult = RETX_SUPPRESS then s
         else case get_pit s pid of
                None \<Rightarrow> s
              | Some e \<Rightarrow>
                 if \<not> isNextHopEligible ingress interest nexthop e False 0 then s
                 else (let (sent, s') = sendInterest E interest outFace pid s in
                       if sent \<and> suppressResult = RETX_FORWARD
                       then incrementIntervalForOutRecord st pid outFace s' else s'))"

definition multicast_afterReceiveInterest ::
  "env \<Rightarrow> strategy \<Rightarrow> interest \<Rightarrow> face \<Rightarrow> nat \<Rightarrow> fwd \<Rightarrow> fwd" where
  "multicast_afterReceiveInterest E st interest ingress pid s =
     (case get_pit s pid of
        None \<Rightarrow> s
      | Some e \<Rightarrow> fold (multicast_hop E st interest ingress pid) (fe_nextHops (lookupFib e s)) s)"

definition multicast_afterNewNextHop :: "env \<Rightarrow> next_hop \<Rightarrow> nat \<Rightarrow> fwd \<Rightarrow> fwd" where
  "multicast_afterNewNextHop E nextHop pid s =
     (case get_pit s pid of
        None \<Rightarrow> s
      | Some e \<Rightarrow>
         (case find (\<lambda>r. isNextHopEligible (fr_face r) (pe_interest e) nextHop e False 0) (pe_in e) of
            None \<Rightarrow> s
          | Some r \<Rightarrow> snd (sendInterest E (pe_interest e) (nh_face nextHop) pid s)))"

definition random_afterReceiveInterest :: "env \<Rightarrow> interest \<Rightarrow> face \<Rightarrow> nat \<Rightarrow> fwd \<Rightarrow> fwd" where
  "random_afterReceiveInterest E interest ingress pid s =
     (case get_pit s pid of
        None \<Rightarrow> s
      | Some e \<Rightarrow>
         (let nhs = filter (\<lambda>h. isNextHopEligible ingress interest h e False 0) (fe_nextHops (lookupFib e s)) in
          if nhs = [] then nack_and_reject E ingress pid s
          else snd (sendInterest E interest (nh_face (hd (en_shuffle E nhs))) pid s)))"

section \<open>The KITE strategy\<close>

subsection \<open>Interests\<close>

text \<open>The concatenation of the delegations marked with the KITE keyword, without the mark.\<close>

definition kiteHint :: "name list \<Rightarrow> name" where
  "kiteHint delegationList =
     fold (\<lambda>delegation hint.
             if delegation \<noteq> [] \<and> hd delegation = KITE_KEYWORD
             then name_append hint (getSubName delegation 1 None) else hint) delegationList []"

definition interest_status :: "strategy_info_host \<Rightarrow> kite_interest_status option" where
  "interest_status info =
     (case getStrategyInfo 1132 info of Some (KiteInterestStatus k) \<Rightarrow> Some k | _ \<Rightarrow> None)"

definition new_status :: kite_interest_status where
  "new_status = \<lparr>kis_stage = STRAIGHT_FORWARD, kis_rvName = [], kis_mpName = []\<rparr>"

definition set_status ::
  "(kite_interest_status \<Rightarrow> kite_interest_status) \<Rightarrow> strategy_info_host \<Rightarrow> strategy_info_host" where
  "set_status f info =
     setStrategyInfo (KiteInterestStatus (f (case interest_status info of None \<Rightarrow> new_status | Some k \<Rightarrow> k))) info"

definition mp_info :: "strategy_info_host \<Rightarrow> kite_mp_info option" where
  "mp_info info =
     (case getStrategyInfo 1134 info of Some (KiteMobileProducerInfo k) \<Rightarrow> Some k | _ \<Rightarrow> None)"

definition new_mp_info :: kite_mp_info where
  "new_mp_info = \<lparr>kmp_name = [], kmp_pitEntrys = [], kmp_faceIds = []\<rparr>"

text \<open>Forwarding towards the producer: whether a nexthop was found, and the outcome.\<close>

fun kite_straight :: "env \<Rightarrow> interest \<Rightarrow> face \<Rightarrow> nat \<Rightarrow> name \<Rightarrow> name \<Rightarrow> next_hop list \<Rightarrow> bool \<Rightarrow> fwd \<Rightarrow>
   bool \<times> (fault, fwd) outcome" where
  "kite_straight E interest inFace pid hint mpName [] foundNextHops s = (foundNextHops, ok s)"
| "kite_straight E interest inFace pid hint mpName (nextHop # nextHops) foundNextHops s =
     (case get_pit s pid of
        None \<Rightarrow> (foundNextHops, (Some NullDereference, s))
      | Some e \<Rightarrow>
         if \<not> isNextHopEligible inFace interest nextHop e False 0
         then kite_straight E interest inFace pid hint mpName nextHops foundNextHops s
         else if \<not> foundNextHops \<and> getInRecord e inFace = None then (True, (Some NullDereference, s))
         else (let outFace = nh_face nextHop;
                   s1 = (if foundNextHops then s
                         else update_in_info pid inFace
                                (set_status (\<lambda>k. k\<lparr>kis_stage := STRAIGHT_FORWARD, kis_rvName := hint\<rparr>)) s);
                   (sent, s2) = sendInterest E interest outFace pid s1
               in if \<not> sent then (True, (Some NullDereference, s2))
                  else kite_straight E interest inFace pid hint mpName nextHops True
                         (update_out_info pid outFace
                           (set_status (\<lambda>k. k\<lparr>kis_stage := STRAIGHT_FORWARD, kis_mpName := mpName\<rparr>)) s2)))"

text \<open>Forwarding to every eligible nexthop, as towards the rendezvous server.\<close>

fun kite_flood :: "env \<Rightarrow> interest \<Rightarrow> face \<Rightarrow> nat \<Rightarrow> next_hop list \<Rightarrow> bool \<Rightarrow> fwd \<Rightarrow> bool \<times> fwd" where
  "kite_flood E interest inFace pid [] foundNextHops s = (foundNextHops, s)"
| "kite_flood E interest inFace pid (nextHop # nextHops) foundNextHops s =
     (case get_pit s pid of
        None \<Rightarrow> (foundNextHops, s)
      | Some e \<Rightarrow>
         if \<not> isNextHopEligible inFace interest nextHop e False 0
         then kite_flood E interest inFace pid nextHops foundNextHops s
         else kite_flood E interest inFace pid nextHops True
                (snd (sendInterest E interest (nh_face nextHop) pid s)))"

text \<open>
  Remembering the pending Interest under the name of the producer.  An entry already
  present for the Interest name is kept, as \<^verbatim>\<open>unordered_map::insert\<close> does.
\<close>

definition remember_pending :: "env \<Rightarrow> name \<Rightarrow> name \<Rightarrow> interest \<Rightarrow> nat \<Rightarrow> fwd \<Rightarrow> (fault, fwd) outcome" where
  "remember_pending E sp mpName interest pid s =
     (let (entry, s1) = accessor_get (en_now E) sp mpName s in
      case entry of
        None \<Rightarrow> (Some NullDereference, s1)
      | Some k \<Rightarrow> ok (update_meas k (\<lambda>m.
          let pki = (case mp_info (me_info m) of None \<Rightarrow> new_mp_info | Some p \<Rightarrow> p);
              entrys = (if tab_get (kmp_pitEntrys pki) (i_name interest) \<noteq> None then kmp_pitEntrys pki
                        else tab_put (i_name interest) pid (kmp_pitEntrys pki))
          in m\<lparr>me_info := setStrategyInfo (KiteMobileProducerInfo (pki\<lparr>kmp_pitEntrys := entrys\<rparr>)) (me_info m)\<rparr>) s1))"

definition kite_afterReceiveInterest ::
  "env \<Rightarrow> name \<Rightarrow> interest \<Rightarrow> face \<Rightarrow> nat \<Rightarrow> fwd \<Rightarrow> (fault, fwd) outcome" where
  "kite_afterReceiveInterest E sp interest ingress pid s =
     (case get_pit s pid of
        None \<Rightarrow> ok s
      | Some e \<Rightarrow>
         (let hint = kiteHint (i_hint interest); fibEntry = lookupFib e s in
          if hint \<noteq> [] then
            (let (found, r) = kite_straight E interest ingress pid hint (fe_prefix fibEntry) (fe_nextHops fibEntry) False s
             in and_then r (\<lambda>s1.
               if \<not> found then
                 (let (found', s2) = kite_flood E interest ingress pid (fe_nextHops (lookupFib_name hint s1)) False s1
                  in ok (if \<not> found' then nack_and_reject E ingress pid s2 else s2))
               else remember_pending E sp (fe_prefix fibEntry) interest pid s1))
          else
            (let s1 = (if fe_nextHops fibEntry = [] then nack_and_reject E ingress pid s else s);
                 (found, s2) = kite_flood E interest ingress pid (fe_nextHops fibEntry) False s1
             in ok (if \<not> found then nack_and_reject E ingress pid s2 else s2))))"

subsection \<open>Data\<close>

definition eraseMeasurement :: "env \<Rightarrow> name \<Rightarrow> out_record \<Rightarrow> name \<Rightarrow> fwd \<Rightarrow> (fault, fwd) outcome" where
  "eraseMeasurement E sp r interestName s =
     (case interest_status (fr_info r) of
        None \<Rightarrow> ok s
      | Some interestStage \<Rightarrow>
         (let (entry, s1) = accessor_get (en_now E) sp (kis_mpName interestStage) s in
          case entry of
            None \<Rightarrow> (Some NullDereference, s1)
          | Some k \<Rightarrow> ok (update_meas k (\<lambda>m.
              case mp_info (me_info m) of
                None \<Rightarrow> m
              | Some pki \<Rightarrow> m\<lparr>me_info := setStrategyInfo (KiteMobileProducerInfo
                  (pki\<lparr>kmp_pitEntrys := tab_del interestName (kmp_pitEntrys pki)\<rparr>)) (me_info m)\<rparr>) s1)))"

text \<open>The conversion of milliseconds to nanoseconds in 64-bit arithmetic.\<close>

definition ms_to_ns :: "int \<Rightarrow> int" where
  "ms_to_ns t = sint (word_of_int (t * 1000000) :: 64 word)"

definition resend_pending :: "env \<Rightarrow> face \<Rightarrow> (name \<times> nat) list \<Rightarrow> fwd \<Rightarrow> fwd" where
  "resend_pending E mpFace items s =
     fold (\<lambda>(_, pid) s. case get_pit s pid of
                           None \<Rightarrow> s
                         | Some e \<Rightarrow> snd (sendInterest E (pe_interest e) mpFace pid s)) items s"

fun regist_loop :: "env \<Rightarrow> name \<Rightarrow> prefix_ann \<Rightarrow> in_record list \<Rightarrow> fwd \<Rightarrow> fwd" where
  "regist_loop E sp pa [] s = s"
| "regist_loop E sp pa (r # rs) s =
     (if f_scope (fr_face r) \<noteq> SCOPE_LOCAL \<and> fr_expiry r > en_now E then
        (let mpFace = fr_face r;
             s1 = emit (SlAnnounce pa (f_id mpFace) 300000) s;
             (entry, s2) = accessor_get (en_now E) sp (pa_name pa) s1
         in case entry of
              None \<Rightarrow> s2
            | Some k \<Rightarrow>
               (let s3 = extendLifetime (en_now E) k (ms_to_ns (pa_expiration pa)) s2;
                    mpInfo = Option.bind (meas_at (tb_nt s3) k) (\<lambda>m. mp_info (me_info m))
                in case mpInfo of
                     Some p \<Rightarrow>
                       if f_id mpFace \<in> set (kmp_faceIds p) then regist_loop E sp pa rs s3
                       else regist_loop E sp pa rs
                              (resend_pending E mpFace (kmp_pitEntrys p)
                                (update_meas k (\<lambda>m. m\<lparr>me_info := setStrategyInfo (KiteMobileProducerInfo
                                   (p\<lparr>kmp_faceIds := f_id mpFace # kmp_faceIds p\<rparr>)) (me_info m)\<rparr>) s3))
                   | None \<Rightarrow> regist_loop E sp pa rs s3))
      else regist_loop E sp pa rs s)"

definition registPrefix :: "env \<Rightarrow> name \<Rightarrow> nat \<Rightarrow> prefix_ann \<Rightarrow> fwd \<Rightarrow> fwd" where
  "registPrefix E sp pid pa s =
     (case get_pit s pid of None \<Rightarrow> s | Some e \<Rightarrow> regist_loop E sp pa (pe_in e) s)"

definition kite_beforeSatisfyInterest :: "env \<Rightarrow> name \<Rightarrow> data \<Rightarrow> face \<Rightarrow> nat \<Rightarrow> fwd \<Rightarrow> (fault, fwd) outcome" where
  "kite_beforeSatisfyInterest E sp d ingress pid s =
     (if d_contentType d = 6 then
        (case Ack_of (en_fromIso E) (d_contentType d) (d_content d) of
           Inl err \<Rightarrow> (Some (PacketError err), s)
         | Inr pa \<Rightarrow> ok (registPrefix E sp pid pa s))
      else case out_record_of pid ingress s of
             None \<Rightarrow> ok s
           | Some r \<Rightarrow> eraseMeasurement E sp r (case get_pit s pid of None \<Rightarrow> [] | Some e \<Rightarrow> pe_name e) s)"

subsection \<open>Nacks\<close>

definition removePrefix :: "env \<Rightarrow> name \<Rightarrow> name \<Rightarrow> nat \<Rightarrow> fwd \<Rightarrow> (fault, fwd) outcome" where
  "removePrefix E sp n inFaceId s =
     (let s1 = emit (SlRenew n inFaceId 0) s;
          (entry, s2) = accessor_get (en_now E) sp n s1
      in case entry of
           None \<Rightarrow> (Some NullDereference, s2)
         | Some k \<Rightarrow> ok (update_meas k (\<lambda>m.
             case mp_info (me_info m) of
               None \<Rightarrow> m
             | Some p \<Rightarrow> m\<lparr>me_info := setStrategyInfo (KiteMobileProducerInfo
                 (p\<lparr>kmp_faceIds := removeAll inFaceId (kmp_faceIds p)\<rparr>)) (me_info m)\<rparr>) s2))"

text \<open>The nexthops towards the rendezvous server that have no in- or out-record yet.\<close>

fun deal_loop :: "env \<Rightarrow> nat \<Rightarrow> next_hop list \<Rightarrow> bool \<Rightarrow> fwd \<Rightarrow> bool \<times> fwd" where
  "deal_loop E pid [] foundNextHops s = (foundNextHops, s)"
| "deal_loop E pid (nextHop # nextHops) foundNextHops s =
     (case get_pit s pid of
        None \<Rightarrow> (foundNextHops, s)
      | Some e \<Rightarrow>
         if list_ex (\<lambda>r. f_id (fr_face r) = f_id (nh_face nextHop)) (pe_in e) \<or>
            list_ex (\<lambda>r. f_id (fr_face r) = f_id (nh_face nextHop)) (pe_out e)
         then deal_loop E pid nextHops foundNextHops s
         else deal_loop E pid nextHops True (snd (sendInterest E (pe_interest e) (nh_face nextHop) pid s)))"

definition dealNack :: "env \<Rightarrow> face \<Rightarrow> nat \<Rightarrow> fwd \<Rightarrow> bool \<times> fwd" where
  "dealNack E inFace pid s =
     (case Option.bind (in_record_of pid inFace s) (\<lambda>r. interest_status (fr_info r)) of
        None \<Rightarrow> (False, s)
      | Some interestStatus \<Rightarrow>
          if kis_stage interestStatus = STRAIGHT_FORWARD
          then (let s1 = update_in_info pid inFace (set_status (\<lambda>k. k\<lparr>kis_stage := RV\<rparr>)) s
                in deal_loop E pid (fe_nextHops (lookupFib_name (kis_rvName interestStatus) s1)) False s1)
          else (False, s))"

definition kite_sendNackForTraits :: "env \<Rightarrow> name \<Rightarrow> nat \<Rightarrow> face \<Rightarrow> nack_reason \<Rightarrow> fwd \<Rightarrow> (fault, fwd) outcome" where
  "kite_sendNackForTraits E sp pid outFace header s =
     (case in_record_of pid outFace s of
        None \<Rightarrow> (Some NullDereference, s)
      | Some inRecord \<Rightarrow>
         (let (dealt, s1) = dealNack E outFace pid s in
          if dealt then ok s1
          else (let s2 = sendNack header outFace pid s1 in
                case out_record_of pid outFace s2 of
                  None \<Rightarrow> ok s2
                | Some r \<Rightarrow> eraseMeasurement E sp r (case get_pit s2 pid of None \<Rightarrow> [] | Some e \<Rightarrow> pe_name e) s2)))"

text \<open>The search for an in-record that can be retransmitted.\<close>

fun deal_any :: "env \<Rightarrow> nat \<Rightarrow> face list \<Rightarrow> fwd \<Rightarrow> bool \<times> fwd" where
  "deal_any E pid [] s = (False, s)"
| "deal_any E pid (face # faces) s =
     (let (dealt, s1) = dealNack E face pid s in if dealt then (True, s1) else deal_any E pid faces s1)"

definition kite_sendNacksForTraits :: "env \<Rightarrow> name \<Rightarrow> nat \<Rightarrow> nack_reason \<Rightarrow> fwd \<Rightarrow> (fault, fwd) outcome" where
  "kite_sendNacksForTraits E sp pid header s =
     (case get_pit s pid of
        None \<Rightarrow> ok s
      | Some e \<Rightarrow>
         (let (dealt, s1) = deal_any E pid (map fr_face (pe_in e)) s in
          if dealt then ok s1
          else (let s2 = sendNacks header pid s1 in
                case Option.bind (get_pit s2 pid) (\<lambda>e. case pe_out e of [] \<Rightarrow> None | r # _ \<Rightarrow> Some r) of
                  None \<Rightarrow> ok s2
                | Some r \<Rightarrow> eraseMeasurement E sp r (pe_name e) s2)))"

definition kite_afterReceiveNack :: "env \<Rightarrow> name \<Rightarrow> face \<Rightarrow> nat \<Rightarrow> fwd \<Rightarrow> (fault, fwd) outcome" where
  "kite_afterReceiveNack E sp ingress pid s =
     (let r = (case Option.bind (out_record_of pid ingress s) (\<lambda>r. interest_status (fr_info r)) of
                 None \<Rightarrow> ok s
               | Some interestStage \<Rightarrow>
                   if kis_stage interestStage = STRAIGHT_FORWARD
                   then removePrefix E sp (kis_mpName interestStage) (f_id ingress) s else ok s)
      in and_then r (processNack (kite_sendNackForTraits E sp pid) (kite_sendNacksForTraits E sp pid) pid))"

section \<open>Property\<close>



end
