(* ===== verification/Face_Cleanup.thy ===== *)
theory Face_Cleanup
  imports Strategy_Choice
begin

text \<open>
  The cleanup of the tables before a face is removed (\<^verbatim>\<open>table/cleanup.cpp\<close>): one pass
  over the name tree removes the nexthops and the PIT records of the face and collects
  the nodes left without table entries, which are then erased, longest names first.
  The pass goes through the nodes in the order of the table that models the name tree.
\<close>

section \<open>Definition\<close>

definition cleanup_node :: "face \<Rightarrow> name \<Rightarrow> 'a tables_scheme \<times> name list \<Rightarrow> 'a tables_scheme \<times> name list" where
  "cleanup_node face k st =
     (let (tb, maybeEmptyNtes) = st;
          tb1 = (case fib_at (tb_nt tb) k of None \<Rightarrow> tb | Some _ \<Rightarrow> fst (Fib_removeNextHop k face tb));
          tb2 = fold (\<lambda>pid. Pit_deleteInOutRecords pid face) (pit_at (tb_nt tb1) k) tb1
      in (tb2, case tab_get (tb_nt tb2) k of
                 None \<Rightarrow> maybeEmptyNtes
               | Some nte \<Rightarrow> if \<not> hasTableEntries nte then maybeEmptyNtes @ [k] else maybeEmptyNtes))"

definition erase_longest_first :: "name list \<Rightarrow> name_tree \<Rightarrow> name_tree" where
  "erase_longest_first ks t = fold (\<lambda>k t. fst (eraseIfEmpty k False t)) (rev (sort_key length ks)) t"

definition cleanupOnFaceRemoval :: "face \<Rightarrow> 'a tables_scheme \<Rightarrow> 'a tables_scheme" where
  "cleanupOnFaceRemoval face tb =
     (let (tb1, maybeEmptyNtes) = fold (cleanup_node face) (map fst (tb_nt tb)) (tb, [])
      in tb1\<lparr>tb_nt := erase_longest_first maybeEmptyNtes (tb_nt tb1)\<rparr>)"

section \<open>Erasing from the longest name\<close>

lemma erase_one:
  assumes "nt_ok t" and "t' = fst (eraseIfEmpty k False t)"
  shows "tab_get t' j \<noteq> None \<longleftrightarrow> tab_get t j \<noteq> None \<and> \<not> (j = k \<and> k \<in> garbage t)"
proof (cases "k \<in> garbage t")
  case True
  then obtain e where e: "tab_get t k = Some e" "nte_isEmpty e" by (auto simp: garbage_def)
  then have "t' = erase_node k e t" using assms(2) by (simp add: eraseIfEmpty_unfold)
  then show ?thesis using True erase_node_get [OF e(1) assms(1), of j] by auto
next
  case False
  then have "t' = t" using assms(2) by (auto simp: eraseIfEmpty_unfold garbage_def split: option.splits)
  then show ?thesis using False by simp
qed

lemma garbage_iff:
  assumes "nt_ok t"
  shows "k \<in> garbage t \<longleftrightarrow> tab_get t k \<noteq> None \<and> node_view t k = (None, [], None, None) \<and>
    \<not> (\<exists>c. c \<noteq> [] \<and> butlast c = k \<and> tab_get t c \<noteq> None)"
proof (cases "tab_get t k")
  case (Some e)
  have "nte_children e = [] \<longleftrightarrow> \<not> (\<exists>c. c \<noteq> [] \<and> butlast c = k \<and> tab_get t c \<noteq> None)"
    using nt_okD(5) [OF assms Some] by (metis empty_iff equals0I list.set(1) set_empty)
  then show ?thesis using Some by (auto simp: garbage_def nte_isEmpty_def hasTableEntries_def node_view_def)
qed (simp add: garbage_def)

text \<open>After the sweep, a swept node without table entries is kept for the sake of a child only.\<close>

lemma erase_sweep:
  assumes "sorted_wrt (\<lambda>a b. length b \<le> length a) ks" and "nt_ok t"
    and "t' = fold (\<lambda>k t. fst (eraseIfEmpty k False t)) ks t"
  shows "nt_ok t' \<and> node_view t' = node_view t \<and>
    (\<forall>j. j \<notin> set ks \<longrightarrow> (tab_get t' j \<noteq> None \<longleftrightarrow> tab_get t j \<noteq> None)) \<and> (\<forall>k \<in> set ks. k \<notin> garbage t')"
  using assms
proof (induction ks arbitrary: t)
  case (Cons a ks)
  let ?t = "fst (eraseIfEmpty a False t)"
  have ok: "nt_ok ?t" and view: "node_view ?t = node_view t" using Cons.prems(2) by auto
  have le: "\<forall>b \<in> set ks. length b \<le> length a" using Cons.prems by simp
  note one = erase_one [where k = a, OF Cons.prems(2) refl]
  have "nt_ok t' \<and> node_view t' = node_view ?t \<and>
    (\<forall>j. j \<notin> set ks \<longrightarrow> (tab_get t' j \<noteq> None \<longleftrightarrow> tab_get ?t j \<noteq> None)) \<and> (\<forall>k \<in> set ks. k \<notin> garbage t')"
    using Cons.prems ok by (intro Cons.IH) simp_all
  then have IH: "nt_ok t'" "node_view t' = node_view t" "\<And>k. k \<in> set ks \<Longrightarrow> k \<notin> garbage t'"
    "\<And>j. j \<notin> set ks \<Longrightarrow> tab_get t' j \<noteq> None \<longleftrightarrow> tab_get ?t j \<noteq> None"
    using view by simp_all
  have "a \<notin> garbage t'" if a: "a \<notin> set ks"
  proof
    assume "a \<in> garbage t'"
    then have g: "tab_get t' a \<noteq> None" "node_view t a = (None, [], None, None)"
        "\<not> (\<exists>c. c \<noteq> [] \<and> butlast c = a \<and> tab_get t' c \<noteq> None)"
      using garbage_iff [OF IH(1), of a] IH(2) by simp_all
    then have "a \<notin> garbage t" "tab_get t a \<noteq> None" using IH(4) [OF a] one [of a] by blast+
    then obtain c where c: "c \<noteq> []" "butlast c = a" "tab_get t c \<noteq> None"
      using garbage_iff [OF Cons.prems(2), of a] g(2) by blast
    have "length c = Suc (length a)" using c(1,2) by (cases c rule: rev_cases) auto
    then have "c \<notin> set ks" "c \<noteq> a" using le by auto
    then have "tab_get t' c \<noteq> None" using IH(4) [of c] one [of c] c(3) by blast
    then show False using g(3) c(1,2) by blast
  qed
  then have "\<forall>k \<in> set (a # ks). k \<notin> garbage t'" using IH(3) by (metis set_ConsD)
  moreover have "\<forall>j. j \<notin> set (a # ks) \<longrightarrow> (tab_get t' j \<noteq> None \<longleftrightarrow> tab_get t j \<noteq> None)"
    using IH(4) one by (metis list.set_intros(1) list.set_intros(2))
  ultimately show ?case using IH(1,2) by blast
qed simp

lemma longest_first_sorted: "sorted_wrt (\<lambda>a b. length b \<le> length a) (rev (sort_key length ks))"
  using sorted_sort_key [of length ks] by (simp add: sorted_map sorted_wrt_rev)

section \<open>The pass over the tables\<close>

definition without_face :: "face \<Rightarrow> fib_entry \<Rightarrow> fib_entry option" where
  "without_face face e =
     (let e' = fst (Entry_removeNextHop face e) in
      if hasNextHop e face \<and> fe_nextHops e' = [] then None else Some e')"

definition records_without :: "face \<Rightarrow> pit_entry \<Rightarrow> pit_entry" where
  "records_without face e = deleteOutRecord face (deleteInRecord face e)"

lemma removeNextHop_frame:
  "map fst (tb_nt (fst (Fib_removeNextHop k face tb))) = map fst (tb_nt tb)"
  "pit_at (tb_nt (fst (Fib_removeNextHop k face tb))) = pit_at (tb_nt tb)"
  "meas_at (tb_nt (fst (Fib_removeNextHop k face tb))) = meas_at (tb_nt tb)"
  "sc_at (tb_nt (fst (Fib_removeNextHop k face tb))) = sc_at (tb_nt tb)"
  "tb_pits (fst (Fib_removeNextHop k face tb)) = tb_pits tb"
  "tb_nextPit (fst (Fib_removeNextHop k face tb)) = tb_nextPit tb"
  "tb_measItems (fst (Fib_removeNextHop k face tb)) = tb_measItems tb"
  "tb_scItems (fst (Fib_removeNextHop k face tb)) = tb_scItems tb"
  by (auto simp: Fib_removeNextHop_def Fib_erase_nte_def Let_def setFibEntry_def fun_eq_iff view_defs
      split: option.splits prod.splits)

lemma tables_ok_fib:
  assumes "tables_ok tb" and "fib_ok tb'" and "pit_at (tb_nt tb') = pit_at (tb_nt tb)"
    and "meas_at (tb_nt tb') = meas_at (tb_nt tb)" and "sc_at (tb_nt tb') = sc_at (tb_nt tb)"
    and "tb_pits tb' = tb_pits tb" and "tb_nextPit tb' = tb_nextPit tb" and "tb_measItems tb' = tb_measItems tb"
    and "tb_scItems tb' = tb_scItems tb"
  shows "tables_ok tb'"
proof -
  have nt: "nt_ok (tb_nt tb')" using assms(2) by (simp add: fib_ok_def)
  have "pit_ok (tb\<lparr>tb_nt := tb_nt tb'\<rparr>)"
    using assms nt by (intro pit_ok_nt) (simp_all add: tables_ok_def)
  then have "pit_ok tb'" using assms by (simp add: pit_ok_def get_pit_def)
  then show ?thesis
    using assms nt by (simp add: tables_ok_def meas_ok_def sc_ok_def meas_names_def sc_names_def)
qed

lemma addNextHop_frame:
  "pit_at (tb_nt (fst (Fib_insert p tb))) = pit_at (tb_nt tb)"
  "meas_at (tb_nt (fst (Fib_insert p tb))) = meas_at (tb_nt tb)"
  "sc_at (tb_nt (fst (Fib_insert p tb))) = sc_at (tb_nt tb)"
  "pit_at (tb_nt (fst (Fib_addOrUpdateNextHop p face cost tb))) = pit_at (tb_nt tb)"
  "meas_at (tb_nt (fst (Fib_addOrUpdateNextHop p face cost tb))) = meas_at (tb_nt tb)"
  "sc_at (tb_nt (fst (Fib_addOrUpdateNextHop p face cost tb))) = sc_at (tb_nt tb)"
  by (rule ext; simp add: Fib_insert_def Fib_addOrUpdateNextHop_def Let_def split: option.splits prod.splits)+

lemma addNextHop_fields:
  "tb_pits (fst (Fib_insert p tb)) = tb_pits tb" "tb_nextPit (fst (Fib_insert p tb)) = tb_nextPit tb"
  "tb_measItems (fst (Fib_insert p tb)) = tb_measItems tb" "tb_scItems (fst (Fib_insert p tb)) = tb_scItems tb"
  "tb_pits (fst (Fib_addOrUpdateNextHop p face cost tb)) = tb_pits tb"
  "tb_nextPit (fst (Fib_addOrUpdateNextHop p face cost tb)) = tb_nextPit tb"
  "tb_measItems (fst (Fib_addOrUpdateNextHop p face cost tb)) = tb_measItems tb"
  "tb_scItems (fst (Fib_addOrUpdateNextHop p face cost tb)) = tb_scItems tb"
  by (simp_all add: Fib_insert_def Fib_addOrUpdateNextHop_def Let_def split: option.splits prod.splits)

lemma removeNextHop_tables_ok:
  assumes "tables_ok tb"
  shows "tables_ok (fst (Fib_removeNextHop k face tb))"
  by (rule tables_ok_fib [OF assms])
     (use assms Fib_removeNextHop_ok(1) [of tb] in \<open>simp_all add: removeNextHop_frame tables_ok_def\<close>)

lemma addNextHop_tables_ok:
  assumes "tables_ok tb"
  shows "length p \<le> getMaxDepth \<Longrightarrow> tables_ok (fst (Fib_insert p tb))"
    and "tables_ok (fst (Fib_addOrUpdateNextHop p face cost tb))"
proof -
  have fib: "fib_ok tb" using assms by (simp add: tables_ok_def)
  show "tables_ok (fst (Fib_insert p tb))" if "length p \<le> getMaxDepth"
    by (rule tables_ok_fib [OF assms Fib_insert_ok(1) [OF fib that]]) (simp_all add: addNextHop_frame addNextHop_fields)
  show "tables_ok (fst (Fib_addOrUpdateNextHop p face cost tb))"
    by (rule tables_ok_fib [OF assms Fib_addOrUpdateNextHop_ok(1) [OF fib]]) (simp_all add: addNextHop_frame addNextHop_fields)
qed

lemma fold_delete_records:
  "get_pit (fold (\<lambda>pid. Pit_deleteInOutRecords pid face) pids tb) p =
     (if p \<in> set pids \<and> distinct pids then map_option (records_without face) (get_pit tb p) else
      if p \<in> set pids then get_pit (fold (\<lambda>pid. Pit_deleteInOutRecords pid face) pids tb) p else get_pit tb p)"
  "tb_nt (fold (\<lambda>pid. Pit_deleteInOutRecords pid face) pids tb) = tb_nt tb"
  by (induction pids arbitrary: tb)
     (auto simp: Pit_deleteInOutRecords_def records_without_def [abs_def] get_pit_update)

lemma delete_records_tables_ok:
  "tables_ok tb \<Longrightarrow> tables_ok (fold (\<lambda>pid. Pit_deleteInOutRecords pid face) pids tb)"
proof (rule fold_inv [where P = tables_ok])
  fix pid tb assume "tables_ok (tb :: 'a tables_scheme)"
  then show "tables_ok (Pit_deleteInOutRecords pid face tb)"
    unfolding Pit_deleteInOutRecords_def by (rule update_pit_tables_ok) simp_all
qed

text \<open>What the pass has done to the tables after the nodes \<^term>\<open>ps\<close>.\<close>

definition passed :: "face \<Rightarrow> name set \<Rightarrow> 'a tables_scheme \<Rightarrow> 'a tables_scheme \<Rightarrow> bool" where
  "passed face ps tb tb' \<longleftrightarrow> tables_ok tb' \<and> map fst (tb_nt tb') = map fst (tb_nt tb) \<and>
     pit_at (tb_nt tb') = pit_at (tb_nt tb) \<and> meas_at (tb_nt tb') = meas_at (tb_nt tb) \<and> sc_at (tb_nt tb') = sc_at (tb_nt tb) \<and>
     (\<forall>k. fib_at (tb_nt tb') k =
        (if k \<in> ps then Option.bind (fib_at (tb_nt tb) k) (without_face face) else fib_at (tb_nt tb) k)) \<and>
     (\<forall>p. get_pit tb' p = (if \<exists>k \<in> ps. p \<in> set (pit_at (tb_nt tb) k)
        then map_option (records_without face) (get_pit tb p) else get_pit tb p))"

lemma cleanup_node_passed:
  assumes ps: "passed face ps tb tb'" and ok: "tables_ok tb" and k: "k \<notin> ps"
    and n: "cleanup_node face k (tb', es) = (tb2, es')"
  shows "passed face (insert k ps) tb tb2"
    and "es' = (if tab_get (tb_nt tb2) k \<noteq> None \<and> node_view (tb_nt tb2) k = (None, [], None, None) then es @ [k] else es)"
proof -
  define tb1 where "tb1 = (case fib_at (tb_nt tb') k of None \<Rightarrow> tb' | Some _ \<Rightarrow> fst (Fib_removeNextHop k face tb'))"
  have tb2: "tb2 = fold (\<lambda>pid. Pit_deleteInOutRecords pid face) (pit_at (tb_nt tb1) k) tb1"
    using n by (simp add: cleanup_node_def tb1_def Let_def)
  have ok': "tables_ok tb'" and keys: "map fst (tb_nt tb') = map fst (tb_nt tb)"
    and at': "pit_at (tb_nt tb') = pit_at (tb_nt tb)" "meas_at (tb_nt tb') = meas_at (tb_nt tb)" "sc_at (tb_nt tb') = sc_at (tb_nt tb)"
    and fib': "\<And>k. fib_at (tb_nt tb') k = (if k \<in> ps then Option.bind (fib_at (tb_nt tb) k) (without_face face) else fib_at (tb_nt tb) k)"
    and get': "\<And>p. get_pit tb' p = (if \<exists>k \<in> ps. p \<in> set (pit_at (tb_nt tb) k)
        then map_option (records_without face) (get_pit tb p) else get_pit tb p)"
    using ps by (simp_all add: passed_def)
  have ok1: "tables_ok tb1" using ok' removeNextHop_tables_ok [OF ok'] by (simp add: tb1_def split: option.split)
  have frame1: "map fst (tb_nt tb1) = map fst (tb_nt tb)" "pit_at (tb_nt tb1) = pit_at (tb_nt tb)"
      "meas_at (tb_nt tb1) = meas_at (tb_nt tb)" "sc_at (tb_nt tb1) = sc_at (tb_nt tb)" "tb_pits tb1 = tb_pits tb'"
    using keys at' by (simp_all add: tb1_def removeNextHop_frame split: option.split)
  have fib1: "fib_at (tb_nt tb1) j = (if j \<in> insert k ps then Option.bind (fib_at (tb_nt tb) j) (without_face face)
      else fib_at (tb_nt tb) j)" for j
    using Fib_removeNextHop_ok(2) [of tb' k face j] ok' k fib'
    by (auto simp: tb1_def tables_ok_def without_face_def split: option.split)
  have pit: "pit_ok tb" using ok by (simp add: tables_ok_def)
  note fr = frame1 fold_delete_records(2) [of face "pit_at (tb_nt tb1) k" tb1, folded tb2]
  have once: "(\<exists>j \<in> ps. p \<in> set (pit_at (tb_nt tb) j)) \<Longrightarrow> p \<notin> set (pit_at (tb_nt tb) k)" for p
    using pit_okD(4) [OF pit, of p] k by fastforce
  have "get_pit tb2 p = (if p \<in> set (pit_at (tb_nt tb) k) then map_option (records_without face) (get_pit tb' p)
      else get_pit tb' p)" for p
    unfolding tb2 using fold_delete_records(1) [of face "pit_at (tb_nt tb1) k" tb1 p] pit_okD(3) [OF pit, of k] frame1
    by (simp add: get_pit_def split: if_splits)
  then have "get_pit tb2 p = (if \<exists>j \<in> insert k ps. p \<in> set (pit_at (tb_nt tb) j)
      then map_option (records_without face) (get_pit tb p) else get_pit tb p)" for p
    using get' [of p] once [of p] by (simp split: if_splits)
  then show "passed face (insert k ps) tb tb2"
    using delete_records_tables_ok [OF ok1] fib1 fr by (simp add: passed_def tb2)
  show "es' = (if tab_get (tb_nt tb2) k \<noteq> None \<and> node_view (tb_nt tb2) k = (None, [], None, None) then es @ [k] else es)"
    using n by (auto simp: cleanup_node_def tb1_def [symmetric] tb2 [symmetric] Let_def hasTableEntries_def node_view_def
        split: option.splits)
qed

lemma cleanup_pass:
  assumes ok: "tables_ok tb"
  shows "distinct ks \<Longrightarrow> set ks \<inter> ps = {} \<Longrightarrow> passed face ps tb tb' \<Longrightarrow> fold (cleanup_node face) ks (tb', es) = (tb2, es') \<Longrightarrow>
    passed face (ps \<union> set ks) tb tb2 \<and>
    set es' = set es \<union> {k \<in> set ks. tab_get (tb_nt tb2) k \<noteq> None \<and> node_view (tb_nt tb2) k = (None, [], None, None)}"
proof (induction ks arbitrary: ps tb' es)
  case (Cons k ks)
  obtain tb1 es1 where n: "cleanup_node face k (tb', es) = (tb1, es1)" by fastforce
  have k: "k \<notin> ps" using Cons.prems(2) by simp
  note step = cleanup_node_passed [OF Cons.prems(3) ok k n]
  have "passed face (insert k ps \<union> set ks) tb tb2 \<and> set es' = set es1 \<union>
      {k \<in> set ks. tab_get (tb_nt tb2) k \<noteq> None \<and> node_view (tb_nt tb2) k = (None, [], None, None)}"
    using Cons.prems n step(1) by (intro Cons.IH) auto
  moreover have "tab_get (tb_nt tb2) k \<noteq> None \<longleftrightarrow> tab_get (tb_nt tb1) k \<noteq> None"
      "node_view (tb_nt tb2) k = node_view (tb_nt tb1) k" if "passed face (insert k ps \<union> set ks) tb tb2"
  proof -
    have "map fst (tb_nt tb2) = map fst (tb_nt tb1)" using that step(1) by (simp add: passed_def)
    then have "fst ` set (tb_nt tb2) = fst ` set (tb_nt tb1)" by (metis list.set_map)
    then show "tab_get (tb_nt tb2) k \<noteq> None \<longleftrightarrow> tab_get (tb_nt tb1) k \<noteq> None"
      unfolding tab_get_None_keys by simp
    have "fib_at (tb_nt tb2) k = fib_at (tb_nt tb1) k \<and> pit_at (tb_nt tb2) k = pit_at (tb_nt tb1) k \<and>
        meas_at (tb_nt tb2) k = meas_at (tb_nt tb1) k \<and> sc_at (tb_nt tb2) k = sc_at (tb_nt tb1) k"
      using that step(1) by (simp add: passed_def)
    then show "node_view (tb_nt tb2) k = node_view (tb_nt tb1) k"
      by (simp add: fib_at_def pit_at_def meas_at_def sc_at_def prod_eq_iff)
  qed
  ultimately show ?case using step(2) by auto
qed simp

lemma cleanup_result:
  assumes ok: "tables_ok tb" and tb'_def: "tb' = cleanupOnFaceRemoval face tb"
  shows "tables_ok tb'" and "garbage (tb_nt tb') = {}"
    and "fib_at (tb_nt tb') k = Option.bind (fib_at (tb_nt tb) k) (without_face face)"
    and "get_pit tb' p = map_option (records_without face) (get_pit tb p)"
    and "meas_at (tb_nt tb') = meas_at (tb_nt tb)" and "sc_at (tb_nt tb') = sc_at (tb_nt tb)"
proof -
  let ?ks = "map fst (tb_nt tb)"
  obtain tb1 es where f: "fold (cleanup_node face) ?ks (tb, []) = (tb1, es)" by fastforce
  have pit: "pit_ok tb" and nt: "nt_ok (tb_nt tb)" using ok by (simp_all add: tables_ok_def fib_ok_def)
  have start: "passed face {} tb tb" using ok by (simp add: passed_def)
  have dist: "distinct ?ks" using nt by (simp add: nt_ok_def)
  have p: "passed face (set ?ks) tb tb1" and es: "set es = {k \<in> set ?ks. tab_get (tb_nt tb1) k \<noteq> None \<and> node_view (tb_nt tb1) k = (None, [], None, None)}"
    using cleanup_pass [OF ok dist _ start f] by simp_all
  let ?t = "erase_longest_first es (tb_nt tb1)"
  have tb': "tb' = tb1\<lparr>tb_nt := ?t\<rparr>" using f by (simp add: tb'_def cleanupOnFaceRemoval_def)
  have ok1: "tables_ok tb1" and nt1: "nt_ok (tb_nt tb1)" using p by (simp_all add: passed_def tables_ok_def fib_ok_def)
  note sweep = erase_sweep [OF longest_first_sorted nt1 refl, of es, folded erase_longest_first_def]
  have view: "node_view ?t = node_view (tb_nt tb1)" and ntt: "nt_ok ?t" using sweep by simp_all
  have at: "fib_at ?t = fib_at (tb_nt tb1)" "pit_at ?t = pit_at (tb_nt tb1)" "meas_at ?t = meas_at (tb_nt tb1)" "sc_at ?t = sc_at (tb_nt tb1)"
    using view by (simp_all add: fib_at_def pit_at_def meas_at_def sc_at_def fun_eq_iff)
  show "tables_ok tb'" unfolding tb' by (rule tables_ok_nt [OF ok1 ntt at])
  show "garbage (tb_nt tb') = {}"
  proof (rule equals0I)
    fix k assume k: "k \<in> garbage (tb_nt tb')"
    then have g: "tab_get ?t k \<noteq> None" "node_view (tb_nt tb1) k = (None, [], None, None)"
      using garbage_iff [OF ntt] view by (simp_all add: tb')
    have "k \<notin> set es" using sweep k by (auto simp: tb')
    then have "tab_get (tb_nt tb1) k \<noteq> None" using sweep g(1) by auto
    moreover from this have "k \<in> set ?ks"
      using p unfolding tab_get_None_keys passed_def by (metis list.set_map)
    ultimately show False using es g(2) \<open>k \<notin> set es\<close> by auto
  qed
  have out: "fib_at (tb_nt tb) k = None" if "k \<notin> set ?ks" for k
    using that tab_get_None_keys [of "tb_nt tb" k] fib_at_present [of "tb_nt tb" k]
    by (cases "fib_at (tb_nt tb) k") auto
  show "fib_at (tb_nt tb') k = Option.bind (fib_at (tb_nt tb) k) (without_face face)"
    using p out [of k] at by (simp add: tb' passed_def)
  have "\<exists>k \<in> set ?ks. p \<in> set (pit_at (tb_nt tb) k)" if "get_pit tb p = Some e" for p e
  proof -
    let ?k = "take (nteDepth (pe_name e)) (pe_name e)"
    have k: "p \<in> set (pit_at (tb_nt tb) ?k)"
      using pit_okD(4) [OF pit, of p ?k] pit_okD(7) [OF pit that] that by simp
    then have "pit_at (tb_nt tb) ?k \<noteq> []" by force
    then have "?k \<in> set ?ks" using pit_at_present [of "tb_nt tb" ?k] tab_get_None_keys [of "tb_nt tb" ?k] by simp
    then show ?thesis using k by (rule bexI [rotated])
  qed
  then show "get_pit tb' p = map_option (records_without face) (get_pit tb p)"
    using p by (cases "get_pit tb p") (auto simp: tb' passed_def)
  show "meas_at (tb_nt tb') = meas_at (tb_nt tb)" "sc_at (tb_nt tb') = sc_at (tb_nt tb)"
    using p at by (simp_all add: tb' passed_def)
qed

lemma without_face_hops:
  assumes "fib_entry_ok e" and "without_face face e = Some e'"
  shows "fe_prefix e' = fe_prefix e" and "set (fe_nextHops e') = {h \<in> set (fe_nextHops e). nh_face h \<noteq> face}"
  using assms removeNextHop_set [OF assms(1), of face]
  by (auto simp: without_face_def Let_def split: if_splits)

section \<open>Properties\<close>

text \<open>C13: removing a face leaves nothing of it in the tables: no FIB entry has a nexthop and no PIT
  entry has an in- or out-record on it.  The nexthops and records of the other faces stay, the tables
  stay well-formed, and no empty node is left in the name tree, as the assertion at the end of the
  code requires.\<close>

theorem face_cleanup_complete:
  assumes "tables_ok tb" and "tb' = cleanupOnFaceRemoval face tb"
  shows "tables_ok tb' \<and> garbage (tb_nt tb') = {} \<and>
    (\<forall>k e'. fib_at (tb_nt tb') k = Some e' \<longrightarrow> face \<notin> nh_face ` set (fe_nextHops e')) \<and>
    (\<forall>p e'. get_pit tb' p = Some e' \<longrightarrow> getInRecord e' face = None \<and> getOutRecord e' face = None) \<and>
    (\<forall>k e h. fib_at (tb_nt tb) k = Some e \<and> h \<in> set (fe_nextHops e) \<and> nh_face h \<noteq> face \<longrightarrow>
       (\<exists>e'. fib_at (tb_nt tb') k = Some e' \<and> h \<in> set (fe_nextHops e'))) \<and>
    (\<forall>p e f. get_pit tb p = Some e \<and> f \<noteq> face \<longrightarrow>
       (\<exists>e'. get_pit tb' p = Some e' \<and> getInRecord e' f = getInRecord e f \<and> getOutRecord e' f = getOutRecord e f))"
proof -
  note r = cleanup_result [OF assms]
  have fib: "fib_entry_ok e" if "fib_at (tb_nt tb) k = Some e" for k e
    using assms(1) that by (simp add: tables_ok_def fib_ok_def)
  have pit: "pit_entry_ok e" if "get_pit tb p = Some e" for p e
    using assms(1) that pit_okD(6) by (auto simp: tables_ok_def)
  have rec: "getInRecord (records_without face e) f = (if f = face then None else getInRecord e f)"
      "getOutRecord (records_without face e) f = (if f = face then None else getOutRecord e f)" if "pit_entry_ok e" for e f
    using that by (simp_all add: records_without_def getInRecord_def getOutRecord_def deleteOutRecord_def deleteInRecord_def
        pit_entry_ok_def find_delete_rec)
  have hop: "\<exists>e'. without_face face e = Some e' \<and> h \<in> set (fe_nextHops e')"
    if "fib_entry_ok e" "h \<in> set (fe_nextHops e)" "nh_face h \<noteq> face" for e h
    using removeNextHop_set [OF that(1), of face] that(2,3) by (auto simp: without_face_def Let_def)
  show ?thesis
  proof (intro conjI allI impI, goal_cases)
    case (3 k e')
    then obtain e where "fib_at (tb_nt tb) k = Some e" "without_face face e = Some e'"
      using r(3) [of k] by (auto simp: bind_eq_Some_conv)
    then show ?case using without_face_hops(2) [OF fib] by auto
  next
    case (6 k e h)
    then show ?case using hop [of e h] fib r(3) [of k] by auto
  qed (use r rec pit in auto)
qed

definition routed_tables :: tables where
  "routed_tables = fst (Fib_addOrUpdateNextHop [Component 8 [65]] face1 10 (fst (Fib_insert [Component 8 [65]] default_tables)))"

theorem face_cleanup_complete_witness:
  "(\<exists>e. fib_at (tb_nt routed_tables) [Component 8 [65]] = Some e \<and> face1 \<in> nh_face ` set (fe_nextHops e)) \<and>
   garbage (tb_nt (cleanupOnFaceRemoval face1 routed_tables)) = {} \<and>
   \<not> (\<exists>k e. fib_at (tb_nt (cleanupOnFaceRemoval face1 routed_tables)) k = Some e \<and> face1 \<in> nh_face ` set (fe_nextHops e))"
proof -
  let ?tb = "fst (Fib_insert [Component 8 [65]] default_tables)"
  have len: "length [Component 8 [65]] \<le> getMaxDepth" by (simp add: getMaxDepth_def)
  have ok0: "tables_ok ?tb" by (rule addNextHop_tables_ok(1) [OF default_tables_ok len])
  have ok: "tables_ok routed_tables" unfolding routed_tables_def by (rule addNextHop_tables_ok(2) [OF ok0])
  have "fib_at (tb_nt ?tb) [Component 8 [65]] = Some (FibEntry_new [Component 8 [65]])"
    using Fib_insert_ok(2) [OF _ len, of default_tables] default_tables_ok by (simp add: tables_ok_def default_at)
  then have "fib_at (tb_nt routed_tables) [Component 8 [65]] =
      Some (fst (Entry_addOrUpdateNextHop face1 10 (FibEntry_new [Component 8 [65]])))"
    using ok0 Fib_addOrUpdateNextHop_ok(2) [of ?tb "[Component 8 [65]]" face1 10 "[Component 8 [65]]"]
    by (simp add: routed_tables_def tables_ok_def)
  moreover have "face1 \<in> nh_face ` set (fe_nextHops (fst (Entry_addOrUpdateNextHop face1 10 (FibEntry_new [Component 8 [65]]))))"
    by (simp add: addOrUpdate_set)
  ultimately show ?thesis using face_cleanup_complete [OF ok refl, of face1] by blast
qed

end
