(* ===== verification/Forwarder.thy ===== *)
theory Forwarder
  imports Strategies Face_Cleanup
begin

text \<open>
  The forwarding pipelines (\<^verbatim>\<open>fw/forwarder.cpp\<close>) and the dispatch to the effective
  strategy.  An event is the arrival of a packet on a face, the expiry of a PIT entry, a
  nexthop added to the FIB, the removal of a face, or one of the timers of the tables.
\<close>

section \<open>Dispatch to strategies\<close>

fun afterReceiveInterest :: "env \<Rightarrow> sc_entry \<Rightarrow> interest \<Rightarrow> face \<Rightarrow> nat \<Rightarrow> fwd \<Rightarrow> (fault, fwd) outcome" where
  "afterReceiveInterest E sc interest ingress pid s =
     (case s_kind (sc_strategy sc) of
        BestRoute \<Rightarrow> ok (best_route_afterReceiveInterest E (sc_strategy sc) interest ingress pid s)
      | Multicast \<Rightarrow> ok (multicast_afterReceiveInterest E (sc_strategy sc) interest ingress pid s)
      | Random \<Rightarrow> ok (random_afterReceiveInterest E interest ingress pid s)
      | Kite \<Rightarrow> kite_afterReceiveInterest E (sc_prefix sc) interest ingress pid s)"

fun beforeSatisfyInterest :: "env \<Rightarrow> sc_entry \<Rightarrow> data \<Rightarrow> face \<Rightarrow> nat \<Rightarrow> fwd \<Rightarrow> (fault, fwd) outcome" where
  "beforeSatisfyInterest E sc d ingress pid s =
     (if s_kind (sc_strategy sc) = Kite then kite_beforeSatisfyInterest E (sc_prefix sc) d ingress pid s else ok s)"

definition afterReceiveData :: "env \<Rightarrow> sc_entry \<Rightarrow> data \<Rightarrow> face \<Rightarrow> nat \<Rightarrow> fwd \<Rightarrow> (fault, fwd) outcome" where
  "afterReceiveData E sc d ingress pid s =
     and_then (beforeSatisfyInterest E sc d ingress pid s) (\<lambda>s1. ok (sendDataToAll E d pid ingress s1))"

definition afterContentStoreHit :: "data \<Rightarrow> face \<Rightarrow> nat \<Rightarrow> fwd \<Rightarrow> (fault, fwd) outcome" where
  "afterContentStoreHit d ingress pid s = ok (snd (sendData d ingress pid s))"

fun afterReceiveNack :: "env \<Rightarrow> sc_entry \<Rightarrow> face \<Rightarrow> nat \<Rightarrow> fwd \<Rightarrow> (fault, fwd) outcome" where
  "afterReceiveNack E sc ingress pid s =
     (case s_kind (sc_strategy sc) of
        BestRoute \<Rightarrow> processNack_default pid s
      | Multicast \<Rightarrow> ok s
      | Random \<Rightarrow> processNack_default pid s
      | Kite \<Rightarrow> kite_afterReceiveNack E (sc_prefix sc) ingress pid s)"

fun afterNewNextHop :: "env \<Rightarrow> sc_entry \<Rightarrow> next_hop \<Rightarrow> nat \<Rightarrow> fwd \<Rightarrow> (fault, fwd) outcome" where
  "afterNewNextHop E sc nextHop pid s =
     (if s_kind (sc_strategy sc) = Multicast then ok (multicast_afterNewNextHop E nextHop pid s) else ok s)"

text \<open>A trigger is invoked on the effective strategy of a PIT entry.\<close>

definition with_strategy ::
  "nat \<Rightarrow> (sc_entry \<Rightarrow> fwd \<Rightarrow> (fault, fwd) outcome) \<Rightarrow> fwd \<Rightarrow> (fault, fwd) outcome" where
  "with_strategy pid trigger s =
     (case Option.bind (get_pit s pid) (\<lambda>e. findEffectiveStrategy_pit e s) of
        None \<Rightarrow> (Some NullDereference, s)
      | Some sc \<Rightarrow> trigger sc s)"

section \<open>Interests\<close>

definition onInterestLoop :: "interest \<Rightarrow> face \<Rightarrow> fwd \<Rightarrow> fwd" where
  "onInterestLoop interest ingress s =
     (if f_linkType ingress \<noteq> POINT_TO_POINT then s
      else emit (SendNack ingress \<lparr>n_interest = interest, n_reason = DUPLICATE\<rparr>) s)"

definition lastExpiring :: "pit_entry \<Rightarrow> int" where
  "lastExpiring e = (case pe_in e of [] \<Rightarrow> 0 | r # rs \<Rightarrow> fold (\<lambda>x m. max m (fr_expiry x)) rs (fr_expiry r))"

text \<open>
  The Interest object of a PIT entry that was created for the packet is the packet
  itself, so the default hop limit is also set in the entry.
\<close>

definition attach_hopLimit :: "bool \<Rightarrow> nat \<Rightarrow> interest \<Rightarrow> fwd \<Rightarrow> interest \<times> fwd" where
  "attach_hopLimit isNew pid interest s =
     (if fw_defaultHopLimit s > 0 \<and> i_hopLimit interest = None
      then (let interest' = interest\<lparr>i_hopLimit := Some (fw_defaultHopLimit s)\<rparr>
            in (interest', if isNew
                           then update_pit pid (\<lambda>e. e\<lparr>pe_interest := (pe_interest e)\<lparr>i_hopLimit := i_hopLimit interest'\<rparr>\<rparr>) s
                           else s))
      else (interest, s))"

definition onContentStoreMiss :: "env \<Rightarrow> bool \<Rightarrow> interest \<Rightarrow> face \<Rightarrow> nat \<Rightarrow> fwd \<Rightarrow> (fault, fwd) outcome" where
  "onContentStoreMiss E isNew interest0 ingress pid s0 =
     (let s1 = bump (\<lambda>c. c\<lparr>nCsMisses := nCsMisses c + 1\<rparr>) s0;
          (interest, s2) = attach_hopLimit isNew pid interest0 s1;
          s3 = update_pit pid (insertOrUpdateInRecord (en_now E) ingress interest) s2;
          lastExpiryFromNow = (case get_pit s3 pid of None \<Rightarrow> 0 | Some e \<Rightarrow> lastExpiring e - en_now E);
          s4 = setExpiryTimer E pid (lastExpiryFromNow div 1000000) s3
      in case i_nextHopFaceId interest of
           Some nextHopTag \<Rightarrow>
             (case FaceTable_get nextHopTag s4 of
                None \<Rightarrow> ok s4
              | Some nextHopFace \<Rightarrow> ok (snd (onOutgoingInterest E interest nextHopFace pid s4)))
         | None \<Rightarrow> with_strategy pid (\<lambda>sc. afterReceiveInterest E sc interest ingress pid) s4)"

definition onContentStoreHit :: "env \<Rightarrow> interest \<Rightarrow> face \<Rightarrow> nat \<Rightarrow> data \<Rightarrow> fwd \<Rightarrow> (fault, fwd) outcome" where
  "onContentStoreHit E interest ingress pid d0 s0 =
     (let s1 = bump (\<lambda>c. c\<lparr>nCsHits := nCsHits c + 1\<rparr>) s0;
          d = d0\<lparr>d_pitToken := i_pitToken interest\<rparr>;
          s2 = update_pit pid (\<lambda>e. e\<lparr>pe_satisfied := True, pe_dataFreshness := d_freshness d\<rparr>) s1;
          s3 = setExpiryTimer E pid 0 s2
      in with_strategy pid (\<lambda>sc. afterContentStoreHit d ingress pid) s3)"

text \<open>What follows the PIT insertion: duplicate nonces in the entry, and the Content Store lookup.\<close>

definition hasDuplicateNonceInPit :: "pit_entry \<Rightarrow> interest \<Rightarrow> face \<Rightarrow> bool" where
  "hasDuplicateNonceInPit e interest ingress =
     (let dnw = findDuplicateNonce e (i_nonce interest) ingress;
          hasDuplicate = (dn_inSame dnw \<or> dn_inOther dnw \<or> dn_outSame dnw \<or> dn_outOther dnw)
      in if f_linkType ingress = POINT_TO_POINT then hasDuplicate \<and> \<not> dn_inSame dnw else hasDuplicate)"

definition processPitEntry :: "env \<Rightarrow> bool \<Rightarrow> interest \<Rightarrow> face \<Rightarrow> nat \<Rightarrow> pit_entry \<Rightarrow> fwd \<Rightarrow> (fault, fwd) outcome" where
  "processPitEntry E isNew interest ingress pid e s =
     (if hasDuplicateNonceInPit e interest ingress then ok (onInterestLoop interest ingress s)
      else if pe_in e = []
      then (let (match, cs') = Cs_find (en_now E) interest (fw_cs s); s1 = s\<lparr>fw_cs := cs'\<rparr> in
            case match of
              Some d \<Rightarrow> onContentStoreHit E interest ingress pid d s1
            | None \<Rightarrow> onContentStoreMiss E isNew interest ingress pid s1)
      else onContentStoreMiss E isNew interest ingress pid s)"

definition onIncomingInterest :: "env \<Rightarrow> interest \<Rightarrow> face \<Rightarrow> fwd \<Rightarrow> (fault, fwd) outcome" where
  "onIncomingInterest E interest0 ingress s0 =
     (let s1 = bump (\<lambda>c. c\<lparr>nInInterests := nInInterests c + 1\<rparr>) s0 in
      if i_hopLimit interest0 = Some 0 then ok s1
      else (let interest1 = interest0\<lparr>i_hopLimit := map_option (\<lambda>h. h - 1) (i_hopLimit interest0)\<rparr> in
        if f_scope ingress = SCOPE_NON_LOCAL \<and> isPrefixOf LOCALHOST (i_name interest1) then ok s1
        else if dnl_has (en_hash E) (i_name interest1) (i_nonce interest1) (fw_dnl s1)
        then ok (onInterestLoop interest1 ingress s1)
        else (let interest = (if i_hint interest1 \<noteq> [] \<and> isInProducerRegion (fw_regions s1) (i_hint interest1)
                              then interest1\<lparr>i_hint := []\<rparr> else interest1)
              in case Pit_insert interest s1 of
                   (None, isNew, s2) \<Rightarrow> ok s2
                 | (Some pid, isNew, s2) \<Rightarrow>
                    (case get_pit s2 pid of
                       None \<Rightarrow> ok s2
                     | Some e \<Rightarrow> processPitEntry E isNew interest ingress pid e s2))))"

definition onInterestFinalize :: "env \<Rightarrow> nat \<Rightarrow> fwd \<Rightarrow> fwd" where
  "onInterestFinalize E pid s =
     (case get_pit s pid of
        None \<Rightarrow> s
      | Some e \<Rightarrow>
         (let s1 = insertDeadNonceList E e None s;
              s2 = bump (if pe_satisfied e then (\<lambda>c. c\<lparr>nSatisfiedInterests := nSatisfiedInterests c + 1\<rparr>)
                         else (\<lambda>c. c\<lparr>nUnsatisfiedInterests := nUnsatisfiedInterests c + 1\<rparr>)) s1
          in Pit_erase pid True s2))"

section \<open>Data\<close>

definition onDataUnsolicited :: "env \<Rightarrow> data \<Rightarrow> face \<Rightarrow> fwd \<Rightarrow> fwd" where
  "onDataUnsolicited E d ingress s =
     bump (\<lambda>c. c\<lparr>nUnsolicitedData := nUnsolicitedData c + 1\<rparr>)
       (if decide_unsolicited (fw_policy s) ingress then s\<lparr>fw_cs := Cs_insert (en_now E) d True (fw_cs s)\<rparr> else s)"

text \<open>What is done with an entry after its strategy was told: satisfied, nonce dead, out-record gone.\<close>

definition mark_satisfied :: "env \<Rightarrow> data \<Rightarrow> face \<Rightarrow> nat \<Rightarrow> fwd \<Rightarrow> fwd" where
  "mark_satisfied E d ingress pid s =
     (let s1 = update_pit pid (\<lambda>e. e\<lparr>pe_satisfied := True, pe_dataFreshness := d_freshness d\<rparr>) s
      in case get_pit s1 pid of None \<Rightarrow> s1 | Some e \<Rightarrow> insertDeadNonceList E e (Some ingress) s1)"

fun satisfy_all :: "env \<Rightarrow> data \<Rightarrow> face \<Rightarrow> nat list \<Rightarrow> face list \<Rightarrow> fwd \<Rightarrow> face list \<times> (fault, fwd) outcome" where
  "satisfy_all E d ingress [] pending s = (pending, ok s)"
| "satisfy_all E d ingress (pid # pids) pending s =
     (let pending' = (case get_pit s pid of
                        None \<Rightarrow> pending
                      | Some e \<Rightarrow> pending @ map fr_face (filter (\<lambda>r. fr_expiry r > en_now E) (pe_in e)));
          s1 = setExpiryTimer E pid 0 s
      in case with_strategy pid (\<lambda>sc. beforeSatisfyInterest E sc d ingress pid) s1 of
           (Some err, s2) \<Rightarrow> (pending', (Some err, s2))
         | (None, s2) \<Rightarrow>
             satisfy_all E d ingress pids pending'
               (update_pit pid (\<lambda>e. deleteOutRecord ingress (clearInRecords e)) (mark_satisfied E d ingress pid s2)))"

definition onIncomingData :: "env \<Rightarrow> data \<Rightarrow> face \<Rightarrow> fwd \<Rightarrow> (fault, fwd) outcome" where
  "onIncomingData E d ingress s0 =
     (let s1 = bump (\<lambda>c. c\<lparr>nInData := nInData c + 1\<rparr>) s0 in
      if f_scope ingress = SCOPE_NON_LOCAL \<and> isPrefixOf LOCALHOST (d_name d) then ok s1
      else case Pit_findAllDataMatches d s1 of
             [] \<Rightarrow> ok (onDataUnsolicited E d ingress s1)
           | [pid] \<Rightarrow>
              (let s2 = s1\<lparr>fw_cs := Cs_insert (en_now E) d False (fw_cs s1)\<rparr>;
                   s3 = setExpiryTimer E pid 0 s2
               in and_then (with_strategy pid (\<lambda>sc. afterReceiveData E sc d ingress pid) s3) (\<lambda>s4.
                    ok (update_pit pid (deleteOutRecord ingress) (mark_satisfied E d ingress pid s4))))
           | pids \<Rightarrow>
              (let s2 = s1\<lparr>fw_cs := Cs_insert (en_now E) d False (fw_cs s1)\<rparr>;
                   (pending, r) = satisfy_all E d ingress pids [] s2
               in and_then r (\<lambda>s3.
                    ok (fold (\<lambda>face s. if f_id face = f_id ingress \<and> f_linkType face \<noteq> AD_HOC then s
                                       else snd (onOutgoingData d face s)) (remdups pending) s3))))"

section \<open>Nacks\<close>

definition onIncomingNack :: "env \<Rightarrow> nack \<Rightarrow> face \<Rightarrow> fwd \<Rightarrow> (fault, fwd) outcome" where
  "onIncomingNack E nack ingress s0 =
     (let s1 = bump (\<lambda>c. c\<lparr>nInNacks := nInNacks c + 1\<rparr>) s0 in
      if f_linkType ingress \<noteq> POINT_TO_POINT then ok s1
      else case Pit_find (n_interest nack) s1 of
             None \<Rightarrow> ok s1
           | Some pid \<Rightarrow>
              (case out_record_of pid ingress s1 of
                 None \<Rightarrow> ok s1
               | Some outRecord \<Rightarrow>
                   if i_nonce (n_interest nack) \<noteq> fr_lastNonce outRecord then ok s1
                   else (let s2 = update_pit pid (\<lambda>e. e\<lparr>pe_out := update_rec ingress
                                    (\<lambda>r. snd (setIncomingNack nack r)) (pe_out e)\<rparr>) s1
                         in and_then (with_strategy pid (\<lambda>sc. afterReceiveNack E sc ingress pid) s2) (\<lambda>s3.
                              ok (case get_pit s3 pid of
                                    None \<Rightarrow> s3
                                  | Some e \<Rightarrow> if \<not> hasPendingOutRecords (en_now E) e then setExpiryTimer E pid 0 s3 else s3)))))"

section \<open>New nexthops and faces\<close>

definition affectedEntries :: "name \<Rightarrow> fwd \<Rightarrow> name list" where
  "affectedEntries p s =
     partialEnumerate p
       (\<lambda>k nte. if nte_fib nte \<noteq> None \<and> length k > length p then (False, False) else (nte_pit nte \<noteq> [], True)) (tb_nt s)"

definition onNewNextHop :: "env \<Rightarrow> name \<Rightarrow> next_hop \<Rightarrow> fwd \<Rightarrow> (fault, fwd) outcome" where
  "onNewNextHop E p nextHop s =
     fold (\<lambda>pid r. and_then r (with_strategy pid (\<lambda>sc. afterNewNextHop E sc nextHop pid)))
       (concat (map (pit_at (tb_nt s)) (affectedEntries p s))) (ok s)"

text \<open>Adding a nexthop to the FIB raises the signal when it is new.\<close>

definition addRoute :: "env \<Rightarrow> name \<Rightarrow> face \<Rightarrow> nat \<Rightarrow> fwd \<Rightarrow> (fault, fwd) outcome" where
  "addRoute E p face cost s =
     (case Fib_addOrUpdateNextHop p face cost (fst (Fib_insert p s)) of
        (s1, None) \<Rightarrow> ok s1
      | (s1, Some (p1, nextHop)) \<Rightarrow> onNewNextHop E p1 nextHop s1)"

definition FaceTable_remove :: "nat \<Rightarrow> fwd \<Rightarrow> fwd" where
  "FaceTable_remove faceId s =
     (case tab_get (fw_faces s) faceId of
        None \<Rightarrow> s
      | Some face \<Rightarrow> (cleanupOnFaceRemoval face s)\<lparr>fw_faces := tab_del faceId (fw_faces s)\<rparr>)"

section \<open>Events\<close>

datatype event =
    IncomingInterest interest face
  | IncomingData data face
  | IncomingNack nack face
  | InterestFinalize nat
  | AddRoute name face nat
  | RemoveRoute name face
  | AddFace face
  | RemoveFace nat
  | SetStrategy name name
  | UnsetStrategy name
  | MeasurementsCleanup name
  | DnlMark_event
  | DnlAdjust_event
  | MoveStale name

text \<open>
  An event is one turn of the event loop.  The prefixes of routes are bounded by the depth of
  the name tree, and the default strategy cannot be unset, as the assertions of the tables
  require of their callers.
\<close>

fun fwd_step :: "env \<Rightarrow> event \<Rightarrow> fwd \<Rightarrow> (fault, fwd) outcome" where
  "fwd_step E (IncomingInterest i f) s = onIncomingInterest E i f s"
| "fwd_step E (IncomingData d f) s = onIncomingData E d f s"
| "fwd_step E (IncomingNack n f) s = onIncomingNack E n f s"
| "fwd_step E (InterestFinalize pid) s = ok (onInterestFinalize E pid s)"
| "fwd_step E (AddRoute p f c) s = (if length p \<le> getMaxDepth then addRoute E p f c s else ok s)"
| "fwd_step E (RemoveRoute p f) s = ok (fst (Fib_removeNextHop p f s))"
| "fwd_step E (AddFace f) s = ok (FaceTable_add f s)"
| "fwd_step E (RemoveFace i) s = ok (FaceTable_remove i s)"
| "fwd_step E (SetStrategy p n) s = ok (snd (StrategyChoice_insert (en_toInt E) (en_toRatio E) strategy_registry p n s))"
| "fwd_step E (UnsetStrategy p) s = ok (if p = [] then s else StrategyChoice_erase strategy_registry p s)"
| "fwd_step E (MeasurementsCleanup n) s = ok (if meas_at (tb_nt s) n = None then s else Measurements_cleanup n s)"
| "fwd_step E DnlMark_event s = ok (s\<lparr>fw_dnl := dnl_mark (fw_dnl s)\<rparr>)"
| "fwd_step E DnlAdjust_event s = ok (s\<lparr>fw_dnl := adjustCapacity (fw_dnl s)\<rparr>)"
| "fwd_step E (MoveStale n) s = ok (s\<lparr>fw_cs := Cs_moveStale n (fw_cs s)\<rparr>)"

section \<open>Runs\<close>

definition Forwarder_new :: "strategy \<Rightarrow> fwd" where
  "Forwarder_new bestRoute = setDefaultStrategy bestRoute
     \<lparr>tb_nt = [], tb_pits = [], tb_nextPit = 0, tb_fibItems = 0, tb_pitItems = 0, tb_measItems = 0, tb_scItems = 0,
      fw_faces = [], fw_lastFaceId = FACEID_RESERVED_MAX, fw_cs = Cs_new 10, fw_dnl = projr (DeadNonceList_new DEFAULT_LIFETIME), fw_regions = [],
      fw_policy = DropAll, fw_defaultHopLimit = 0,
      fw_counters = \<lparr>nInInterests = 0, nOutInterests = 0, nInData = 0, nOutData = 0, nInNacks = 0, nOutNacks = 0,
        nSatisfiedInterests = 0, nUnsatisfiedInterests = 0, nUnsolicitedData = 0, nCsHits = 0, nCsMisses = 0\<rparr>,
      fw_actions = []\<rparr>"

text \<open>
  The states the forwarder runs through, with the time of the last event.  The clock never
  goes back; a fault ends the run.
\<close>

inductive reachable :: "int \<Rightarrow> fwd \<Rightarrow> bool" where
  start: "reachable T (Forwarder_new bestRoute)"
| event: "reachable T s \<Longrightarrow> T \<le> en_now E \<Longrightarrow> fwd_step E ev s = (None, s') \<Longrightarrow> reachable (en_now E) s'"

end
