(* ===== verification/Strategy_Invariants.thy ===== *)
theory Strategy_Invariants
  imports Strategies
begin

text \<open>
  What the strategies keep.  A strategy changes the state of the forwarder through few
  actions only: it sends Interests and Nacks, rejects a pending Interest, stores strategy
  information in PIT records and measurements entries, and announces prefixes.  The locale
  lists these actions; a property kept by each of them is kept by every trigger of every
  strategy, with or without a fault.
\<close>

section \<open>Actions\<close>

text \<open>
  What the forwarder may send: no Interest with exhausted HopLimit to a non-local face, Data
  on valid faces only and none under /localhost to a non-local face, Nacks on
  point-to-point links only.
\<close>

fun action_ok :: "action \<Rightarrow> bool" where
  "action_ok (SendInterest f i) \<longleftrightarrow> \<not> (i_hopLimit i = Some 0 \<and> f_scope f = SCOPE_NON_LOCAL)"
| "action_ok (SendData f d) \<longleftrightarrow> f_id f \<noteq> INVALID_FACEID \<and> \<not> (f_scope f = SCOPE_NON_LOCAL \<and> isPrefixOf LOCALHOST (d_name d))"
| "action_ok (SendNack f n) \<longleftrightarrow> f_linkType f = POINT_TO_POINT"
| "action_ok _ \<longleftrightarrow> True"

text \<open>A change of the records of a PIT entry that neither creates nor prolongs an in-record.\<close>

definition record_change :: "(pit_entry \<Rightarrow> pit_entry) \<Rightarrow> bool" where
  "record_change g \<longleftrightarrow> (\<forall>e. pe_interest (g e) = pe_interest e \<and> pe_nte (g e) = pe_nte e \<and> pe_timer (g e) = pe_timer e \<and>
     (pit_entry_ok e \<longrightarrow> pit_entry_ok (g e)) \<and> fr_expiry ` set (pe_in (g e)) \<subseteq> fr_expiry ` set (pe_in e))"

lemma record_changeI:
  assumes "\<And>e. pe_interest (g e) = pe_interest e" and "\<And>e. pe_nte (g e) = pe_nte e" and "\<And>e. pe_timer (g e) = pe_timer e"
    and "\<And>e. pit_entry_ok e \<Longrightarrow> pit_entry_ok (g e)" and "\<And>e. set (pe_in (g e)) \<subseteq> set (pe_in e)"
  shows "record_change g"
  using assms unfolding record_change_def by (simp add: image_mono)

lemma set_update_info:
  "fr_expiry ` set (update_rec f (\<lambda>r. r\<lparr>fr_info := h (fr_info r)\<rparr>) rs) \<subseteq> fr_expiry ` set rs"
  by (induction rs) auto

lemma record_changes [simp]:
  "record_change (\<lambda>e. e\<lparr>pe_info := h (pe_info e)\<rparr>)"
  "record_change (\<lambda>e. e\<lparr>pe_out := update_rec f (\<lambda>r. r\<lparr>fr_info := k (fr_info r)\<rparr>) (pe_out e)\<rparr>)"
  "record_change (\<lambda>e. e\<lparr>pe_in := update_rec f (\<lambda>r. r\<lparr>fr_info := k (fr_info r)\<rparr>) (pe_in e)\<rparr>)"
  "record_change (insertOrUpdateOutRecord now f i)" "record_change (deleteInRecord f)" "record_change (deleteOutRecord f)"
  "record_change (\<lambda>e. e\<lparr>pe_satisfied := b, pe_dataFreshness := x\<rparr>)"
  "record_change (\<lambda>e. deleteOutRecord f (clearInRecords e))"
  "record_change (\<lambda>e. e\<lparr>pe_out := update_rec f (\<lambda>r. snd (setIncomingNack n r)) (pe_out e)\<rparr>)"
proof -
  show "record_change (\<lambda>e. e\<lparr>pe_in := update_rec f (\<lambda>r. r\<lparr>fr_info := k (fr_info r)\<rparr>) (pe_in e)\<rparr>)"
    by (simp add: record_change_def pit_entry_ok_def faces_update_rec set_update_info)
qed (rule record_changeI; simp add: pit_entry_ok_def faces_update_rec set_delete_rec deleteInRecord_def deleteOutRecord_def
    clearInRecords_def setIncomingNack_def faces_delete_rec insertOrUpdateOutRecord_def find_rec_None split: option.split)+

section \<open>The invariant of a strategy\<close>

locale strategy_invariant =
  fixes E :: env and I :: "fwd \<Rightarrow> bool"
  assumes inv_record: "I s \<Longrightarrow> record_change g \<Longrightarrow> I (update_pit pid g s)"
    and inv_bump: "I s \<Longrightarrow> I (bump c s)"
    and inv_emit: "I s \<Longrightarrow> action_ok a \<Longrightarrow> I (emit a s)"
    and inv_reject: "I s \<Longrightarrow> I (setExpiryTimer E pid 0 s)"
    and inv_accessor_get: "I s \<Longrightarrow> I (snd (accessor_get now sp n s))"
    and inv_meas_info: "I s \<Longrightarrow> I (update_meas k (\<lambda>m. m\<lparr>me_info := h m\<rparr>) s)"
    and inv_extendLifetime: "I s \<Longrightarrow> I (extendLifetime now k d s)"
begin

lemma inv_outgoing_interest: "I s \<Longrightarrow> I (snd (onOutgoingInterest E i f pid s))"
  by (auto simp: onOutgoingInterest_def intro!: inv_bump inv_emit inv_record)

lemma inv_outgoing_nack: "I s \<Longrightarrow> I (snd (onOutgoingNack reason f pid s))"
  by (auto simp: onOutgoingNack_def intro!: inv_bump inv_emit inv_record split: option.split)

lemma inv_pit_info: "I s \<Longrightarrow> I (update_pit pid (\<lambda>e. e\<lparr>pe_info := g (pe_info e)\<rparr>) s)"
  by (rule inv_record) simp_all

lemma inv_out_info: "I s \<Longrightarrow> I (update_out_info pid f g s)"
  unfolding update_out_info_def by (rule inv_record) simp_all

lemma inv_in_info: "I s \<Longrightarrow> I (update_in_info pid f g s)"
  unfolding update_in_info_def by (rule inv_record) simp_all

lemma inv_announce: "I s \<Longrightarrow> I (emit (SlAnnounce pa fid d) s)"
  by (rule inv_emit) simp_all

lemma inv_renew: "I s \<Longrightarrow> I (emit (SlRenew n fid d) s)"
  by (rule inv_emit) simp_all

lemma sendInterest_inv: "I s \<Longrightarrow> I (snd (sendInterest E i f pid s))"
  by (simp add: sendInterest_def inv_outgoing_interest)

lemma sendNack_inv: "I s \<Longrightarrow> I (sendNack reason f pid s)"
  by (simp add: sendNack_def inv_outgoing_nack)

lemma sendNacks_inv: "I s \<Longrightarrow> I (sendNacks reason pid s)"
  unfolding sendNacks_def by (cases "get_pit s pid") (simp_all add: fold_inv [where P = I] sendNack_inv)

lemma nack_and_reject_inv: "I s \<Longrightarrow> I (nack_and_reject E f pid s)"
  by (simp add: nack_and_reject_def rejectPendingInterest_def inv_reject sendNack_inv)

subsection \<open>Best-route, multicast, random\<close>

lemma decidePerPitEntry_inv: "I s \<Longrightarrow> I (snd (decidePerPitEntry E st pid s))"
  by (auto simp: decidePerPitEntry_def Let_def split: option.split intro: inv_pit_info)

lemma decidePerUpstream_inv: "I s \<Longrightarrow> I (snd (decidePerUpstream E st pid f s))"
  by (auto simp: decidePerUpstream_def Let_def split: option.split intro: inv_out_info)

lemma best_route_inv:
  assumes "I s"
  shows "I (best_route_afterReceiveInterest E st i f pid s)"
proof -
  obtain r s1 where d: "decidePerPitEntry E st pid s = (r, s1)" by fastforce
  then have "I s1" using decidePerPitEntry_inv [OF assms, of st pid] by simp
  then show ?thesis
    by (simp add: best_route_afterReceiveInterest_def d sendInterest_inv nack_and_reject_inv Let_def split: option.split)
qed

lemma multicast_hop_inv:
  assumes "I s"
  shows "I (multicast_hop E st i f pid h s)"
proof -
  obtain r s1 where d: "decidePerUpstream E st pid (nh_face h) s = (r, s1)" by fastforce
  then have "I s1" using decidePerUpstream_inv [OF assms, of st pid "nh_face h"] by simp
  then have "I (snd (sendInterest E i (nh_face h) pid s1))" by (rule sendInterest_inv)
  then show ?thesis using \<open>I s1\<close>
    by (auto simp: multicast_hop_def d incrementIntervalForOutRecord_def Let_def intro: inv_out_info split: option.split prod.split)
qed

lemma multicast_inv: "I s \<Longrightarrow> I (multicast_afterReceiveInterest E st i f pid s)"
  by (simp add: multicast_afterReceiveInterest_def fold_inv [where P = I] multicast_hop_inv split: option.split)

lemma multicast_new_nexthop_inv: "I s \<Longrightarrow> I (multicast_afterNewNextHop E h pid s)"
  by (simp add: multicast_afterNewNextHop_def sendInterest_inv split: option.split)

lemma random_inv: "I s \<Longrightarrow> I (random_afterReceiveInterest E i f pid s)"
  by (simp add: random_afterReceiveInterest_def sendInterest_inv nack_and_reject_inv Let_def split: option.split)

lemma processNack_inv:
  assumes "I s" and "\<And>f r s. I s \<Longrightarrow> I (snd (one f r s))" and "\<And>r s. I s \<Longrightarrow> I (snd (all r s))"
  shows "I (snd (processNack one all pid s))"
  using assms by (simp add: processNack_def ok_def Let_def split: option.split prod.split)

lemma processNack_default_inv: "I s \<Longrightarrow> I (snd (processNack_default pid s))"
  unfolding processNack_default_def by (rule processNack_inv) (simp_all add: ok_def sendNack_inv sendNacks_inv)

subsection \<open>KITE\<close>

lemma outcome_inv: "I (snd r) \<Longrightarrow> (\<And>s. I s \<Longrightarrow> I (snd (f s))) \<Longrightarrow> I (snd (and_then r f))"
  by (cases r) (auto simp: and_then_def split: option.split)

lemma kite_straight_inv: "I s \<Longrightarrow> I (snd (snd (kite_straight E i f pid hint mp hs found s)))"
proof (induction hs arbitrary: found s)
  case (Cons h hs)
  let ?st = "set_status (\<lambda>k. k\<lparr>kis_stage := STRAIGHT_FORWARD, kis_mpName := mp\<rparr>)"
  have "I (snd (snd (case sendInterest E i (nh_face h) pid s1 of
      (sent, s2) \<Rightarrow> if \<not> sent then (True, (Some NullDereference, s2))
        else kite_straight E i f pid hint mp hs True (update_out_info pid (nh_face h) ?st s2))))" if "I s1" for s1
    using sendInterest_inv [OF that, of i "nh_face h" pid] Cons.IH
    by (cases "sendInterest E i (nh_face h) pid s1") (auto simp: inv_out_info)
  then show ?case
    using Cons.prems Cons.IH by (simp add: Let_def inv_in_info split: option.split)
qed (simp add: ok_def)

lemma kite_flood_inv: "I s \<Longrightarrow> I (snd (kite_flood E i f pid hs found s))"
  by (induction hs arbitrary: found s) (simp_all add: sendInterest_inv split: option.split)

lemma accessor_inv: "accessor_get now sp n s = (r, s') \<Longrightarrow> I s \<Longrightarrow> I s'"
  using inv_accessor_get by (metis snd_conv)

lemma remember_pending_inv: "I s \<Longrightarrow> I (snd (remember_pending E sp mp i pid s))"
  by (auto simp: remember_pending_def ok_def Let_def intro: inv_meas_info accessor_inv split: option.split prod.split)

lemma kite_interest_inv:
  assumes "I s"
  shows "I (snd (kite_afterReceiveInterest E sp i f pid s))"
proof (cases "get_pit s pid")
  case (Some e)
  let ?fib = "lookupFib e s" and ?hint = "kiteHint (i_hint i)"
  define s1 where "s1 = (if fe_nextHops ?fib = [] then nack_and_reject E f pid s else s)"
  have s1: "I s1" using assms by (simp add: s1_def nack_and_reject_inv)
  obtain found r where st: "kite_straight E i f pid ?hint (fe_prefix ?fib) (fe_nextHops ?fib) False s = (found, r)"
    by (rule prod.exhaust)
  have r: "I (snd r)" using kite_straight_inv [OF assms, of i f pid ?hint "fe_prefix ?fib" "fe_nextHops ?fib" False] st by simp
  have flood: "I s' \<Longrightarrow> I (snd (let (found', s2) = kite_flood E i f pid hs False s'
      in ok (if \<not> found' then nack_and_reject E f pid s2 else s2)))" for hs s'
    using kite_flood_inv [of s' i f pid hs False] by (auto simp: ok_def nack_and_reject_inv split: prod.split)
  show ?thesis
  proof (cases "?hint = []")
    case True
    then show ?thesis
      using flood [OF s1, of "fe_nextHops ?fib"] by (simp add: kite_afterReceiveInterest_def Some Let_def s1_def)
  next
    case False
    have "I (snd (and_then r (\<lambda>s1. if \<not> found then
        (let (found', s2) = kite_flood E i f pid (fe_nextHops (lookupFib_name ?hint s1)) False s1
         in ok (if \<not> found' then nack_and_reject E f pid s2 else s2))
        else remember_pending E sp (fe_prefix ?fib) i pid s1)))"
      using r flood remember_pending_inv by (intro outcome_inv) auto
    then show ?thesis using False by (simp add: kite_afterReceiveInterest_def Some st Let_def)
  qed
qed (simp add: kite_afterReceiveInterest_def assms ok_def)

lemma mp_info_inv:
  assumes "I s"
  shows "I (update_meas k (\<lambda>m. case mp_info (me_info m) of None \<Rightarrow> m | Some p \<Rightarrow> m\<lparr>me_info := h m p\<rparr>) s)"
proof -
  have "(\<lambda>m. case mp_info (me_info m) of None \<Rightarrow> m | Some p \<Rightarrow> m\<lparr>me_info := h m p\<rparr>) =
      (\<lambda>m. m\<lparr>me_info := (case mp_info (me_info m) of None \<Rightarrow> me_info m | Some p \<Rightarrow> h m p)\<rparr>)"
    by (rule ext) (auto split: option.split)
  then show ?thesis using inv_meas_info [OF assms] by simp
qed

lemma eraseMeasurement_inv: "I s \<Longrightarrow> I (snd (eraseMeasurement E sp r n s))"
  by (auto simp: eraseMeasurement_def ok_def Let_def intro: mp_info_inv accessor_inv split: option.split prod.split)

lemma removePrefix_inv: "I s \<Longrightarrow> I (snd (removePrefix E sp n fid s))"
  using inv_renew [of s n fid 0]
  by (auto simp: removePrefix_def ok_def Let_def intro: mp_info_inv accessor_inv split: option.split prod.split)

lemma resend_pending_inv: "I s \<Longrightarrow> I (resend_pending E f items s)"
  unfolding resend_pending_def by (rule fold_inv [where P = I]) (auto simp: sendInterest_inv split: option.split)

lemma regist_loop_inv: "I s \<Longrightarrow> I (regist_loop E sp pa rs s)"
proof (induction rs arbitrary: s)
  case (Cons r rs)
  let ?s1 = "emit (SlAnnounce pa (f_id (fr_face r)) 300000) s"
  obtain entry s2 where g: "accessor_get (en_now E) sp (pa_name pa) ?s1 = (entry, s2)" by (rule prod.exhaust)
  have "I s2" using accessor_inv [OF g] inv_announce [OF Cons.prems] by blast
  then show ?case
    using Cons by (simp add: g Let_def inv_extendLifetime inv_meas_info resend_pending_inv split: option.split)
qed simp

lemma kite_satisfy_inv: "I s \<Longrightarrow> I (snd (kite_beforeSatisfyInterest E sp d f pid s))"
  by (simp add: kite_beforeSatisfyInterest_def registPrefix_def ok_def regist_loop_inv eraseMeasurement_inv
      split: option.split sum.split)

lemma deal_loop_inv: "I s \<Longrightarrow> I (snd (deal_loop E pid hs found s))"
  by (induction hs arbitrary: found s) (simp_all add: sendInterest_inv split: option.split)

lemma dealNack_inv: "I s \<Longrightarrow> I (snd (dealNack E f pid s))"
  by (simp add: dealNack_def Let_def deal_loop_inv inv_in_info split: option.split)

lemma deal_any_inv: "I s \<Longrightarrow> I (snd (deal_any E pid fs s))"
proof (induction fs arbitrary: s)
  case (Cons f fs)
  then show ?case using dealNack_inv [OF Cons.prems, of f pid] by (auto split: prod.split)
qed simp

lemma kite_sendNack_inv:
  assumes "I s"
  shows "I (snd (kite_sendNackForTraits E sp pid f reason s))"
  using dealNack_inv [OF assms, of f pid] assms
  by (auto simp: kite_sendNackForTraits_def ok_def Let_def sendNack_inv eraseMeasurement_inv split: option.split prod.split)

lemma kite_sendNacks_inv:
  assumes "I s"
  shows "I (snd (kite_sendNacksForTraits E sp pid reason s))"
proof (cases "get_pit s pid")
  case (Some e)
  obtain dealt s1 where d: "deal_any E pid (map fr_face (pe_in e)) s = (dealt, s1)" by (rule prod.exhaust)
  have "I s1" using deal_any_inv [OF assms, of pid "map fr_face (pe_in e)"] d by simp
  then show ?thesis
    by (simp add: kite_sendNacksForTraits_def Some d ok_def Let_def sendNacks_inv eraseMeasurement_inv split: option.split)
qed (simp add: kite_sendNacksForTraits_def assms ok_def)

lemma kite_nack_inv:
  assumes "I s"
  shows "I (snd (kite_afterReceiveNack E sp f pid s))"
  unfolding kite_afterReceiveNack_def Let_def
proof (rule outcome_inv, goal_cases)
  case 1
  then show ?case using assms by (simp add: ok_def removePrefix_inv split: option.split)
next
  case (2 s)
  then show ?case by (rule processNack_inv) (simp_all add: kite_sendNack_inv kite_sendNacks_inv)
qed

end

end
