(* ===== verification/Forwarder_Invariants.thy ===== *)
theory Forwarder_Invariants
  imports Forwarder Strategy_Invariants
begin

text \<open>
  What the forwarding pipelines keep.  The locale extends that of the strategies by the
  table operations the pipelines use.  While an Interest is being recorded, its PIT entry
  may not have an expiry timer yet: \<^term>\<open>J pid\<close> is the invariant weakened for that entry.
  A property that satisfies the laws holds after every event; the interpretations give
  the well-formedness of the tables, the safety of what is sent, and the expiry of every
  pending Interest.
\<close>

section \<open>Inserting into the PIT\<close>

lemma Pit_insert_present:
  obtains pid isNew s' e where "Pit_insert i s = (Some pid, isNew, s')" and "get_pit s' pid = Some e"
    and "isNew \<Longrightarrow> pe_in e = [] \<and> pe_out e = []"
proof -
  let ?d = "nteDepth (i_name i)"
  let ?k = "take ?d (i_name i)" and ?tb = "s\<lparr>tb_nt := nt_lookup (i_name i) ?d (tb_nt s)\<rparr>"
  show thesis
  proof (cases "find_matching i ?d (pit_at (tb_nt ?tb) ?k) ?tb")
    case None
    let ?pid = "tb_nextPit ?tb" and ?e = "(PitEntry_new i)\<lparr>pe_nte := Some ?k\<rparr>"
    show thesis
      by (rule that [of ?pid True "snd (snd (Pit_insert i s))" ?e]) (use None in \<open>simp_all add: Pit_findOrInsert_def Let_def PitEntry_new_def\<close>)
  next
    case (Some pid)
    then have "\<exists>e. get_pit ?tb pid = Some e"
      by (auto simp: find_matching_def find_Some_iff split: option.splits)
    then obtain e where "get_pit ?tb pid = Some e" by blast
    then show thesis
      by (intro that [of pid False ?tb e]) (use Some in \<open>simp_all add: Pit_findOrInsert_def Let_def\<close>)
  qed
qed

lemma in_record_nonempty: "pe_in (insertOrUpdateInRecord now f i e) \<noteq> []"
proof -
  have "update_rec f g rs \<noteq> []" if "find_rec f rs \<noteq> None" for g and rs :: "in_record list"
    using that by (cases rs) auto
  then show ?thesis by (simp add: insertOrUpdateInRecord_def split: option.split)
qed

section \<open>The invariant of the pipelines\<close>

locale pipeline_invariant = strategy_invariant E I for E I +
  fixes J :: "nat \<Rightarrow> fwd \<Rightarrow> bool"
  assumes insert_old: "I s \<Longrightarrow> Pit_insert i s = (Some pid, False, s') \<Longrightarrow> I s'"
    and insert_any: "I s \<Longrightarrow> Pit_insert i s = (Some pid, isNew, s') \<Longrightarrow> J pid s'"
    and rec_bump: "J pid s \<Longrightarrow> J pid (bump c s)"
    and rec_record: "J pid s \<Longrightarrow> record_change g \<Longrightarrow> J pid (update_pit pid g s)"
    and rec_cs: "J pid s \<Longrightarrow> J pid (s\<lparr>fw_cs := snd (Cs_find now i (fw_cs s))\<rparr>)"
    and rec_hopLimit: "J pid s \<Longrightarrow> J pid (update_pit pid (\<lambda>e. e\<lparr>pe_interest := (pe_interest e)\<lparr>i_hopLimit := h\<rparr>\<rparr>) s)"
    and rec_in: "J pid s \<Longrightarrow> J pid (update_pit pid (insertOrUpdateInRecord (en_now E) f i) s)"
    and rec_timer: "J pid s \<Longrightarrow> get_pit s pid = Some e \<Longrightarrow> pe_in e \<noteq> [] \<Longrightarrow>
      I (setExpiryTimer E pid ((lastExpiring e - en_now E) div 1000000) s)"
    and rec_reject: "J pid s \<Longrightarrow> I (setExpiryTimer E pid 0 s)"
    and inv_cs_insert: "I s \<Longrightarrow> I (s\<lparr>fw_cs := Cs_insert (en_now E) d u (fw_cs s)\<rparr>)"
    and inv_cs_stale: "I s \<Longrightarrow> I (s\<lparr>fw_cs := Cs_moveStale n (fw_cs s)\<rparr>)"
    and inv_dnl_add: "I s \<Longrightarrow> I (s\<lparr>fw_dnl := dnl_add H n nonce (fw_dnl s)\<rparr>)"
    and inv_dnl_mark: "I s \<Longrightarrow> I (s\<lparr>fw_dnl := dnl_mark (fw_dnl s)\<rparr>)"
    and inv_dnl_adjust: "I s \<Longrightarrow> I (s\<lparr>fw_dnl := adjustCapacity (fw_dnl s)\<rparr>)"
    and inv_erase: "I s \<Longrightarrow> I (Pit_erase pid True s)"
    and inv_fib_insert: "I s \<Longrightarrow> length p \<le> getMaxDepth \<Longrightarrow> I (fst (Fib_insert p s))"
    and inv_fib_add: "I s \<Longrightarrow> I (fst (Fib_addOrUpdateNextHop p f cost s))"
    and inv_fib_remove: "I s \<Longrightarrow> I (fst (Fib_removeNextHop p f s))"
    and inv_face_add: "I s \<Longrightarrow> I (FaceTable_add f s)"
    and inv_face_remove: "I s \<Longrightarrow> I (FaceTable_remove fid s)"
    and inv_set_strategy: "I s \<Longrightarrow> I (snd (StrategyChoice_insert ti tr reg p n s))"
    and inv_unset_strategy: "I s \<Longrightarrow> p \<noteq> [] \<Longrightarrow> I (StrategyChoice_erase reg p s)"
    and inv_meas_cleanup: "I s \<Longrightarrow> meas_at (tb_nt s) n \<noteq> None \<Longrightarrow> I (Measurements_cleanup n s)"
begin

lemma with_strategy_inv:
  "I s \<Longrightarrow> (\<And>sc s. I s \<Longrightarrow> I (snd (trigger sc s))) \<Longrightarrow> I (snd (with_strategy pid trigger s))"
  by (simp add: with_strategy_def split: option.split)

lemma afterReceiveInterest_inv: "I s \<Longrightarrow> I (snd (afterReceiveInterest E sc i f pid s))"
  by (simp add: ok_def best_route_inv multicast_inv random_inv kite_interest_inv split: strategy_kind.split)

lemma beforeSatisfyInterest_inv: "I s \<Longrightarrow> I (snd (beforeSatisfyInterest E sc d f pid s))"
  by (simp add: ok_def kite_satisfy_inv)

lemma inv_outgoing_data: "I s \<Longrightarrow> I (snd (onOutgoingData d f s))"
  by (auto simp: onOutgoingData_def intro!: inv_bump inv_emit)

lemma sendData_inv: "I s \<Longrightarrow> I (snd (sendData d f pid s))"
  by (simp add: sendData_def Let_def inv_outgoing_data inv_record)

lemma sendDataToAll_inv: "I s \<Longrightarrow> I (sendDataToAll E d pid f s)"
  by (simp add: sendDataToAll_def fold_inv [where P = I] sendData_inv split: option.split)

lemma afterReceiveData_inv: "I s \<Longrightarrow> I (snd (afterReceiveData E sc d f pid s))"
  unfolding afterReceiveData_def
  by (rule outcome_inv) (simp_all add: beforeSatisfyInterest_inv sendDataToAll_inv ok_def del: beforeSatisfyInterest.simps)

lemma afterReceiveNack_inv: "I s \<Longrightarrow> I (snd (afterReceiveNack E sc f pid s))"
  by (simp add: ok_def processNack_default_inv kite_nack_inv split: strategy_kind.split)

lemma afterNewNextHop_inv: "I s \<Longrightarrow> I (snd (afterNewNextHop E sc h pid s))"
  by (simp add: ok_def multicast_new_nexthop_inv)

lemma dead_nonce_inv: "I s \<Longrightarrow> I (insertDeadNonceList E e u s)"
proof -
  assume s: "I s"
  have "I (s\<lparr>fw_dnl := fold (\<lambda>r. dnl_add (en_hash E) (pe_name e) (fr_lastNonce r)) rs (fw_dnl s)\<rparr>)" for rs :: "out_record list"
    using s
  proof (induction rs arbitrary: s)
    case (Cons r rs)
    from Cons.IH [OF inv_dnl_add [OF Cons.prems]] show ?case by simp
  qed simp
  then show ?thesis using s by (simp add: insertDeadNonceList_def inv_dnl_add split: option.split)
qed

subsection \<open>Interests\<close>

lemma onInterestLoop_inv: "I s \<Longrightarrow> I (onInterestLoop i f s)"
  by (simp add: onInterestLoop_def inv_emit)

lemma attach_rec: "J pid s \<Longrightarrow> J pid (snd (attach_hopLimit isNew pid i s))"
  by (simp add: attach_hopLimit_def Let_def rec_hopLimit)

lemma onContentStoreMiss_inv:
  assumes "J pid s"
  shows "I (snd (onContentStoreMiss E isNew i f pid s))"
proof -
  obtain i' s2 where a: "attach_hopLimit isNew pid i (bump (\<lambda>c. c\<lparr>nCsMisses := nCsMisses c + 1\<rparr>) s) = (i', s2)"
    by (rule prod.exhaust)
  have "J pid s2" using attach_rec [OF rec_bump [OF assms], of isNew i "\<lambda>c. c\<lparr>nCsMisses := nCsMisses c + 1\<rparr>"] a by simp
  then have s3: "J pid (update_pit pid (insertOrUpdateInRecord (en_now E) f i') s2)" by (rule rec_in)
  define s3 where "s3 = update_pit pid (insertOrUpdateInRecord (en_now E) f i') s2"
  define s4 where "s4 = setExpiryTimer E pid ((case get_pit s3 pid of None \<Rightarrow> 0 | Some e \<Rightarrow> lastExpiring e - en_now E) div 1000000) s3"
  have "pe_in e \<noteq> []" if "get_pit s3 pid = Some e" for e
    using that by (auto simp: s3_def in_record_nonempty)
  then have "I s4" using rec_timer rec_reject s3 by (simp add: s4_def s3_def [symmetric] split: option.split)
  then have "I (snd (case i_nextHopFaceId i' of
      Some t \<Rightarrow> (case FaceTable_get t s4 of None \<Rightarrow> ok s4 | Some g \<Rightarrow> ok (snd (onOutgoingInterest E i' g pid s4)))
    | None \<Rightarrow> with_strategy pid (\<lambda>sc. afterReceiveInterest E sc i' f pid) s4))"
    using with_strategy_inv afterReceiveInterest_inv
    by (simp add: ok_def inv_outgoing_interest del: afterReceiveInterest.simps split: option.split)
  then show ?thesis
    by (simp only: onContentStoreMiss_def a Let_def split s3_def [symmetric] s4_def [symmetric])
qed

lemma onContentStoreHit_inv: "J pid s \<Longrightarrow> I (snd (onContentStoreHit E i f pid d s))"
  unfolding onContentStoreHit_def Let_def
  by (rule with_strategy_inv) (simp_all add: rec_reject rec_record rec_bump afterContentStoreHit_def ok_def sendData_inv)

lemma no_duplicate_new: "pe_in e = [] \<Longrightarrow> pe_out e = [] \<Longrightarrow> \<not> hasDuplicateNonceInPit e i f"
  by (simp add: hasDuplicateNonceInPit_def findDuplicateNonce_def)

lemma processPitEntry_inv:
  assumes J: "J pid s" and old: "hasDuplicateNonceInPit e i f \<Longrightarrow> I s"
  shows "I (snd (processPitEntry E isNew i f pid e s))"
proof -
  obtain m cs' where cs: "Cs_find (en_now E) i (fw_cs s) = (m, cs')" by (rule prod.exhaust)
  have "J pid (s\<lparr>fw_cs := cs'\<rparr>)" using rec_cs [OF J, of "en_now E" i] cs by simp
  then show ?thesis
    using J old by (simp add: processPitEntry_def cs ok_def Let_def onInterestLoop_inv onContentStoreMiss_inv onContentStoreHit_inv
        split: option.split)
qed

lemma onIncomingInterest_inv:
  assumes "I s"
  shows "I (snd (onIncomingInterest E i f s))"
proof -
  have s1: "I (bump c s)" for c using assms by (rule inv_bump)
  have "I (snd (case Pit_insert i' s1 of
      (None, isNew, s2) \<Rightarrow> ok s2
    | (Some pid, isNew, s2) \<Rightarrow> (case get_pit s2 pid of None \<Rightarrow> ok s2 | Some e \<Rightarrow> processPitEntry E isNew i' f pid e s2)))"
    if "I s1" for i' s1
  proof -
    obtain pid isNew s2 e where ins: "Pit_insert i' s1 = (Some pid, isNew, s2)" and e: "get_pit s2 pid = Some e"
      and new: "isNew \<Longrightarrow> pe_in e = [] \<and> pe_out e = []" by (rule Pit_insert_present [where i = i' and s = s1]) blast
    have "I s2" if "hasDuplicateNonceInPit e i' f"
    proof -
      have "\<not> isNew" using that new no_duplicate_new by blast
      then show ?thesis using insert_old [OF \<open>I s1\<close>, of i' pid s2] ins by simp
    qed
    then show ?thesis using processPitEntry_inv [OF insert_any [OF \<open>I s1\<close> ins]] by (simp add: ins e)
  qed
  then show ?thesis
    using s1 onInterestLoop_inv by (simp add: onIncomingInterest_def ok_def Let_def)
qed

lemma onInterestFinalize_inv: "I s \<Longrightarrow> I (onInterestFinalize E pid s)"
  by (simp add: onInterestFinalize_def Let_def inv_erase inv_bump dead_nonce_inv split: option.split)

subsection \<open>Data and Nacks\<close>

lemma mark_satisfied_inv: "I s \<Longrightarrow> I (mark_satisfied E d f pid s)"
  by (simp add: mark_satisfied_def Let_def inv_record dead_nonce_inv split: option.split)

lemma onDataUnsolicited_inv: "I s \<Longrightarrow> I (onDataUnsolicited E d f s)"
  by (simp add: onDataUnsolicited_def inv_bump inv_cs_insert)

lemma satisfy_all_inv: "I s \<Longrightarrow> I (snd (snd (satisfy_all E d f pids pending s)))"
proof (induction pids arbitrary: pending s)
  case (Cons pid pids)
  obtain err s2 where w: "with_strategy pid (\<lambda>sc. beforeSatisfyInterest E sc d f pid) (setExpiryTimer E pid 0 s) = (err, s2)"
    by (rule prod.exhaust)
  have "I s2"
    using with_strategy_inv [OF inv_reject [OF Cons.prems, of pid], of "\<lambda>sc. beforeSatisfyInterest E sc d f pid" pid] w
      beforeSatisfyInterest_inv by (simp del: beforeSatisfyInterest.simps)
  then show ?case
    using Cons.IH by (cases err) (simp_all add: w Let_def inv_record mark_satisfied_inv del: beforeSatisfyInterest.simps)
qed (simp add: ok_def)

lemma onIncomingData_inv:
  assumes "I s"
  shows "I (snd (onIncomingData E d f s))"
proof -
  define s1 where "s1 = bump (\<lambda>c. c\<lparr>nInData := nInData c + 1\<rparr>) s"
  define s2 where "s2 = s1\<lparr>fw_cs := Cs_insert (en_now E) d False (fw_cs s1)\<rparr>"
  have s1: "I s1" using assms by (simp add: s1_def inv_bump)
  then have s2: "I s2" by (simp add: s2_def inv_cs_insert)
  have one: "I (snd (and_then (with_strategy pid (\<lambda>sc. afterReceiveData E sc d f pid) (setExpiryTimer E pid 0 s2)) (\<lambda>s4.
      ok (update_pit pid (deleteOutRecord f) (mark_satisfied E d f pid s4)))))" for pid
    using s2 with_strategy_inv [OF inv_reject afterReceiveData_inv]
    by (intro outcome_inv) (simp_all add: ok_def inv_record mark_satisfied_inv)
  have all: "I (snd (let (pending, r) = satisfy_all E d f pids [] s2 in and_then r (\<lambda>s3.
      ok (fold (\<lambda>g s. if f_id g = f_id f \<and> f_linkType g \<noteq> AD_HOC then s else snd (onOutgoingData d g s)) (remdups pending) s3))))" for pids
    using satisfy_all_inv [OF s2, of d f pids "[]"]
    by (auto simp: ok_def inv_outgoing_data intro!: outcome_inv fold_inv [where P = I] split: prod.split)
  show ?thesis
    using s1 one all onDataUnsolicited_inv [OF s1]
    by (simp only: onIncomingData_def Let_def s1_def [symmetric] s2_def [symmetric] ok_def split: list.split if_split) (auto simp: ok_def Let_def)
qed

lemma onIncomingNack_inv:
  assumes "I s"
  shows "I (snd (onIncomingNack E n f s))"
proof -
  define s1 where "s1 = bump (\<lambda>c. c\<lparr>nInNacks := nInNacks c + 1\<rparr>) s"
  have s1: "I s1" using assms by (simp add: s1_def inv_bump)
  have "I (snd (and_then (with_strategy pid (\<lambda>sc. afterReceiveNack E sc f pid)
      (update_pit pid (\<lambda>e. e\<lparr>pe_out := update_rec f (\<lambda>r. snd (setIncomingNack n r)) (pe_out e)\<rparr>) s1)) (\<lambda>s3.
      ok (case get_pit s3 pid of None \<Rightarrow> s3
          | Some e \<Rightarrow> if \<not> hasPendingOutRecords (en_now E) e then setExpiryTimer E pid 0 s3 else s3))))" for pid
    using s1 with_strategy_inv [OF inv_record afterReceiveNack_inv]
    by (intro outcome_inv) (simp_all add: ok_def inv_reject split: option.split del: afterReceiveNack.simps)
  then show ?thesis
    using s1 by (simp add: onIncomingNack_def Let_def s1_def [symmetric] ok_def del: afterReceiveNack.simps split: option.split)
qed

subsection \<open>All events\<close>

lemma onNewNextHop_inv: "I s \<Longrightarrow> I (snd (onNewNextHop E p h s))"
  unfolding onNewNextHop_def
  by (rule fold_inv [where P = "\<lambda>r. I (snd r)"])
     (auto simp: ok_def with_strategy_inv afterNewNextHop_inv simp del: afterNewNextHop.simps intro!: outcome_inv)

lemma addRoute_inv:
  assumes "I s" and "length p \<le> getMaxDepth"
  shows "I (snd (addRoute E p f c s))"
  using inv_fib_add [OF inv_fib_insert [OF assms], of p f c]
  by (auto simp: addRoute_def ok_def onNewNextHop_inv split: prod.split option.split)

theorem fwd_step_inv: "I s \<Longrightarrow> I (snd (fwd_step E ev s))"
  by (cases ev) (simp_all add: ok_def onIncomingInterest_inv onIncomingData_inv onIncomingNack_inv onInterestFinalize_inv
      addRoute_inv inv_fib_remove inv_face_add inv_face_remove inv_set_strategy inv_unset_strategy inv_meas_cleanup inv_dnl_mark inv_dnl_adjust inv_cs_stale)

end

section \<open>What is sent\<close>

definition actions_ok :: "fwd \<Rightarrow> bool" where
  "actions_ok s \<longleftrightarrow> list_all action_ok (fw_actions s)"

text \<open>Operations on the tables leave the rest of the state alone.\<close>

definition rest :: "fwd \<Rightarrow> action list \<times> cs \<times> dnl" where
  "rest s = (fw_actions s, fw_cs s, fw_dnl s)"

lemma rest_frame [simp]:
  "rest (update_pit pid g s) = rest s" "rest (bump c s) = rest s" "rest (setExpiryTimer E pid d s) = rest s"
  "rest (update_meas k h s) = rest s" "rest (extendLifetime now k d s) = rest s"
  "rest (snd (accessor_get now sp n s)) = rest s"
  "rest (snd (snd (Pit_findOrInsert i b s))) = rest s" "rest (Pit_erase pid b s) = rest s"
  "rest (fst (Fib_insert p s)) = rest s" "rest (fst (Fib_addOrUpdateNextHop p f cost s)) = rest s"
  "rest (fst (Fib_removeNextHop p f s)) = rest s" "rest (FaceTable_add f s) = rest s"
  "rest (Measurements_cleanup n s) = rest s"
  by (simp_all add: rest_def update_pit_def bump_def setExpiryTimer_def update_meas_def extendLifetime_def accessor_get_def
      Measurements_get_def Measurements_get_nte_def Pit_findOrInsert_def Pit_erase_def Fib_insert_def Fib_addOrUpdateNextHop_def
      Fib_removeNextHop_def Fib_erase_nte_def FaceTable_add_def FaceTable_addImpl_def Measurements_cleanup_def Let_def
      split: option.split prod.split)

lemma rest_cleanup [simp]: "rest (cleanupOnFaceRemoval f s) = rest s"
proof -
  have "rest (fst (fold (cleanup_node f) ks (s, []))) = rest s" for ks
  proof (rule fold_inv [where P = "\<lambda>st. rest (fst st) = rest s"])
    fix k and st :: "fwd \<times> name list"
    assume "rest (fst st) = rest s"
    moreover have "rest (fold (\<lambda>pid. Pit_deleteInOutRecords pid f) pids tb) = rest tb" for pids and tb :: fwd
      by (induction pids arbitrary: tb) (simp_all add: Pit_deleteInOutRecords_def)
    ultimately show "rest (fst (cleanup_node f k st)) = rest s"
      by (cases st) (simp add: cleanup_node_def Let_def split: option.split)
  qed simp
  from this [of "map fst (tb_nt s)"] show ?thesis
    by (cases "fold (cleanup_node f) (map fst (tb_nt s)) (s, [])") (simp add: cleanupOnFaceRemoval_def rest_def)
qed

lemma rest_faces [simp]: "rest (FaceTable_remove i s) = rest s"
  using rest_cleanup [of _ s] by (auto simp: FaceTable_remove_def rest_def split: option.split)

lemma rest_strategy [simp]:
  "rest (snd (StrategyChoice_insert ti tr reg p n s)) = rest s" "rest (StrategyChoice_erase reg p s) = rest s"
proof -
  have pits: "rest (fold (\<lambda>pid. update_pit pid clear_pit_info) pids tb) = rest tb" for pids and tb :: fwd
    by (induction pids arbitrary: tb) simp_all
  have clear: "rest (fold clearStrategyInfo ks tb) = rest tb" for ks and tb :: fwd
    by (induction ks arbitrary: tb) (simp_all add: clearStrategyInfo_def pits)
  then have change: "rest (changeStrategy reg p old new tb) = rest tb" for old new and tb :: fwd
    by (simp add: changeStrategy_def)
  then show "rest (snd (StrategyChoice_insert ti tr reg p n s)) = rest s"
    by (simp add: StrategyChoice_insert_def Let_def sc_setStrategy_def rest_def split: option.split sum.split)
  show "rest (StrategyChoice_erase reg p s) = rest s"
    using change by (simp add: StrategyChoice_erase_def Let_def rest_def split: option.split)
qed

lemma rest_emit [simp]: "rest (emit a s) = (fw_actions s @ [a], fw_cs s, fw_dnl s)"
  by (simp add: rest_def emit_def)

end
