(* ===== verification/Forwarder_Safety.thy ===== *)
theory Forwarder_Safety
  imports Forwarder_Invariants
begin

text \<open>
  The interpretations of the pipeline invariant on the forwarder: what is sent is
  admissible, the tables stay well-formed, and every PIT entry has an expiry timer.
\<close>

section \<open>What is sent\<close>

lemma actions_ok_rest: "actions_ok s \<longleftrightarrow> list_all action_ok (fst (rest s))"
  by (simp add: actions_ok_def rest_def)

lemma rest_insert: "Pit_insert i s = (r, isNew, s') \<Longrightarrow> rest s' = rest s"
  using rest_frame(7) [of i True s] by simp

interpretation sent: pipeline_invariant E actions_ok "\<lambda>_. actions_ok" for E
  by unfold_locales (simp_all add: actions_ok_rest rest_insert, simp_all add: rest_def)

section \<open>Tables\<close>

definition tables_inv :: "fwd \<Rightarrow> bool" where
  "tables_inv s \<longleftrightarrow> tables_ok s \<and> cs_ok (fst (snd (rest s))) \<and> dnl_ok (snd (snd (rest s)))"

text \<open>A change of the measurements entries of the tree.\<close>

lemma tables_ok_meas:
  assumes "tables_ok tb" and "meas_ok tb'" and "pit_at (tb_nt tb') = pit_at (tb_nt tb)"
    and "fib_at (tb_nt tb') = fib_at (tb_nt tb)" and "sc_at (tb_nt tb') = sc_at (tb_nt tb)"
    and "tb_pits tb' = tb_pits tb" and "tb_nextPit tb' = tb_nextPit tb" and "tb_scItems tb' = tb_scItems tb"
  shows "tables_ok tb'"
proof -
  have nt: "nt_ok (tb_nt tb')" using assms(2) by (simp add: meas_ok_def)
  have "pit_ok (tb\<lparr>tb_nt := tb_nt tb'\<rparr>)" using assms nt by (intro pit_ok_nt) (simp_all add: tables_ok_def)
  then have "pit_ok tb'" using assms by (simp add: pit_ok_def get_pit_def)
  then show ?thesis
    using assms nt by (simp add: tables_ok_def fib_ok_def sc_ok_def sc_names_def)
qed

lemma meas_tables_ok:
  fixes tb :: "'a tables_scheme"
  assumes ok: "tables_ok tb"
  shows "tables_ok (snd (accessor_get now sp n tb))"
    and "(\<And>m. me_name (h m) = me_name m) \<Longrightarrow> tables_ok (update_meas k h tb)"
    and "tables_ok (extendLifetime now k d tb)"
    and "meas_at (tb_nt tb) k \<noteq> None \<Longrightarrow> tables_ok (Measurements_cleanup k tb)"
proof -
  have meas: "meas_ok tb" using ok by (simp add: tables_ok_def)
  then have nt: "nt_ok (tb_nt tb)" by (simp add: meas_ok_def)
  obtain j tb' where g: "Measurements_get now n tb = (j, tb')" by (rule prod.exhaust)
  have g': "pit_at (tb_nt tb') = pit_at (tb_nt tb)" "fib_at (tb_nt tb') = fib_at (tb_nt tb)" "sc_at (tb_nt tb') = sc_at (tb_nt tb)"
    "tb_pits tb' = tb_pits tb" "tb_nextPit tb' = tb_nextPit tb" "tb_scItems tb' = tb_scItems tb"
    using g by (auto simp: Measurements_get_def Measurements_get_nte_def Let_def fun_eq_iff split: option.splits)
  show "tables_ok (snd (accessor_get now sp n tb))"
    using tables_ok_meas [OF ok Measurements_get_ok(2) [OF meas g] g'] by (simp add: accessor_get_def g)
  show "tables_ok (update_meas k h tb)" if "\<And>m. me_name (h m) = me_name m"
    by (rule tables_ok_meas [OF ok update_meas_ok(1) [OF meas that]]) simp_all
  show "tables_ok (extendLifetime now k d tb)"
    by (rule tables_ok_meas [OF ok extendLifetime_ok(1) [OF meas]])
       (simp_all add: extendLifetime_def Let_def fun_eq_iff split: option.split)
  show "tables_ok (Measurements_cleanup k tb)" if "meas_at (tb_nt tb) k \<noteq> None"
    by (rule tables_ok_meas [OF ok cleanup_ok(1) [OF meas that]])
       (simp_all add: Measurements_cleanup_def fun_eq_iff nt)
qed

lemma Pit_erase_tables_ok:
  assumes ok: "tables_ok tb"
  shows "tables_ok (Pit_erase pid c tb)"
proof (cases "get_pit tb pid")
  case (Some e)
  have pit: "pit_ok tb" using ok by (simp add: tables_ok_def)
  obtain t' where t': "fib_at t' = fib_at (tb_nt tb)" "meas_at t' = meas_at (tb_nt tb)" "sc_at t' = sc_at (tb_nt tb)"
    "Pit_erase pid c tb = tb\<lparr>tb_nt := t', tb_pits := tab_del pid (tb_pits tb), tb_pitItems := tb_pitItems tb - 1\<rparr>"
    using Pit_erase_eq [OF pit Some, of c] by blast
  have p': "pit_ok (Pit_erase pid c tb)" by (rule Pit_erase_ok(1) [OF pit])
  then have "nt_ok (tb_nt (Pit_erase pid c tb))" by (rule pit_okD(1))
  then show ?thesis
    using ok p' t' by (simp add: tables_ok_def fib_ok_def meas_ok_def sc_ok_def meas_names_def sc_names_def)
qed (simp add: Pit_erase_def ok)

lemma record_tables_ok: "tables_ok tb \<Longrightarrow> record_change g \<Longrightarrow> tables_ok (update_pit pid g tb)"
  by (rule update_pit_tables_ok) (simp_all add: record_change_def)

lemma hopLimit_tables_ok:
  assumes "tables_ok tb"
  shows "tables_ok (update_pit pid (\<lambda>e. e\<lparr>pe_interest := (pe_interest e)\<lparr>i_hopLimit := h\<rparr>\<rparr>) tb)"
proof -
  have "pit_ok (update_pit pid (\<lambda>e. e\<lparr>pe_interest := (pe_interest e)\<lparr>i_hopLimit := h\<rparr>\<rparr>) tb)"
    using assms by (intro pit_ok_update_match) (simp_all add: tables_ok_def matchesInterest_def pit_entry_ok_def)
  then show ?thesis
    using assms by (simp add: tables_ok_def fib_ok_def meas_ok_def sc_ok_def meas_names_def sc_names_def)
qed

text \<open>The fields of the forwarder that are not tables do not matter.\<close>

lemma tables_ok_rest [simp]:
  "tables_ok (bump c s) = tables_ok s" "tables_ok (emit a s) = tables_ok s" "tables_ok (s\<lparr>fw_cs := x\<rparr>) = tables_ok s"
  "tables_ok (s\<lparr>fw_dnl := y\<rparr>) = tables_ok s" "tables_ok (FaceTable_add f s) = tables_ok s"
  "tables_ok (s\<lparr>fw_faces := fs\<rparr>) = tables_ok s"
  by (simp_all add: bump_def emit_def FaceTable_add_def FaceTable_addImpl_def Let_def tables_ok_def pit_ok_def fib_ok_def
      meas_ok_def sc_ok_def meas_names_def sc_names_def get_pit_def)

lemma timer_tables_ok: "tables_ok s \<Longrightarrow> tables_ok (setExpiryTimer E pid d s)"
  unfolding setExpiryTimer_def by (rule update_pit_tables_ok) (simp_all add: pit_entry_ok_def)

lemma insert_tables_ok: "tables_ok s \<Longrightarrow> Pit_insert i s = (r, isNew, s') \<Longrightarrow> tables_ok s'"
  using pit_insert_tables_ok [of s i] by simp

lemma face_remove_tables_ok: "tables_ok s \<Longrightarrow> tables_ok (FaceTable_remove i s)"
  by (simp add: FaceTable_remove_def cleanup_result(1) [OF _ refl] split: option.split)

lemmas tables_ops_ok = meas_tables_ok Pit_erase_tables_ok record_tables_ok hopLimit_tables_ok timer_tables_ok insert_tables_ok
  face_remove_tables_ok addNextHop_tables_ok removeNextHop_tables_ok update_pit_tables_ok
  StrategyChoice_insert_ok StrategyChoice_erase_ok

interpretation tables: pipeline_invariant E tables_inv "\<lambda>_. tables_inv" for E
  by unfold_locales
     (simp_all add: tables_inv_def tables_ops_ok rest_insert,
      simp_all add: rest_def Cs_insert_ok Cs_find_ok Cs_moveStale_ok dnl_step_ok [of _ _ "DnlAdd _ _", simplified]
        dnl_step_ok [of _ _ DnlMark, simplified] dnl_step_ok [of _ _ DnlAdjust, simplified],
      auto intro: insert_tables_ok)

section \<open>Timers\<close>

text \<open>
  No in-record expires later than the longest lifetime from now, and every PIT entry,
  except those being recorded, has a timer that fires by then.
\<close>

definition timely :: "env \<Rightarrow> nat set \<Rightarrow> fwd \<Rightarrow> bool" where
  "timely E X s \<longleftrightarrow> (\<forall>pid e. get_pit s pid = Some e \<longrightarrow>
     (\<forall>r \<in> set (pe_in e). fr_expiry r \<le> en_now E + ms MAX_LIFETIME) \<and>
     (pid \<notin> X \<longrightarrow> (\<exists>t. pe_timer e = Some t \<and> t \<le> en_now E + ms MAX_LIFETIME)))"

lemma timely_sub:
  assumes "timely E X s" and "\<And>p e'. get_pit s' p = Some e' \<Longrightarrow>
      \<exists>e. get_pit s p = Some e \<and> pe_timer e' = pe_timer e \<and> fr_expiry ` set (pe_in e') \<subseteq> fr_expiry ` set (pe_in e)"
  shows "timely E X s'"
  unfolding timely_def
proof (intro allI impI)
  fix p e' assume "get_pit s' p = Some e'"
  then obtain e where e: "get_pit s p = Some e" "pe_timer e' = pe_timer e" "fr_expiry ` set (pe_in e') \<subseteq> fr_expiry ` set (pe_in e)"
    using assms(2) by blast
  have "fr_expiry r \<le> en_now E + ms MAX_LIFETIME" if r: "r \<in> set (pe_in e')" for r
  proof -
    obtain q where "q \<in> set (pe_in e)" "fr_expiry r = fr_expiry q" using e(3) r by fastforce
    then show ?thesis using assms(1) e(1) unfolding timely_def by metis
  qed
  moreover have "p \<notin> X \<longrightarrow> (\<exists>t. pe_timer e' = Some t \<and> t \<le> en_now E + ms MAX_LIFETIME)"
    using assms(1) e(1,2) unfolding timely_def by metis
  ultimately show "(\<forall>r \<in> set (pe_in e'). fr_expiry r \<le> en_now E + ms MAX_LIFETIME) \<and>
      (p \<notin> X \<longrightarrow> (\<exists>t. pe_timer e' = Some t \<and> t \<le> en_now E + ms MAX_LIFETIME))" by blast
qed

lemma timely_same: "timely E X s \<Longrightarrow> get_pit s' = get_pit s \<Longrightarrow> timely E X s'"
  by (simp add: timely_def)

lemma get_pit_frame [simp]:
  "get_pit (bump c s) = get_pit s" "get_pit (emit a s) = get_pit s"
  "get_pit (s\<lparr>fw_cs := x\<rparr>) = get_pit s" "get_pit (s\<lparr>fw_dnl := y\<rparr>) = get_pit s" "get_pit (s\<lparr>fw_faces := fs\<rparr>) = get_pit s"
  "get_pit (update_meas k h s) = get_pit s" "get_pit (extendLifetime now k d s) = get_pit s"
  "get_pit (snd (accessor_get now sp n s)) = get_pit s" "get_pit (fst (Fib_insert p s)) = get_pit s"
  "get_pit (fst (Fib_addOrUpdateNextHop p f cost s)) = get_pit s" "get_pit (fst (Fib_removeNextHop p f s)) = get_pit s"
  "get_pit (FaceTable_add f s) = get_pit s" "get_pit (Measurements_cleanup n s) = get_pit s"
  by (rule ext, simp add: get_pit_def bump_def emit_def update_meas_def extendLifetime_def accessor_get_def
      Measurements_get_def Measurements_get_nte_def Fib_insert_def Fib_addOrUpdateNextHop_def
      Fib_removeNextHop_def Fib_erase_nte_def FaceTable_add_def FaceTable_addImpl_def Measurements_cleanup_def Let_def
      split: option.split prod.split)+

lemma timely_record: "timely E X s \<Longrightarrow> record_change g \<Longrightarrow> timely E X (update_pit pid g s)"
  by (rule timely_sub) (auto simp: record_change_def split: if_splits)

lemma timely_hopLimit:
  "timely E X s \<Longrightarrow> timely E X (update_pit pid (\<lambda>e. e\<lparr>pe_interest := (pe_interest e)\<lparr>i_hopLimit := h\<rparr>\<rparr>) s)"
  by (rule timely_sub) (auto split: if_splits)

lemma in_record_expiry:
  assumes "r \<in> set (pe_in (insertOrUpdateInRecord now f i e))"
  shows "r \<in> set (pe_in e) \<or> fr_expiry r \<le> now + ms MAX_LIFETIME"
proof -
  have "now + ms (min (i_lifetime i) MAX_LIFETIME) \<le> now + ms MAX_LIFETIME" by (simp add: ms_def min_def)
  then show ?thesis
    using assms set_update_rec [of f "InRecord_update now i" "pe_in e"]
    by (auto simp: insertOrUpdateInRecord_def split: option.splits)
qed

lemma timely_in: "timely E {pid} s \<Longrightarrow> timely E {pid} (update_pit pid (insertOrUpdateInRecord (en_now E) f i) s)"
  unfolding timely_def by (auto dest: in_record_expiry split: if_splits)

lemma timely_set:
  assumes "timely E {pid} s" and "ms (max d 0) \<le> ms MAX_LIFETIME"
  shows "timely E {} (setExpiryTimer E pid d s)"
  using assms unfolding timely_def by (auto simp: setExpiryTimer_def split: if_splits)

lemma timely_weaken: "timely E {} s \<Longrightarrow> timely E {pid} s"
  by (simp add: timely_def)

lemma timely_reject: "timely E {pid} s \<Longrightarrow> timely E {} (setExpiryTimer E pid 0 s)"
  by (rule timely_set) (simp_all add: ms_def MAX_LIFETIME_def)

lemma lastExpiring_le: "(\<And>r. r \<in> set (pe_in e) \<Longrightarrow> fr_expiry r \<le> b) \<Longrightarrow> pe_in e \<noteq> [] \<Longrightarrow> lastExpiring e \<le> b"
proof -
  assume b: "\<And>r. r \<in> set (pe_in e) \<Longrightarrow> fr_expiry r \<le> b" "pe_in e \<noteq> []"
  have "fold (\<lambda>x m. max m (fr_expiry x)) rs m \<le> b" if "m \<le> b" "\<And>r. r \<in> set rs \<Longrightarrow> fr_expiry r \<le> b"
    for rs :: "in_record list" and m
    using that by (induction rs arbitrary: m) auto
  then show ?thesis using b by (auto simp: lastExpiring_def split: list.split)
qed

lemma timely_last:
  assumes "timely E {pid} s" and "get_pit s pid = Some e" and "pe_in e \<noteq> []"
  shows "timely E {} (setExpiryTimer E pid ((lastExpiring e - en_now E) div 1000000) s)"
proof (rule timely_set [OF assms(1)])
  have "lastExpiring e \<le> en_now E + ms MAX_LIFETIME"
    using assms by (intro lastExpiring_le) (auto simp: timely_def)
  then have "(lastExpiring e - en_now E) div 1000000 \<le> MAX_LIFETIME" by (simp add: ms_def)
  moreover have "0 \<le> MAX_LIFETIME" by (simp add: MAX_LIFETIME_def)
  ultimately show "ms (max ((lastExpiring e - en_now E) div 1000000) 0) \<le> ms MAX_LIFETIME" by (simp add: ms_def)
qed

lemma timely_insert:
  assumes "pit_ok s" and "Pit_insert i s = (Some pid, isNew, s')" and "timely E {} s"
  shows "timely E {pid} s'" and "\<not> isNew \<Longrightarrow> timely E {} s'"
proof -
  have *: "timely E {pid} s' \<and> (\<not> isNew \<longrightarrow> timely E {} s')"
    using assms(1)
  proof (cases rule: Pit_insert_cases [where i = i])
    case (found p e tb1)
    then have "get_pit s' = get_pit s" "\<not> isNew" using assms(2) by simp_all
    then show ?thesis using assms(3) timely_same timely_weaken by blast
  next
    case (new k tb1)
    then have "isNew" "pid = tb_nextPit s"
      and "get_pit s' p = (if p = pid then Some ((PitEntry_new i)\<lparr>pe_nte := Some k\<rparr>) else get_pit s p)" for p
      using assms(2) by (auto simp: get_pit_def [of s])
    then show ?thesis using assms(3) unfolding timely_def by (simp add: PitEntry_new_def)
  qed
  then show "timely E {pid} s'" "\<not> isNew \<Longrightarrow> timely E {} s'" by auto
qed

lemma timely_erase: "timely E X s \<Longrightarrow> timely E X (Pit_erase pid b s)"
  by (rule timely_sub) (auto simp: Pit_erase_def Let_def get_pit_def split: option.splits if_splits)

lemma timely_face_remove:
  assumes "timely E X s" and "tables_ok s"
  shows "timely E X (FaceTable_remove i s)"
proof (cases "tab_get (fw_faces s) i")
  case (Some f)
  have "timely E X (cleanupOnFaceRemoval f s)"
    by (rule timely_sub [OF assms(1)])
       (auto simp: cleanup_result(4) [OF assms(2) refl] records_without_def deleteOutRecord_def deleteInRecord_def
         intro!: imageI elim: set_delete_rec [THEN subsetD])
  then show ?thesis by (rule timely_same) (simp add: FaceTable_remove_def Some)
qed (simp add: FaceTable_remove_def assms)

text \<open>Changing the strategy only clears strategy information.\<close>

lemma change_strategy_entries:
  assumes "get_pit (changeStrategy reg p old new s) q = Some e'"
  shows "\<exists>e. get_pit s q = Some e \<and> (e' = e \<or> e' = clear_pit_info e)"
  using assms changeStrategy_cleared [of reg old new p s] by (auto simp: cleared_def split: if_splits)

lemma strategy_entries:
  fixes s :: fwd
  shows "get_pit (snd (StrategyChoice_insert ti tr reg p n s)) q = Some e' \<Longrightarrow>
     \<exists>e. get_pit s q = Some e \<and> (e' = e \<or> e' = clear_pit_info e)"
    and "get_pit (StrategyChoice_erase reg p s) q = Some e' \<Longrightarrow>
     \<exists>e. get_pit s q = Some e \<and> (e' = e \<or> e' = clear_pit_info e)"
proof -
  have sc: "get_pit (tb\<lparr>tb_nt := t, tb_scItems := m\<rparr>) = get_pit tb" "get_pit (tb\<lparr>tb_scItems := m\<rparr>) = get_pit tb" for tb :: fwd and t m
    by (simp_all add: get_pit_def fun_eq_iff)
  show "\<exists>e. get_pit s q = Some e \<and> (e' = e \<or> e' = clear_pit_info e)"
    if "get_pit (snd (StrategyChoice_insert ti tr reg p n s)) q = Some e'"
    using that
    by (auto simp: StrategyChoice_insert_def Let_def sc_setStrategy_def sc split: if_splits option.splits sum.splits
        dest!: change_strategy_entries)
  show "\<exists>e. get_pit s q = Some e \<and> (e' = e \<or> e' = clear_pit_info e)"
    if "get_pit (StrategyChoice_erase reg p s) q = Some e'"
    using that by (auto simp: StrategyChoice_erase_def Let_def sc split: option.splits dest!: change_strategy_entries)
qed

lemma clear_pit_info_times: "pe_timer (clear_pit_info e) = pe_timer e" "fr_expiry ` set (pe_in (clear_pit_info e)) = fr_expiry ` set (pe_in e)"
  by (simp_all add: clear_pit_info_def image_image)

lemma timely_strategy:
  "timely E X s \<Longrightarrow> timely E X (snd (StrategyChoice_insert ti tr reg p n s))"
  "timely E X s \<Longrightarrow> timely E X (StrategyChoice_erase reg p s)"
  by (rule timely_sub, assumption, drule strategy_entries, auto simp: clear_pit_info_times)+

definition fwd_inv :: "env \<Rightarrow> fwd \<Rightarrow> bool" where
  "fwd_inv E s \<longleftrightarrow> tables_inv s \<and> timely E {} s"

definition fwd_recording :: "env \<Rightarrow> nat \<Rightarrow> fwd \<Rightarrow> bool" where
  "fwd_recording E pid s \<longleftrightarrow> tables_inv s \<and> timely E {pid} s"

lemma tables_inv_pit: "tables_inv s \<Longrightarrow> pit_ok s"
  by (simp add: tables_inv_def tables_ok_def)

lemmas timely_laws = timely_record timely_hopLimit timely_in timely_last timely_reject timely_weaken timely_erase timely_strategy
  timely_same [OF _ get_pit_frame(1)] timely_same [OF _ get_pit_frame(2)] timely_same [OF _ get_pit_frame(3)]
  timely_same [OF _ get_pit_frame(4)] timely_same [OF _ get_pit_frame(6)] timely_same [OF _ get_pit_frame(7)]
  timely_same [OF _ get_pit_frame(8)] timely_same [OF _ get_pit_frame(9)] timely_same [OF _ get_pit_frame(10)]
  timely_same [OF _ get_pit_frame(11)] timely_same [OF _ get_pit_frame(12)] timely_same [OF _ get_pit_frame(13)]

interpretation alive: pipeline_invariant E "fwd_inv E" "fwd_recording E" for E
proof (unfold_locales, goal_cases)
  case (8 s i pid s')
  then show ?case using tables.insert_old [of s i pid s'] timely_insert(2) [of s i pid False s'] tables_inv_pit by (simp add: fwd_inv_def)
next
  case (9 s i pid isNew s')
  then show ?case using tables.insert_any [of s i pid isNew s'] timely_insert(1) [of s i pid isNew s'] tables_inv_pit
    by (simp add: fwd_inv_def fwd_recording_def)
next
  case (27 s i)
  then show ?case using timely_face_remove [of E "{}" s i] tables.inv_face_remove [of s i] by (simp add: fwd_inv_def tables_inv_def)
qed (auto simp: fwd_inv_def fwd_recording_def intro: timely_laws tables.inv_record tables.inv_bump tables.inv_emit tables.inv_reject
    tables.inv_accessor_get tables.inv_meas_info tables.inv_extendLifetime tables.rec_bump tables.rec_record tables.rec_cs tables.rec_hopLimit
    tables.rec_in tables.rec_timer tables.rec_reject tables.inv_cs_insert tables.inv_cs_stale tables.inv_dnl_add tables.inv_dnl_mark
    tables.inv_dnl_adjust tables.inv_erase tables.inv_fib_insert tables.inv_fib_add tables.inv_fib_remove tables.inv_face_add
    tables.inv_set_strategy tables.inv_unset_strategy tables.inv_meas_cleanup)

section \<open>Reachable states\<close>

lemma timely_later: "timely E X s \<Longrightarrow> en_now E \<le> en_now E' \<Longrightarrow> timely E' X s"
  unfolding timely_def by (meson add_right_mono order_trans)

lemma Forwarder_new_at:
  "sc_at (tb_nt (Forwarder_new b)) k = (if k = [] then Some \<lparr>sc_prefix = [], sc_strategy = b\<rparr> else None)"
  "fib_at (tb_nt (Forwarder_new b)) k = None" "pit_at (tb_nt (Forwarder_new b)) k = []"
  "meas_at (tb_nt (Forwarder_new b)) k = None" "get_pit (Forwarder_new b) pid = None"
  by (simp_all add: Forwarder_new_def setDefaultStrategy_def nt_lookup_def lookup_step_def ht_insert_def
      setStrategyChoiceEntry_def tab_modify_def view_defs get_pit_def)

lemma Forwarder_new_inv: "fwd_inv E (Forwarder_new b)"
proof -
  have nt: "nt_ok (tb_nt (Forwarder_new b))"
    by (simp add: Forwarder_new_def setDefaultStrategy_def nt_ok_def [of "[]"])
  have "sc_names (Forwarder_new b) = {[]}" by (auto simp: sc_names_def Forwarder_new_at)
  moreover have "tb_scItems (Forwarder_new b) = 1" "tb_measItems (Forwarder_new b) = 0" "tb_pits (Forwarder_new b) = []"
    by (simp_all add: Forwarder_new_def setDefaultStrategy_def)
  ultimately have "tables_ok (Forwarder_new b)"
    using nt by (simp add: tables_ok_def pit_ok_def fib_ok_def meas_ok_def sc_ok_def Forwarder_new_at meas_names_def)
  moreover have "cs_ok (fw_cs (Forwarder_new b)) \<and> dnl_ok (fw_dnl (Forwarder_new b))"
    by (simp add: Forwarder_new_def setDefaultStrategy_def Cs_new_def cs_ok_def table_ok_def dnl_ok_def DeadNonceList_new_def
        DEFAULT_LIFETIME_def MIN_LIFETIME_def ms_def INITIAL_CAPACITY_def MIN_CAPACITY_def MAX_CAPACITY_def)
  ultimately show ?thesis by (simp add: fwd_inv_def tables_inv_def rest_def timely_def Forwarder_new_at)
qed

lemma reachable_inv: "reachable T s \<Longrightarrow> actions_ok s \<and> (\<forall>E. T \<le> en_now E \<longrightarrow> fwd_inv E s)"
proof (induction rule: reachable.induct)
  case (start T b)
  then show ?case
    using Forwarder_new_inv by (simp add: actions_ok_def Forwarder_new_def setDefaultStrategy_def)
next
  case (event T s E ev s')
  then have s: "fwd_inv E s" "actions_ok s" by blast+
  from alive.fwd_step_inv [OF s(1), of ev] event.hyps have inv: "fwd_inv E s'" by simp
  from sent.fwd_step_inv [OF s(2), of E ev] event.hyps have "actions_ok s'" by simp
  moreover have "fwd_inv E' s'" if "en_now E \<le> en_now E'" for E'
    using inv timely_later [of E "{}" s' E'] that by (simp add: fwd_inv_def)
  ultimately show ?case by blast
qed

end
