(* ===== verification/Interest_Exchange.thy ===== *)
theory Interest_Exchange
  imports Forwarder_Safety
begin

text \<open>
  The way of a packet through the tables: what the pipelines do with an Interest that
  is neither pending nor cached, and with the Data that answers it, when the best-route
  strategy governs the name.
\<close>

section \<open>Lookups depend on the entries only\<close>

lemma Fib_lookup_cong:
  assumes "fib_at (tb_nt s') = fib_at (tb_nt s)"
  shows "Fib_findLongestPrefixMatch n s' = Fib_findLongestPrefixMatch n s"
proof -
  have "findLongestPrefixMatch n nteHasFibEntry (tb_nt s') = findLongestPrefixMatch n nteHasFibEntry (tb_nt s)"
    by (rule findLongestPrefixMatch_cong) (simp add: assms)
  then show ?thesis by (simp add: Fib_findLongestPrefixMatch_def entry_of_match_def assms cong: option.case_cong)
qed

lemma effective_strategy_cong:
  assumes "sc_at (tb_nt s') = sc_at (tb_nt s)"
  shows "findEffectiveStrategy n s' = findEffectiveStrategy n s"
proof -
  have "findLongestPrefixMatch n nteHasStrategyChoiceEntry (tb_nt s') = findLongestPrefixMatch n nteHasStrategyChoiceEntry (tb_nt s)"
    by (rule findLongestPrefixMatch_cong) (simp add: assms)
  then show ?thesis by (simp add: findEffectiveStrategy_def strategy_of_match_def assms cong: option.case_cong)
qed

lemma lookupFib_name_lookup:
  assumes "pit_ok s" and "get_pit s pid = Some e" and "i_hint (pe_interest e) = []"
  shows "lookupFib e s = Fib_findLongestPrefixMatch (pe_name e) s"
proof -
  have k: "pe_nte e = Some (take (nteDepth (pe_name e)) (pe_name e))" by (rule pit_okD(7) [OF assms(1,2)])
  then have "pid \<in> set (pit_at (tb_nt s) (take (nteDepth (pe_name e)) (pe_name e)))"
    using pit_okD(4) [OF assms(1)] assms(2) by blast
  then have "tab_get (tb_nt s) (take (nteDepth (pe_name e)) (pe_name e)) \<noteq> None"
    using pit_at_present by (metis empty_iff list.set(1))
  from Fib_lookup_pit_eq [OF pit_okD(1) [OF assms(1)] k nteDepth_le(1) this]
  show ?thesis by (simp add: lookupFib_def assms(3))
qed

section \<open>Forwarding an Interest\<close>

text \<open>What the incoming pipeline lets through to the PIT, with the HopLimit decremented.\<close>

definition decremented :: "interest \<Rightarrow> interest" where
  "decremented i = i\<lparr>i_hopLimit := map_option (\<lambda>h. h - 1) (i_hopLimit i)\<rparr>"

lemma matchesData_decremented: "matchesData (decremented i) d = matchesData i d"
  by (simp add: matchesData_def decremented_def)

definition admissible :: "env \<Rightarrow> interest \<Rightarrow> face \<Rightarrow> fwd \<Rightarrow> bool" where
  "admissible E i f s \<longleftrightarrow> i_hopLimit i \<noteq> Some 0 \<and> \<not> (f_scope f = SCOPE_NON_LOCAL \<and> isPrefixOf LOCALHOST (i_name i)) \<and>
     \<not> dnl_has (en_hash E) (i_name i) (i_nonce i) (fw_dnl s)"

definition frame :: "fwd \<Rightarrow> (name \<Rightarrow> fib_entry option) \<times> (name \<Rightarrow> sc_entry option) \<times> byte \<times> name list" where
  "frame s = (fib_at (tb_nt s), sc_at (tb_nt s), fw_defaultHopLimit s, fw_regions s)"

lemma frame_simps [simp]:
  "frame (bump c s) = frame s" "frame (emit a s) = frame s" "frame (s\<lparr>fw_cs := x\<rparr>) = frame s" "frame (s\<lparr>fw_dnl := y\<rparr>) = frame s"
  "frame (update_pit pid g s) = frame s" "frame (setExpiryTimer E pid d s) = frame s"
  by (simp_all add: frame_def bump_def emit_def setExpiryTimer_def update_pit_def)

text \<open>A new PIT entry.\<close>

lemma Pit_insert_new:
  assumes ok: "pit_ok s" and none: "Pit_find i s = None"
  shows "\<exists>s'. Pit_insert i s = (Some (tb_nextPit s), True, s') \<and> frame s' = frame s \<and> rest s' = rest s \<and> fw_faces s' = fw_faces s \<and>
    (\<forall>p. get_pit s' p = (if p = tb_nextPit s
       then Some ((PitEntry_new i)\<lparr>pe_nte := Some (take (nteDepth (i_name i)) (i_name i))\<rparr>) else get_pit s p))"
  using ok
proof (cases rule: Pit_insert_cases [where i = i])
  case (found pid e tb1)
  then show ?thesis using none Pit_find_iff [OF ok, of i pid] by simp
next
  case (new k tb1)
  show ?thesis
    unfolding new(4)
    by (intro exI conjI, rule refl) (simp_all add: new(1,2) frame_def rest_def get_pit_def [of s] fun_eq_iff)
qed

text \<open>The state in which the strategy is asked about a new Interest.\<close>

definition recorded :: "env \<Rightarrow> interest \<Rightarrow> face \<Rightarrow> pit_entry" where
  "recorded E i f =
     (let e = insertOrUpdateInRecord (en_now E) f i
                ((PitEntry_new i)\<lparr>pe_nte := Some (take (nteDepth (i_name i)) (i_name i))\<rparr>)
      in e\<lparr>pe_timer := Some (en_now E + ms (max ((lastExpiring e - en_now E) div 1000000) 0))\<rparr>)"

lemma miss_reaches_strategy:
  assumes inv: "fwd_inv E s" and adm: "admissible E i f s" and hint: "i_hint i = []" and none: "Pit_find (decremented i) s = None"
    and miss: "fst (Cs_find (en_now E) (decremented i) (fw_cs s)) = None" and hop: "fw_defaultHopLimit s = 0"
    and nh: "i_nextHopFaceId i = None"
  shows "\<exists>s'. onIncomingInterest E i f s =
      with_strategy (tb_nextPit s) (\<lambda>sc. afterReceiveInterest E sc (decremented i) f (tb_nextPit s)) s' \<and>
    fwd_inv E s' \<and> frame s' = frame s \<and> fw_actions s' = fw_actions s \<and> fw_dnl s' = fw_dnl s \<and> fw_cs s' = fw_cs s \<and>
    (\<forall>p. get_pit s' p = (if p = tb_nextPit s then Some (recorded E (decremented i) f) else get_pit s p))"
proof -
  let ?i = "decremented i" and ?pid = "tb_nextPit s"
  define s1 where "s1 = bump (\<lambda>c. c\<lparr>nInInterests := nInInterests c + 1\<rparr>) s"
  have inv1: "fwd_inv E s1" unfolding s1_def by (rule alive.inv_bump [OF inv])
  then have pit1: "pit_ok s1" by (simp add: fwd_inv_def tables_inv_pit)
  have same: "get_pit s1 = get_pit s" "tb_nextPit s1 = tb_nextPit s" "frame s1 = frame s" "rest s1 = rest s"
    by (simp_all add: s1_def) (simp_all add: bump_def)
  have "Pit_find ?i s1 = None"
  proof (rule ccontr)
    assume "Pit_find ?i s1 \<noteq> None"
    then obtain p where "Pit_find ?i s1 = Some p" by blast
    then have "Pit_find ?i s = Some p"
      using Pit_find_iff [OF pit1] Pit_find_iff [of s] inv same(1) by (simp add: fwd_inv_def tables_inv_pit)
    then show False using none by simp
  qed
  then obtain s2 where ins: "Pit_insert ?i s1 = (Some ?pid, True, s2)" and f2: "frame s2 = frame s" "rest s2 = rest s"
    and g2: "\<And>p. get_pit s2 p = (if p = ?pid then Some ((PitEntry_new ?i)\<lparr>pe_nte := Some (take (nteDepth (i_name ?i)) (i_name ?i))\<rparr>)
      else get_pit s p)"
    using Pit_insert_new [OF pit1, of ?i] same by auto
  define e where "e = (PitEntry_new ?i)\<lparr>pe_nte := Some (take (nteDepth (i_name ?i)) (i_name ?i))\<rparr>"
  have cs: "Cs_find (en_now E) ?i (fw_cs s2) = (None, fw_cs s2)"
  proof -
    have "fw_cs s2 = fw_cs s" using f2(2) by (simp add: rest_def)
    then show ?thesis using miss by (auto simp: Cs_find_def split: option.splits if_splits)
  qed
  have J2: "fwd_recording E ?pid s2" by (rule alive.insert_any [OF inv1 ins])
  define s3 where "s3 = bump (\<lambda>c. c\<lparr>nCsMisses := nCsMisses c + 1\<rparr>) s2"
  define s4 where "s4 = update_pit ?pid (insertOrUpdateInRecord (en_now E) f ?i) s3"
  define e4 where "e4 = insertOrUpdateInRecord (en_now E) f ?i e"
  define s5 where "s5 = setExpiryTimer E ?pid ((lastExpiring e4 - en_now E) div 1000000) s4"
  have g4: "get_pit s4 ?pid = Some e4" by (simp add: s4_def s3_def g2 e4_def e_def)
  have J4: "fwd_recording E ?pid s4" unfolding s4_def s3_def by (intro alive.rec_in alive.rec_bump J2)
  have inv5: "fwd_inv E s5"
    unfolding s5_def by (rule alive.rec_timer [OF J4 g4]) (simp add: e4_def in_record_nonempty)
  have nodup: "\<not> hasDuplicateNonceInPit e ?i f"
    by (simp add: e_def PitEntry_new_def alive.no_duplicate_new)
  have att: "attach_hopLimit True ?pid ?i s3 = (?i, s3)"
    using hop f2(1) by (simp add: attach_hopLimit_def s3_def frame_def bump_def)
  have "onContentStoreMiss E True ?i f ?pid s2 = with_strategy ?pid (\<lambda>sc. afterReceiveInterest E sc ?i f ?pid) s5"
    unfolding onContentStoreMiss_def Let_def s3_def [symmetric] att split s4_def [symmetric] g4 option.case s5_def [symmetric]
    using nh by (simp add: decremented_def del: afterReceiveInterest.simps)
  moreover have "processPitEntry E True ?i f ?pid e s2 = onContentStoreMiss E True ?i f ?pid s2"
    using nodup by (simp add: processPitEntry_def cs e_def PitEntry_new_def)
  moreover have "onIncomingInterest E i f s = processPitEntry E True ?i f ?pid e s2"
  proof -
    have i: "i_name ?i = i_name i" "i_nonce ?i = i_nonce i" "i_hint ?i = []" "fw_dnl s1 = fw_dnl s"
      using hint by (simp_all add: decremented_def s1_def bump_def)
    show ?thesis
      unfolding onIncomingInterest_def Let_def s1_def [symmetric] decremented_def [symmetric]
      using adm g2 [of ?pid] by (auto simp: admissible_def i ins e_def)
  qed
  ultimately have "onIncomingInterest E i f s = with_strategy ?pid (\<lambda>sc. afterReceiveInterest E sc ?i f ?pid) s5" by (simp only:)
  moreover have "frame s5 = frame s" "rest s5 = rest s"
    by (simp_all add: s5_def s4_def s3_def f2)
  moreover have "get_pit s5 p = (if p = ?pid then Some (recorded E ?i f) else get_pit s p)" for p
  proof (cases "p = ?pid")
    case True
    then show ?thesis using g4 by (simp add: s5_def setExpiryTimer_def recorded_def e4_def e_def Let_def)
  next
    case False
    then show ?thesis using g2 [of p] by (simp add: s5_def setExpiryTimer_def s4_def s3_def)
  qed
  ultimately show ?thesis using inv5 by (intro exI [of _ s5]) (simp add: rest_def)
qed

definition usable :: "face \<Rightarrow> interest \<Rightarrow> next_hop \<Rightarrow> bool" where
  "usable f i h \<longleftrightarrow> \<not> ((f_id (nh_face h) = f_id f \<and> f_linkType (nh_face h) \<noteq> AD_HOC) \<or> wouldViolateScope f i (nh_face h))"

lemma eligible_usable: "isNextHopEligible f i h e False now = usable f i h"
  by (simp add: isNextHopEligible_def usable_def Let_def)

lemma recorded_simps:
  "pe_interest (recorded E i f) = i" "pe_out (recorded E i f) = []" "pe_satisfied (recorded E i f) = False"
  "pe_in (recorded E i f) = [InRecord_update (en_now E) i (InRecord_new f i)]" "pe_info (recorded E i f) = []"
  "pe_nte (recorded E i f) = Some (take (nteDepth (i_name i)) (i_name i))"
  by (simp_all add: recorded_def Let_def insertOrUpdateInRecord_def PitEntry_new_def)

lemma effective_of_entry:
  assumes "fwd_inv E s" and "get_pit s pid = Some e"
  shows "Option.bind (get_pit s pid) (\<lambda>e. findEffectiveStrategy_pit e s) = findEffectiveStrategy (pe_name e) s"
  using findEffectiveStrategy_pit_eq [of s pid e] assms by (simp add: fwd_inv_def tables_inv_pit)

lemma best_route_forwards:
  assumes inv: "fwd_inv E s" and e: "get_pit s pid = Some (recorded E i f)" and hint: "i_hint i = []"
    and sc: "findEffectiveStrategy (i_name i) s = Some sc" "s_kind (sc_strategy sc) = BestRoute"
    and h: "find (usable f i) (fe_nextHops (Fib_findLongestPrefixMatch (i_name i) s)) = Some h"
    and hop: "\<not> (i_hopLimit i = Some 0 \<and> f_scope (nh_face h) = SCOPE_NON_LOCAL)"
  shows "\<exists>s'. with_strategy pid (\<lambda>sc. afterReceiveInterest E sc i f pid) s = (None, s') \<and> fwd_inv E s' \<and> frame s' = frame s \<and>
    fw_dnl s' = fw_dnl s \<and> fw_cs s' = fw_cs s \<and>
    fw_actions s' = fw_actions s @ [SendInterest (nh_face h) (i\<lparr>i_pitToken := None\<rparr>)] \<and>
    (\<forall>p. get_pit s' p = (if p = pid
       then Some (insertOrUpdateOutRecord (en_now E) (nh_face h) (i\<lparr>i_pitToken := None\<rparr>) (recorded E i f)) else get_pit s p))"
proof -
  let ?i = "i\<lparr>i_pitToken := None\<rparr>"
  define s' where "s' = bump (\<lambda>c. c\<lparr>nOutInterests := nOutInterests c + 1\<rparr>) (emit (SendInterest (nh_face h) ?i)
      (update_pit pid (insertOrUpdateOutRecord (en_now E) (nh_face h) ?i) s))"
  have pit: "pit_ok s" using inv by (simp add: fwd_inv_def tables_inv_pit)
  have fib: "lookupFib (recorded E i f) s = Fib_findLongestPrefixMatch (i_name i) s"
    using lookupFib_name_lookup [OF pit e] hint by (simp add: recorded_simps)
  have new: "decidePerPitEntry E st pid s = (RETX_NEW, s)" for st
    by (simp add: decidePerPitEntry_def e hasPendingOutRecords_def recorded_simps)
  have send: "sendInterest E i (nh_face h) pid s = (True, s')"
  proof -
    have "sendInterest E i (nh_face h) pid s = onOutgoingInterest E ?i (nh_face h) pid s"
      by (cases i) (simp add: sendInterest_def)
    then show ?thesis using hop by (auto simp: onOutgoingInterest_def s'_def)
  qed
  have el: "(\<lambda>h. isNextHopEligible f i h (recorded E i f) False 0) = usable f i" by (simp add: eligible_usable fun_eq_iff)
  have "best_route_afterReceiveInterest E (sc_strategy sc) i f pid s = s'"
    by (simp add: best_route_afterReceiveInterest_def new e fib el h send Let_def)
  then have w: "with_strategy pid (\<lambda>sc. afterReceiveInterest E sc i f pid) s = (None, s')"
    using effective_of_entry [OF inv e] sc by (simp add: with_strategy_def recorded_simps ok_def)
  have "fwd_inv E s'"
    unfolding s'_def by (intro alive.inv_bump alive.inv_emit alive.inv_record inv) (use hop in simp_all)
  moreover have "rest s' = (fw_actions s @ [SendInterest (nh_face h) ?i], fw_cs s, fw_dnl s)"
    by (simp add: s'_def rest_def bump_def emit_def update_pit_def)
  ultimately show ?thesis
    using w by (intro exI [of _ s']) (simp add: s'_def rest_def e)
qed

section \<open>Delivering Data\<close>

text \<open>What is sent to a downstream: the Data with the PIT token of its in-record.\<close>

definition deliver :: "pit_entry \<Rightarrow> data \<Rightarrow> face \<Rightarrow> action list" where
  "deliver e d face =
     (let token = Option.bind (getInRecord e face) (\<lambda>r. i_pitToken (ir_interest r)) in
      if f_id face = INVALID_FACEID \<or> (f_scope face = SCOPE_NON_LOCAL \<and> isPrefixOf LOCALHOST (d_name d)) then []
      else [SendData face (if token = None then d else d\<lparr>d_pitToken := token\<rparr>)])"

lemma sendData_effect:
  assumes "get_pit s pid = Some e"
  shows "fw_actions (snd (sendData d face pid s)) = fw_actions s @ deliver e d face"
    and "get_pit (snd (sendData d face pid s)) p = (if p = pid then Some (deleteInRecord face e) else get_pit s p)"
    and "frame (snd (sendData d face pid s)) = frame s"
    and "fw_dnl (snd (sendData d face pid s)) = fw_dnl s" and "fw_cs (snd (sendData d face pid s)) = fw_cs s"
proof -
  have out: "rest (snd (onOutgoingData d' face s')) = (fw_actions s' @ (if f_id face = INVALID_FACEID \<or>
      (f_scope face = SCOPE_NON_LOCAL \<and> isPrefixOf LOCALHOST (d_name d')) then [] else [SendData face d']), fw_cs s', fw_dnl s')"
    "get_pit (snd (onOutgoingData d' face s')) = get_pit s'" "frame (snd (onOutgoingData d' face s')) = frame s'" for d' s'
    by (simp_all add: onOutgoingData_def) (simp_all add: rest_def bump_def emit_def)
  have up: "fw_actions (update_pit pid g s) = fw_actions s" "fw_cs (update_pit pid g s) = fw_cs s" "fw_dnl (update_pit pid g s) = fw_dnl s" for g
    by (simp_all add: update_pit_def)
  show "get_pit (snd (sendData d face pid s)) p = (if p = pid then Some (deleteInRecord face e) else get_pit s p)"
    "frame (snd (sendData d face pid s)) = frame s"
    using assms by (simp_all add: sendData_def Let_def out)
  have "rest (snd (sendData d face pid s)) = (fw_actions s @ deliver e d face, fw_cs s, fw_dnl s)"
    using assms by (simp add: sendData_def Let_def out deliver_def up)
  then show "fw_actions (snd (sendData d face pid s)) = fw_actions s @ deliver e d face"
    "fw_dnl (snd (sendData d face pid s)) = fw_dnl s" "fw_cs (snd (sendData d face pid s)) = fw_cs s"
    by (simp_all add: rest_def)
qed

lemma deliver_delete: "pit_entry_ok e \<Longrightarrow> face' \<noteq> face \<Longrightarrow> deliver (deleteInRecord face e) d face' = deliver e d face'"
  by (simp add: deliver_def)

lemma deliver_all:
  assumes "get_pit s pid = Some e" and "pit_entry_ok e" and "distinct fs"
    and "s' = fold (\<lambda>face. snd \<circ> sendData d face pid) fs s"
  shows "fw_actions s' = fw_actions s @ concat (map (deliver e d) fs) \<and> frame s' = frame s \<and>
    fw_dnl s' = fw_dnl s \<and> fw_cs s' = fw_cs s \<and>
    (\<forall>p. get_pit s' p = (if p = pid then Some (fold deleteInRecord fs e) else get_pit s p))"
  using assms
proof (induction fs arbitrary: s e)
  case (Cons f fs)
  let ?s = "snd (sendData d f pid s)" and ?e = "deleteInRecord f e"
  note ef = sendData_effect [OF Cons.prems(1), of d f]
  have "fw_actions s' = fw_actions ?s @ concat (map (deliver ?e d) fs) \<and> frame s' = frame ?s \<and>
      fw_dnl s' = fw_dnl ?s \<and> fw_cs s' = fw_cs ?s \<and>
      (\<forall>p. get_pit s' p = (if p = pid then Some (fold deleteInRecord fs ?e) else get_pit ?s p))"
    using Cons.prems ef(2) by (intro Cons.IH) simp_all
  moreover have "map (deliver ?e d) fs = map (deliver e d) fs"
    using Cons.prems(2,3) by (auto intro: deliver_delete)
  ultimately show ?case using ef by simp
qed simp

lemma delete_in_frame [simp]:
  "pe_out (deleteInRecord f e) = pe_out e" "pe_timer (deleteInRecord f e) = pe_timer e"
  by (simp_all add: deleteInRecord_def)

lemma fold_delete_in:
  "pe_interest (fold deleteInRecord fs e) = pe_interest e" "pe_out (fold deleteInRecord fs e) = pe_out e"
  "pe_timer (fold deleteInRecord fs e) = pe_timer e" "pit_entry_ok e \<Longrightarrow> pit_entry_ok (fold deleteInRecord fs e)"
  "pit_entry_ok e \<Longrightarrow> getInRecord (fold deleteInRecord fs e) f = (if f \<in> set fs then None else getInRecord e f)"
  by (induction fs arbitrary: e) simp_all

lemma matches_cong:
  assumes "get_pit s' = get_pit s" and "tb_nt s' = tb_nt s"
  shows "Pit_findAllDataMatches d s' = Pit_findAllDataMatches d s"
  by (simp add: Pit_findAllDataMatches_def assms)

lemma dead_nonce_frame: "get_pit (insertDeadNonceList E e u s) = get_pit s" "fw_actions (insertDeadNonceList E e u s) = fw_actions s"
  by (simp_all add: insertDeadNonceList_def Let_def split: option.split)

lemma mark_satisfied_effect:
  assumes "get_pit s pid = Some e"
  shows "get_pit (mark_satisfied E d g pid s) p =
      (if p = pid then Some (e\<lparr>pe_satisfied := True, pe_dataFreshness := d_freshness d\<rparr>) else get_pit s p)"
    and "fw_actions (mark_satisfied E d g pid s) = fw_actions s"
  using assms by (simp_all add: mark_satisfied_def Let_def dead_nonce_frame) (simp add: update_pit_def)

lemma data_delivered_lemma:
  assumes inv: "fwd_inv E s" and local: "\<not> (f_scope g = SCOPE_NON_LOCAL \<and> isPrefixOf LOCALHOST (d_name d))"
    and m: "Pit_findAllDataMatches d s = [pid]" and e: "get_pit s pid = Some e"
    and sc: "findEffectiveStrategy (pe_name e) s = Some sc" "s_kind (sc_strategy sc) \<noteq> Kite"
  shows "\<exists>s' e'. onIncomingData E d g s = (None, s') \<and>
    fw_actions s' = fw_actions s @ concat (map (deliver e d) (pendingDownstreams (en_now E) g (pe_in e))) \<and>
    (\<forall>p. p \<noteq> pid \<longrightarrow> get_pit s' p = get_pit s p) \<and> get_pit s' pid = Some e' \<and> pe_interest e' = pe_interest e \<and>
    pe_satisfied e' \<and> pe_timer e' = Some (en_now E) \<and> getOutRecord e' g = None \<and>
    (\<forall>f \<in> set (pendingDownstreams (en_now E) g (pe_in e)). getInRecord e' f = None)"
proof -
  let ?fs = "pendingDownstreams (en_now E) g (pe_in e)"
  define s1 where "s1 = bump (\<lambda>c. c\<lparr>nInData := nInData c + 1\<rparr>) s"
  define s2 where "s2 = s1\<lparr>fw_cs := Cs_insert (en_now E) d False (fw_cs s1)\<rparr>"
  define s3 where "s3 = setExpiryTimer E pid 0 s2"
  define e3 where "e3 = e\<lparr>pe_timer := Some (en_now E)\<rparr>"
  define s4 where "s4 = sendDataToAll E d pid g s3"
  define e4 where "e4 = fold deleteInRecord ?fs e3"
  define e5 where "e5 = e4\<lparr>pe_satisfied := True, pe_dataFreshness := d_freshness d\<rparr>"
  define s5 where "s5 = mark_satisfied E d g pid s4"
  define s6 where "s6 = update_pit pid (deleteOutRecord g) s5"
  have m1: "Pit_findAllDataMatches d s1 = [pid]"
    using matches_cong [of s1 s d] m by (simp add: s1_def) (simp add: bump_def)
  have inv3: "fwd_inv E s3"
    unfolding s3_def s2_def s1_def by (intro alive.inv_reject alive.inv_cs_insert alive.inv_bump inv)
  have g3: "get_pit s3 p = (if p = pid then Some e3 else get_pit s p)" for p
    using e by (simp add: s3_def setExpiryTimer_def s2_def s1_def e3_def ms_def)
  have a3: "fw_actions s3 = fw_actions s" "frame s3 = frame s"
    by (simp_all add: s3_def s2_def s1_def) (simp_all add: setExpiryTimer_def update_pit_def bump_def)
  have ok3: "pit_entry_ok e3"
    using inv3 g3 [of pid] pit_okD(6) by (auto simp: fwd_inv_def dest: tables_inv_pit)
  have "Option.bind (get_pit s3 pid) (\<lambda>e. findEffectiveStrategy_pit e s3) = Some sc"
    using effective_of_entry [OF inv3, of pid e3] g3 [of pid] effective_strategy_cong [of s3 s] a3(2) sc(1)
    by (simp add: frame_def e3_def)
  then have w: "with_strategy pid (\<lambda>sc. afterReceiveData E sc d g pid) s3 = (None, s4)"
    using sc(2) by (simp add: with_strategy_def afterReceiveData_def s4_def ok_def)
  have del: "fw_actions s4 = fw_actions s3 @ concat (map (deliver e3 d) ?fs) \<and>
      (\<forall>p. get_pit s4 p = (if p = pid then Some e4 else get_pit s3 p))"
  proof -
    have "s4 = fold (\<lambda>face. snd \<circ> sendData d face pid) ?fs s3"
      using g3 [of pid] by (simp add: s4_def sendDataToAll_def e3_def)
    moreover have "distinct ?fs" by (simp add: pendingDownstreams_def)
    ultimately show ?thesis
      using deliver_all [OF _ ok3, of s3 pid ?fs s4 d] g3 [of pid] by (simp add: e4_def)
  qed
  have tok: "deliver e3 d = deliver e d" by (simp add: fun_eq_iff deliver_def e3_def getInRecord_def)
  have g5: "get_pit s5 p = (if p = pid then Some e5 else get_pit s p)" "fw_actions s5 = fw_actions s4" for p
    using mark_satisfied_effect [of s4 pid e4 E d g] del g3 [of p] by (simp_all add: s5_def e5_def)
  have "onIncomingData E d g s = (None, s6)"
    using local w m1
    by (auto simp: onIncomingData_def Let_def s1_def [symmetric] s2_def [symmetric] s3_def [symmetric] ok_def s5_def s6_def)
  moreover have "fw_actions s6 = fw_actions s @ concat (map (deliver e d) ?fs)"
    using del a3(1) tok g5(2) by (simp add: s6_def update_pit_def)
  moreover have "get_pit s6 p = (if p = pid then Some (deleteOutRecord g e5) else get_pit s p)" for p
    using g5(1) [of p] g5(1) [of pid] by (simp add: s6_def)
  moreover have "pit_entry_ok e5" using fold_delete_in(4) [OF ok3, of ?fs] by (simp add: e5_def e4_def pit_entry_ok_def)
  moreover have "pe_interest e5 = pe_interest e" "pe_timer e5 = Some (en_now E)" "pe_satisfied e5"
    by (simp_all add: e5_def e4_def fold_delete_in) (simp_all add: e3_def)
  moreover have "getInRecord (deleteOutRecord g e5) f = None" if "f \<in> set ?fs" for f
    using fold_delete_in(5) [OF ok3, of ?fs f] that by (simp add: getInRecord_def deleteOutRecord_def e5_def e4_def)
  ultimately show ?thesis
    by (intro exI [of _ s6] exI [of _ "deleteOutRecord g e5"]) (simp add: deleteOutRecord_def getOutRecord_def pit_entry_ok_def find_delete_rec)
qed

section \<open>Properties\<close>

lemma fwd_inv_reachable: "reachable T s \<Longrightarrow> T \<le> en_now E \<Longrightarrow> fwd_inv E s"
  using reachable_inv by blast

lemma distinct_matches:
  assumes "pit_ok s"
  shows "distinct (Pit_findAllDataMatches d s)"
proof -
  have one: "distinct (concat (map f ks))" if "distinct ks" "\<And>k. distinct (f k)" "\<And>k j. k \<noteq> j \<Longrightarrow> set (f k) \<inter> set (f j) = {}"
    for f :: "name \<Rightarrow> nat list" and ks
    using that
  proof (induction ks)
    case (Cons k ks)
    have "set (f k) \<inter> set (f j) = {}" if "j \<in> set ks" for j using Cons.prems(1,3) that by (metis distinct.simps(2))
    then have "set (f k) \<inter> set (concat (map f ks)) = {}" by auto
    then show ?case using Cons by simp
  qed simp
  have "inj_on (\<lambda>i. take i (d_name d)) (set (rev [0..<Suc (min (length (d_name d)) getMaxDepth)]))"
  proof (rule inj_onI)
    fix i j assume ij: "i \<in> set (rev [0..<Suc (min (length (d_name d)) getMaxDepth)])" "j \<in> set (rev [0..<Suc (min (length (d_name d)) getMaxDepth)])"
      and t: "take i (d_name d) = take j (d_name d)"
    from arg_cong [OF t, of length] have "min (length (d_name d)) i = min (length (d_name d)) j" by (simp only: length_take)
    moreover have "i \<le> length (d_name d)" "j \<le> length (d_name d)" using ij by (simp_all del: upt_Suc)
    ultimately show "i = j" by simp
  qed
  then have "distinct (findAllMatches (d_name d) nteHasPitEntries (tb_nt s))"
    by (simp add: findAllMatches_eq [OF pit_okD(1) [OF assms]] distinct_map del: upt_Suc)
  then show ?thesis
    unfolding Pit_findAllDataMatches_def
  proof (rule one)
    fix k j :: name assume "k \<noteq> j"
    then show "set (filter (\<lambda>pid. case get_pit s pid of None \<Rightarrow> False | Some e \<Rightarrow> matchesData (pe_interest e) d) (pit_at (tb_nt s) k)) \<inter>
        set (filter (\<lambda>pid. case get_pit s pid of None \<Rightarrow> False | Some e \<Rightarrow> matchesData (pe_interest e) d) (pit_at (tb_nt s) j)) = {}"
      using pit_okD(4) [OF assms, of _ k] pit_okD(4) [OF assms, of _ j] by auto
  qed (simp add: pit_okD(3) [OF assms])
qed

lemma single_match:
  assumes "pit_ok s" and "get_pit s pid = Some e" and "matchesData (pe_interest e) d"
    and "\<And>p e. p \<noteq> pid \<Longrightarrow> get_pit s p = Some e \<Longrightarrow> \<not> matchesData (pe_interest e) d"
  shows "Pit_findAllDataMatches d s = [pid]"
proof -
  have "set (Pit_findAllDataMatches d s) = {pid}"
    using findAllDataMatches_iff [OF assms(1)] assms(2-4) by blast
  moreover from this have "length (Pit_findAllDataMatches d s) = 1"
    using distinct_card [OF distinct_matches [OF assms(1)], of d] by simp
  ultimately show ?thesis by (auto simp: length_Suc_conv)
qed

text \<open>
  What an Interest needs to be forwarded: it is neither dropped nor pending nor cached, best-route
  governs its name, and the FIB has a nexthop it may be sent to.
\<close>

definition forwardable :: "env \<Rightarrow> interest \<Rightarrow> face \<Rightarrow> next_hop \<Rightarrow> fwd \<Rightarrow> bool" where
  "forwardable E i f h s \<longleftrightarrow>
     admissible E i f s \<and> i_hint i = [] \<and> i_nextHopFaceId i = None \<and> fw_defaultHopLimit s = 0 \<and>
     Pit_find (decremented i) s = None \<and> fst (Cs_find (en_now E) (decremented i) (fw_cs s)) = None \<and>
     (case findEffectiveStrategy (i_name i) s of None \<Rightarrow> False | Some sc \<Rightarrow> s_kind (sc_strategy sc) = BestRoute) \<and>
     find (usable f (decremented i)) (fe_nextHops (Fib_findLongestPrefixMatch (i_name i) s)) = Some h \<and>
     \<not> (i_hopLimit (decremented i) = Some 0 \<and> f_scope (nh_face h) = SCOPE_NON_LOCAL)"

lemma interest_forwarded:
  assumes inv: "fwd_inv E s" and fw: "forwardable E i f h s"
  shows "\<exists>s'. onIncomingInterest E i f s = (None, s') \<and> fwd_inv E s' \<and> frame s' = frame s \<and> fw_dnl s' = fw_dnl s \<and> fw_cs s' = fw_cs s \<and>
    fw_actions s' = fw_actions s @ [SendInterest (nh_face h) ((decremented i)\<lparr>i_pitToken := None\<rparr>)] \<and>
    (\<forall>p. get_pit s' p = (if p = tb_nextPit s
       then Some (insertOrUpdateOutRecord (en_now E) (nh_face h) ((decremented i)\<lparr>i_pitToken := None\<rparr>) (recorded E (decremented i) f))
       else get_pit s p))"
proof -
  let ?i = "decremented i"
  obtain sc where sc: "findEffectiveStrategy (i_name i) s = Some sc" "s_kind (sc_strategy sc) = BestRoute"
    using fw by (auto simp: forwardable_def split: option.splits)
  have n: "i_name ?i = i_name i" "i_hint ?i = i_hint i" by (simp_all add: decremented_def)
  obtain s1 where s1: "onIncomingInterest E i f s = with_strategy (tb_nextPit s) (\<lambda>sc. afterReceiveInterest E sc ?i f (tb_nextPit s)) s1"
    and inv1: "fwd_inv E s1" and f1: "frame s1 = frame s" "fw_actions s1 = fw_actions s" "fw_dnl s1 = fw_dnl s" "fw_cs s1 = fw_cs s"
    and g1: "\<And>p. get_pit s1 p = (if p = tb_nextPit s then Some (recorded E ?i f) else get_pit s p)"
  proof -
    have "admissible E i f s" "i_hint i = []" "Pit_find ?i s = None" "fst (Cs_find (en_now E) ?i (fw_cs s)) = None"
      "fw_defaultHopLimit s = 0" "i_nextHopFaceId i = None"
      using fw by (simp_all add: forwardable_def)
    from miss_reaches_strategy [OF inv this] that show thesis by blast
  qed
  have at1: "fib_at (tb_nt s1) = fib_at (tb_nt s)" "sc_at (tb_nt s1) = sc_at (tb_nt s)" using f1(1) by (simp_all add: frame_def)
  have "\<exists>s'. with_strategy (tb_nextPit s) (\<lambda>sc. afterReceiveInterest E sc ?i f (tb_nextPit s)) s1 = (None, s') \<and> fwd_inv E s' \<and>
      frame s' = frame s1 \<and> fw_dnl s' = fw_dnl s1 \<and> fw_cs s' = fw_cs s1 \<and>
      fw_actions s' = fw_actions s1 @ [SendInterest (nh_face h) (?i\<lparr>i_pitToken := None\<rparr>)] \<and>
      (\<forall>p. get_pit s' p = (if p = tb_nextPit s
         then Some (insertOrUpdateOutRecord (en_now E) (nh_face h) (?i\<lparr>i_pitToken := None\<rparr>) (recorded E ?i f)) else get_pit s1 p))"
  proof (rule best_route_forwards [OF inv1])
    show "get_pit s1 (tb_nextPit s) = Some (recorded E ?i f)" using g1 [of "tb_nextPit s"] by simp
    show "i_hint ?i = []" using fw by (simp add: forwardable_def n)
    show "findEffectiveStrategy (i_name ?i) s1 = Some sc" using sc(1) effective_strategy_cong [OF at1(2)] by (simp add: n)
    show "s_kind (sc_strategy sc) = BestRoute" by (rule sc)
    show "find (usable f ?i) (fe_nextHops (Fib_findLongestPrefixMatch (i_name ?i) s1)) = Some h"
      using fw Fib_lookup_cong [OF at1(1)] by (simp add: forwardable_def n)
    show "\<not> (i_hopLimit ?i = Some 0 \<and> f_scope (nh_face h) = SCOPE_NON_LOCAL)" using fw by (simp add: forwardable_def)
  qed
  then show ?thesis using s1 f1 g1 by (auto cong: if_cong)
qed



subsection \<open>A run\<close>

text \<open>A forwarder with the route /A to one face, asked for /A/B by an application.\<close>

definition env_at :: "int \<Rightarrow> env" where
  "env_at t = \<lparr>en_now = t, en_hash = (\<lambda>_ _. 1), en_fromIso = (\<lambda>_. None), en_shuffle = id, en_toInt = (\<lambda>_. None), en_toRatio = (\<lambda>_. None)\<rparr>"

definition name_a :: name where "name_a = [Component 8 [65]]"

definition routed :: fwd where
  "routed = fst (Fib_addOrUpdateNextHop name_a face1 10 (fst (Fib_insert name_a (Forwarder_new best_route_instance))))"

lemma routed_frame:
  "pit_at (tb_nt routed) k = []" "sc_at (tb_nt routed) k = sc_at (tb_nt (Forwarder_new best_route_instance)) k"
  "rest routed = rest (Forwarder_new best_route_instance)" "get_pit routed p = None"
  by (simp_all add: routed_def addNextHop_frame Forwarder_new_at)

lemma name_a_depth: "length name_a \<le> getMaxDepth"
  by (simp add: name_a_def getMaxDepth_def)

lemma routed_inv: "fwd_inv E routed"
  unfolding routed_def by (rule alive.inv_fib_add [OF alive.inv_fib_insert [OF Forwarder_new_inv name_a_depth]])

lemma routed_fib:
  "fib_at (tb_nt routed) k = (if k = name_a then Some \<lparr>fe_prefix = name_a, fe_nextHops = [\<lparr>nh_face = face1, nh_cost = 10\<rparr>]\<rparr> else None)"
proof -
  have ok: "fib_ok (Forwarder_new best_route_instance)"
    using Forwarder_new_inv by (simp add: fwd_inv_def tables_inv_def tables_ok_def)
  show ?thesis
    using Fib_addOrUpdateNextHop_ok(2) [OF Fib_insert_ok(1) [OF ok name_a_depth], of name_a face1 10 k] Fib_insert_ok(2) [OF ok name_a_depth]
    by (simp add: routed_def Forwarder_new_at FibEntry_new_def Entry_addOrUpdateNextHop_def findNextHop_def sortNextHops_def Let_def)
qed

lemma routed_reachable: "reachable 0 routed"
proof -
  let ?E = "env_at 0" and ?s = "Forwarder_new best_route_instance"
  obtain r where r: "Fib_addOrUpdateNextHop name_a face1 10 (fst (Fib_insert name_a ?s)) = (routed, r)"
    by (cases "Fib_addOrUpdateNextHop name_a face1 10 (fst (Fib_insert name_a ?s))") (simp add: routed_def)
  have none: "concat (map (pit_at (tb_nt routed)) ks) = []" for ks by (simp add: routed_frame)
  have "addRoute ?E name_a face1 10 ?s = ok routed"
    by (simp add: addRoute_def r onNewNextHop_def none split: option.split prod.split)
  then have "fwd_step ?E (AddRoute name_a face1 10) ?s = (None, routed)"
    using name_a_depth by (simp add: ok_def)
  from reachable.event [OF reachable.start [of 0] _ this] show ?thesis by (simp add: env_at_def)
qed

definition app :: face where
  "app = \<lparr>f_id = 300, f_scope = SCOPE_LOCAL, f_linkType = POINT_TO_POINT\<rparr>"

definition interest_7 :: interest where
  "interest_7 = interest_a\<lparr>i_pitToken := Some 7\<rparr>"

lemma routed_strategy: "findEffectiveStrategy n routed = Some \<lparr>sc_prefix = [], sc_strategy = best_route_instance\<rparr>"
proof -
  have "sc_ok routed" using routed_inv by (simp add: fwd_inv_def tables_inv_def tables_ok_def)
  from findEffectiveStrategy_spec [OF this, of n] show ?thesis
    by (auto simp: effective_def routed_frame Forwarder_new_at split: if_splits)
qed

lemma routed_lookup: "fe_nextHops (Fib_findLongestPrefixMatch name_a routed) = [\<lparr>nh_face = face1, nh_cost = 10\<rparr>]"
proof -
  have "fib_ok routed" using routed_inv by (simp add: fwd_inv_def tables_inv_def tables_ok_def)
  from fib_lookup_spec [OF this refl, of name_a] show ?thesis
  proof
    assume "Fib_findLongestPrefixMatch name_a routed = emptyEntry \<and> (\<forall>p. prefix p name_a \<longrightarrow> fib_at (tb_nt routed) p = None)"
    then have "fib_at (tb_nt routed) name_a = None" by blast
    then show ?thesis by (simp add: routed_fib)
  qed (auto simp: routed_fib split: if_splits dest: sym)
qed

lemma name_a_global: "\<not> isPrefixOf LOCALHOST (Component 8 [65] # n)" "\<not> isPrefixOf LOCALHOP (Component 8 [65] # n)"
proof -
  have "str ''localhost'' \<noteq> Component 8 [65]" "str ''localhop'' \<noteq> Component 8 [65]" by code_simp+
  then show "\<not> isPrefixOf LOCALHOST (Component 8 [65] # n)" "\<not> isPrefixOf LOCALHOP (Component 8 [65] # n)"
    by (simp_all add: LOCALHOST_def LOCALHOP_def isPrefixOf_prefix)
qed

lemma routed_forwards: "forwardable (env_at 0) interest_7 app \<lparr>nh_face = face1, nh_cost = 10\<rparr> routed"
proof -
  have rest: "fw_dnl routed = fw_dnl (Forwarder_new best_route_instance)" "fw_cs routed = fw_cs (Forwarder_new best_route_instance)"
    using routed_frame(3) by (simp_all add: rest_def)
  have "admissible (env_at 0) interest_7 app routed"
    by (simp add: admissible_def interest_7_def interest_a_def app_def dnl_has_def makeEntry_def env_at_def rest Forwarder_new_def
        setDefaultStrategy_def DeadNonceList_new_def DEFAULT_LIFETIME_def MIN_LIFETIME_def ms_def MARK_def)
  moreover have "pit_ok routed" using routed_inv by (simp add: fwd_inv_def tables_inv_pit)
  then have "Pit_find (decremented interest_7) routed = None"
    using Pit_find_iff [of routed "decremented interest_7"] routed_frame(4) by (metis option.distinct(1) option.exhaust)
  moreover have "fst (Cs_find 0 (decremented interest_7) (fw_cs routed)) = None"
    by (simp add: rest Forwarder_new_def setDefaultStrategy_def Cs_find_def Cs_new_def range_entries_def)
  moreover have "usable app (decremented interest_7) \<lparr>nh_face = face1, nh_cost = 10\<rparr>"
    by (simp add: usable_def app_def face1_def wouldViolateScope_def decremented_def interest_7_def interest_a_def name_a_global)
  moreover have "fw_defaultHopLimit routed = 0"
    by (simp add: routed_def Fib_addOrUpdateNextHop_def Fib_insert_def Forwarder_new_def setDefaultStrategy_def Let_def split: option.split prod.split)
  moreover have "i_name interest_7 = name_a" by (simp add: interest_7_def interest_a_def name_a_def)
  ultimately show ?thesis
    by (simp add: forwardable_def routed_strategy routed_lookup best_route_instance_def env_at_def)
       (simp add: interest_7_def interest_a_def decremented_def)
qed


text \<open>The state after the Interest.\<close>

definition pending_7 :: pit_entry where
  "pending_7 = insertOrUpdateOutRecord 0 face1 interest_a (recorded (env_at 0) interest_7 app)"

lemma asked:
  "\<exists>s1. fwd_step (env_at 0) (IncomingInterest interest_7 app) routed = (None, s1) \<and> reachable 0 s1 \<and> frame s1 = frame routed \<and>
    fw_dnl s1 = fw_dnl routed \<and> fw_actions s1 = [SendInterest face1 interest_a] \<and>
    (\<forall>p. get_pit s1 p = (if p = tb_nextPit routed then Some pending_7 else None))"
proof -
  let ?h = "\<lparr>nh_face = face1, nh_cost = 10\<rparr>"
  have i: "decremented interest_7 = interest_7" "interest_7\<lparr>i_pitToken := None\<rparr> = interest_a" "en_now (env_at 0) = 0"
    by (simp_all add: decremented_def interest_7_def interest_a_def env_at_def)
  have a: "fw_actions routed = []"
    using routed_frame(3) by (simp add: rest_def Forwarder_new_def setDefaultStrategy_def)
  obtain s1 where s1: "onIncomingInterest (env_at 0) interest_7 app routed = (None, s1)" "frame s1 = frame routed" "fw_dnl s1 = fw_dnl routed"
      "fw_actions s1 = fw_actions routed @ [SendInterest (nh_face ?h) interest_a]"
      "\<And>p. get_pit s1 p = (if p = tb_nextPit routed then Some pending_7 else get_pit routed p)"
    using interest_forwarded [OF routed_inv routed_forwards] unfolding i pending_7_def by auto
  have "reachable (en_now (env_at 0)) s1"
    by (rule reachable.event [OF routed_reachable, where ev = "IncomingInterest interest_7 app"]) (use s1(1) i(3) in simp_all)
  then show ?thesis using s1 i(3) a by (intro exI [of _ s1]) (simp add: routed_frame)
qed

lemma pending_7_simps:
  "pe_interest pending_7 = interest_7" "pe_in pending_7 = [InRecord_update 0 interest_7 (InRecord_new app interest_7)]"
  "pe_out pending_7 = [FaceRecord_update 0 interest_a (OutRecord_new face1)]" "pe_satisfied pending_7 = False"
  by (simp_all add: pending_7_def insertOrUpdateOutRecord_def recorded_simps env_at_def)


end
