(* ===== verification/Fault_Freedom.thy ===== *)
theory Fault_Freedom
  imports Forwarder_Runs
begin

text \<open>
  The handlers of the forwarder end with a fault only through the KITE strategy: every
  trigger finds its PIT entry and an effective strategy, and the other strategies never
  dereference a null pointer.
\<close>

section \<open>Calm states\<close>

text \<open>The tables are well-formed, the entries \<^verbatim>\<open>P\<close> are pending, and no prefix has the KITE strategy.\<close>

definition noKite :: "fwd \<Rightarrow> bool" where
  "noKite s \<longleftrightarrow> (\<forall>k sc. sc_at (tb_nt s) k = Some sc \<longrightarrow> s_kind (sc_strategy sc) \<noteq> Kite)"

definition calm :: "nat set \<Rightarrow> fwd \<Rightarrow> bool" where
  "calm P s \<longleftrightarrow> tables_ok s \<and> noKite s \<and> (\<forall>p \<in> P. get_pit s p \<noteq> None)"

lemma noKite_cong: "sc_at (tb_nt s') = sc_at (tb_nt s) \<Longrightarrow> noKite s' = noKite s"
  by (simp add: noKite_def)

lemma noKite_frame [simp]:
  "noKite (bump c s) = noKite s" "noKite (emit a s) = noKite s" "noKite (update_pit pid g s) = noKite s"
  "noKite (setExpiryTimer E pid d s) = noKite s" "noKite (s\<lparr>fw_cs := x\<rparr>) = noKite s" "noKite (s\<lparr>fw_dnl := y\<rparr>) = noKite s"
  "noKite (snd (accessor_get now sp n s)) = noKite s" "noKite (update_meas k h s) = noKite s"
  "noKite (extendLifetime now k d s) = noKite s"
  by (rule noKite_cong, simp add: bump_def emit_def update_pit_def setExpiryTimer_def accessor_get_def Measurements_get_def
      Measurements_get_nte_def extendLifetime_def Let_def fun_eq_iff split: option.split prod.split)+

lemma present_update [simp]: "(get_pit (update_pit pid g s) p = None) = (get_pit s p = None)"
  by simp

lemma present_timer [simp]: "(get_pit (setExpiryTimer E pid d s) p = None) = (get_pit s p = None)"
  by (simp add: setExpiryTimer_def)

interpretation calm: strategy_invariant E "calm P" for E P
  by unfold_locales (simp_all add: calm_def tables_ops_ok)

lemma calm_frame:
  "calm P (s\<lparr>fw_cs := x\<rparr>) = calm P s" "calm P (s\<lparr>fw_dnl := y\<rparr>) = calm P s" "calm P s \<Longrightarrow> calm P (setExpiryTimer E pid d s)"
  "calm P (bump c s) = calm P s"
  by (simp_all add: calm_def timer_tables_ok)

lemma calm_in:
  "calm P s \<Longrightarrow> calm P (update_pit pid (insertOrUpdateInRecord now f i) s)"
  unfolding calm_def by (auto intro!: update_pit_tables_ok)

text \<open>A trigger of a pending entry reaches a strategy other than KITE.\<close>

lemma calm_strategy:
  assumes "calm P s" and "pid \<in> P"
  shows "\<exists>sc. Option.bind (get_pit s pid) (\<lambda>e. findEffectiveStrategy_pit e s) = Some sc \<and> s_kind (sc_strategy sc) \<noteq> Kite"
proof -
  obtain e where e: "get_pit s pid = Some e" using assms by (auto simp: calm_def)
  have "pit_ok s" "sc_ok s" using assms(1) by (simp_all add: calm_def tables_ok_def)
  then obtain sc where "findEffectiveStrategy_pit e s = Some sc" "effective (pe_name e) s sc"
    using findEffectiveStrategy_pit_eq [OF _ e] findEffectiveStrategy_spec [of s "pe_name e"] by auto
  then show ?thesis using assms(1) e by (auto simp: calm_def noKite_def effective_def)
qed

lemma calm_trigger:
  assumes "calm P s" and "pid \<in> P" and "\<And>sc. s_kind (sc_strategy sc) \<noteq> Kite \<Longrightarrow> fst (trigger sc s) = None"
  shows "fst (with_strategy pid trigger s) = None"
  using calm_strategy [OF assms(1,2)] assms(3) by (auto simp: with_strategy_def)

lemma and_then_none: "fst r = None \<Longrightarrow> (\<And>s. fst (f s) = None) \<Longrightarrow> fst (and_then r f) = None"
  by (cases r) (simp add: and_then_def)

lemma ok_none [simp]: "fst (ok s) = None"
  by (simp add: ok_def)

lemma processNack_default_none: "fst (processNack_default pid s) = None"
  by (simp add: processNack_default_def processNack_def ok_def split: option.split prod.split)

lemma triggers_none:
  assumes "s_kind (sc_strategy sc) \<noteq> Kite"
  shows "fst (afterReceiveInterest E sc i f pid s) = None" and "beforeSatisfyInterest E sc d f pid s = (None, s)"
    and "fst (afterReceiveData E sc d f pid s) = None" and "fst (afterReceiveNack E sc f pid s) = None"
    and "fst (afterNewNextHop E sc h pid s) = None"
  using assms by (simp_all add: ok_def afterReceiveData_def processNack_default_none split: strategy_kind.split)

section \<open>The handlers\<close>

lemma miss_none:
  assumes "calm P s" and "pid \<in> P"
  shows "fst (onContentStoreMiss E isNew i f pid s) = None"
proof -
  define s1 where "s1 = bump (\<lambda>c. c\<lparr>nCsMisses := nCsMisses c + 1\<rparr>) s"
  obtain i' s2 where a: "attach_hopLimit isNew pid i s1 = (i', s2)" by (rule prod.exhaust)
  have "calm P s1" using assms(1) by (simp add: s1_def calm_frame)
  then have "calm P s2"
    using a by (auto simp: attach_hopLimit_def calm_def Let_def hopLimit_tables_ok split: if_splits)
  define s3 where "s3 = update_pit pid (insertOrUpdateInRecord (en_now E) f i') s2"
  define s4 where "s4 = setExpiryTimer E pid ((case get_pit s3 pid of None \<Rightarrow> 0 | Some e \<Rightarrow> lastExpiring e - en_now E) div 1000000) s3"
  have c4: "calm P s4" unfolding s4_def s3_def by (intro calm_frame(3) calm_in) fact
  have "fst (with_strategy pid (\<lambda>sc. afterReceiveInterest E sc i' f pid) s4) = None"
    by (rule calm_trigger [OF c4 assms(2)]) (rule triggers_none(1))
  then show ?thesis
    unfolding onContentStoreMiss_def Let_def s1_def [symmetric] a split s3_def [symmetric] s4_def [symmetric]
    by (simp add: ok_def split: option.split)
qed

lemma hit_none:
  assumes "calm P s" and "pid \<in> P"
  shows "fst (onContentStoreHit E i f pid d s) = None"
  unfolding onContentStoreHit_def Let_def
proof (rule calm_trigger [OF _ assms(2)])
  show "calm P (setExpiryTimer E pid 0 (update_pit pid
     (\<lambda>e. e\<lparr>pe_satisfied := True, pe_dataFreshness := d_freshness (d\<lparr>d_pitToken := i_pitToken i\<rparr>)\<rparr>)
     (bump (\<lambda>c. c\<lparr>nCsHits := nCsHits c + 1\<rparr>) s)))"
    using assms(1) by (intro calm_frame(3) calm.inv_record) (simp_all add: calm_frame)
qed (simp add: afterContentStoreHit_def ok_def)

lemma interest_none:
  assumes "tables_ok s" and "noKite s"
  shows "fst (onIncomingInterest E i f s) = None"
proof -
  define s1 where "s1 = bump (\<lambda>c. c\<lparr>nInInterests := nInInterests c + 1\<rparr>) s"
  have s1: "tables_ok s1" "noKite s1" using assms by (simp_all add: s1_def)
  have p: "fst (case Pit_insert j s1 of (None, isNew, s2) \<Rightarrow> ok s2
      | (Some pid, isNew, s2) \<Rightarrow> (case get_pit s2 pid of None \<Rightarrow> ok s2 | Some e \<Rightarrow> processPitEntry E isNew j f pid e s2)) = None" for j
  proof -
    obtain pid isNew s2 e where ins: "Pit_insert j s1 = (Some pid, isNew, s2)" and e: "get_pit s2 pid = Some e"
      by (rule Pit_insert_present [of j s1])
    have "sc_at (tb_nt s2) = sc_at (tb_nt s1)"
    proof -
      have "pit_ok s1" using s1(1) by (simp add: tables_ok_def)
      then have "sc_at (tb_nt (snd (snd (Pit_insert j s1)))) = sc_at (tb_nt s1)"
        by (rule Pit_insert_cases [where i = j]) (auto simp: fun_eq_iff)
      then show ?thesis by (simp add: ins)
    qed
    then have c: "calm {pid} s2"
      using insert_tables_ok [OF s1(1) ins] s1(2) noKite_cong [of s2 s1] e by (simp add: calm_def)
    have "fst (processPitEntry E isNew j f pid e s2) = None"
      using hit_none [of "{pid}" _ pid] miss_none [of "{pid}" _ pid] c
      by (simp add: processPitEntry_def ok_def calm_frame Let_def split: option.split prod.split)
    then show ?thesis by (simp add: ins e)
  qed
  show ?thesis
    unfolding onIncomingInterest_def Let_def s1_def [symmetric] using p by (simp add: ok_def)
qed

lemma mark_satisfied_calm: "calm P s \<Longrightarrow> calm P (mark_satisfied E d f pid s)"
  by (simp add: mark_satisfied_def Let_def insertDeadNonceList_def calm_frame calm.inv_record split: option.split)

lemma satisfy_all_none:
  "calm P s \<Longrightarrow> set pids \<subseteq> P \<Longrightarrow> fst (snd (satisfy_all E d f pids pending s)) = None"
proof (induction pids arbitrary: pending s)
  case (Cons pid pids)
  define s1 where "s1 = setExpiryTimer E pid 0 s"
  define s2 where "s2 = update_pit pid (\<lambda>e. deleteOutRecord f (clearInRecords e)) (mark_satisfied E d f pid s1)"
  have c1: "calm P s1" unfolding s1_def by (rule calm_frame(3) [OF Cons.prems(1)])
  have w: "with_strategy pid (\<lambda>sc. beforeSatisfyInterest E sc d f pid) s1 = (None, s1)"
    using calm_strategy [OF c1, of pid] Cons.prems(2) triggers_none(2) by (auto simp: with_strategy_def)
  have "calm P s2" unfolding s2_def by (rule calm.inv_record [OF mark_satisfied_calm [OF c1]]) simp
  then have "fst (snd (satisfy_all E d f pids pending' s2)) = None" for pending'
    using Cons.prems(2) by (intro Cons.IH) simp_all
  then show ?case
    by (simp only: satisfy_all.simps Let_def s1_def [symmetric] w s2_def [symmetric] prod.case option.case)
qed (simp add: ok_def)

lemma data_none:
  assumes "tables_ok s" and "noKite s"
  shows "fst (onIncomingData E d f s) = None"
proof -
  define s1 where "s1 = bump (\<lambda>c. c\<lparr>nInData := nInData c + 1\<rparr>) s"
  define s2 where "s2 = s1\<lparr>fw_cs := Cs_insert (en_now E) d False (fw_cs s1)\<rparr>"
  define pids where "pids = Pit_findAllDataMatches d s1"
  have t1: "tables_ok s1" using assms(1) by (simp add: s1_def)
  then have pit1: "pit_ok s1" by (simp add: tables_ok_def)
  have "get_pit s1 p \<noteq> None" if "p \<in> set pids" for p
    using findAllDataMatches_iff [OF pit1, of p d] that unfolding pids_def by blast
  then have "calm (set pids) s1" using t1 assms(2) unfolding calm_def by (simp add: s1_def)
  then have c2: "calm (set pids) s2" by (simp add: s2_def calm_frame)
  have one: "fst (with_strategy pid (\<lambda>sc. afterReceiveData E sc d f pid) (setExpiryTimer E pid 0 s2)) = None" if "pid \<in> set pids" for pid
    by (rule calm_trigger [OF calm_frame(3) [OF c2] that triggers_none(3)])
  have many: "fst (snd (satisfy_all E d f pids [] s2)) = None" by (rule satisfy_all_none [OF c2]) simp
  have rest: "fst (case satisfy_all E d f pids [] s2 of (pending, r) \<Rightarrow> and_then r (\<lambda>s3. ok (g pending s3))) = None" for g
    using many by (cases "satisfy_all E d f pids [] s2") (simp add: and_then_none)
  note step = onIncomingData_def Let_def s1_def [symmetric] s2_def [symmetric] pids_def [symmetric]
  consider "pids = []" | pid where "pids = [pid]" | p q ps where "pids = p # q # ps" by (metis list.exhaust)
  then show ?thesis
  proof cases
    case 1
    then show ?thesis unfolding step by simp
  next
    case (2 pid)
    then show ?thesis using one [of pid] unfolding step by (simp add: and_then_none)
  next
    case (3 p q ps)
    then show ?thesis using rest unfolding step by (simp del: satisfy_all.simps)
  qed
qed

lemma nack_none:
  assumes "tables_ok s" and "noKite s"
  shows "fst (onIncomingNack E n f s) = None"
proof -
  define s1 where "s1 = bump (\<lambda>c. c\<lparr>nInNacks := nInNacks c + 1\<rparr>) s"
  define s2 where "s2 = (\<lambda>pid. update_pit pid (\<lambda>e. e\<lparr>pe_out := update_rec f (\<lambda>r. snd (setIncomingNack n r)) (pe_out e)\<rparr>) s1)"
  have "fst (with_strategy pid (\<lambda>sc. afterReceiveNack E sc f pid) (s2 pid)) = None" if "out_record_of pid f s1 = Some r" for pid r
  proof -
    have "get_pit s1 pid \<noteq> None" using that by (cases "get_pit s1 pid") (simp_all add: out_record_of_def)
    then have "calm {pid} s1" using assms unfolding calm_def s1_def by simp
    then have "calm {pid} (s2 pid)" unfolding s2_def by (rule calm.inv_record) simp
    then show ?thesis by (rule calm_trigger [OF _ _ triggers_none(4)]) simp
  qed
  then show ?thesis
    unfolding onIncomingNack_def Let_def s1_def [symmetric] s2_def
    by (simp add: and_then_none del: afterReceiveNack.simps split: option.split)
qed

lemma nexthops_none:
  "calm P s \<Longrightarrow> set pids \<subseteq> P \<Longrightarrow>
     fst (fold (\<lambda>pid r. and_then r (with_strategy pid (\<lambda>sc. afterNewNextHop E sc h pid))) pids (ok s)) = None"
proof (induction pids arbitrary: s)
  case (Cons pid pids)
  obtain sc where sc: "Option.bind (get_pit s pid) (\<lambda>e. findEffectiveStrategy_pit e s) = Some sc"
    using calm_strategy [OF Cons.prems(1), of pid] Cons.prems(2) by auto
  obtain s' where s': "with_strategy pid (\<lambda>sc. afterNewNextHop E sc h pid) s = ok s'" "calm P s'"
    using Cons.prems(1) calm.multicast_new_nexthop_inv [of P s] by (cases "s_kind (sc_strategy sc) = Multicast") (simp_all add: with_strategy_def sc)
  have "and_then (ok s) (with_strategy pid (\<lambda>sc. afterNewNextHop E sc h pid)) = ok s'"
    using s'(1) by (simp add: and_then_def)
  then show ?case using Cons.IH [OF s'(2)] Cons.prems(2) by (simp del: afterNewNextHop.simps)
qed simp

lemma route_none:
  assumes "tables_ok s" and "noKite s" and "length p \<le> getMaxDepth"
  shows "fst (addRoute E p f c s) = None"
proof -
  obtain s1 r where s1: "Fib_addOrUpdateNextHop p f c (fst (Fib_insert p s)) = (s1, r)" by (rule prod.exhaust)
  have ok: "tables_ok s1"
    using addNextHop_tables_ok(2) [OF addNextHop_tables_ok(1) [OF assms(1,3)], of p f c] s1 by simp
  have "sc_at (tb_nt s1) = sc_at (tb_nt s)"
    using addNextHop_frame(6) [of p f c "fst (Fib_insert p s)"] s1 by (simp add: addNextHop_frame(3))
  moreover have "get_pit s1 pid \<noteq> None" if "pid \<in> set (pit_at (tb_nt s1) k)" for pid k
  proof -
    have "pit_ok s1" using ok by (simp add: tables_ok_def)
    from pit_okD(4) [OF this, of pid k] that show ?thesis by blast
  qed
  ultimately have c: "calm (\<Union>k. set (pit_at (tb_nt s1) k)) s1"
    using ok assms(2) noKite_cong [of s1 s] unfolding calm_def by blast
  have "fst (onNewNextHop E p' h s1) = None" for p' h
    unfolding onNewNextHop_def by (rule nexthops_none [OF c]) auto
  then show ?thesis by (simp add: addRoute_def s1 ok_def split: option.split)
qed

section \<open>Property\<close>



end
