(* ===== verification/Kite_Nacks.thy ===== *)
theory Kite_Nacks
  imports Fault_Freedom
begin

text \<open>
  The retransmissions a Nack can cause.  On a Nack the KITE strategy sends an Interest that
  went straight to the producer again, towards the rendezvous server.  The number of in-records
  still in the first stage bounds how often this happens.
\<close>

section \<open>A potential\<close>

definition straight :: "in_record \<Rightarrow> bool" where
  "straight r \<longleftrightarrow> (case interest_status (fr_info r) of None \<Rightarrow> False | Some k \<Rightarrow> kis_stage k = STRAIGHT_FORWARD)"

definition straight_records :: "pit_entry \<Rightarrow> nat" where
  "straight_records e = length (filter straight (pe_in e))"

text \<open>The in-records of all pending Interests that are in the first stage.\<close>

definition potential :: "fwd \<Rightarrow> nat" where
  "potential s = sum_list (map (\<lambda>x. straight_records (snd x)) (tb_pits s))"

fun isInterest :: "action \<Rightarrow> bool" where
  "isInterest (SendInterest f i) = True"
| "isInterest a = False"

definition interests_sent :: "fwd \<Rightarrow> action list" where
  "interests_sent s = filter isInterest (fw_actions s)"

text \<open>Whatever sends an Interest lowers the potential, and nothing raises it.\<close>

definition progress :: "fwd \<Rightarrow> fwd \<Rightarrow> bool" where
  "progress s s' \<longleftrightarrow> potential s' \<le> potential s \<and> (interests_sent s' \<noteq> interests_sent s \<longrightarrow> potential s' < potential s)"

named_theorems progress_intros

lemma progress_refl [progress_intros]: "progress s s"
  by (simp add: progress_def)

lemma progress_trans: "progress s s' \<Longrightarrow> progress s' s'' \<Longrightarrow> progress s s''"
  unfolding progress_def by (cases "interests_sent s' = interests_sent s") auto

lemma progress_and_then:
  "progress s (snd r) \<Longrightarrow> (\<And>s. progress s (snd (f s))) \<Longrightarrow> progress s (snd (and_then r f))"
  using progress_trans by (cases r) (auto simp: and_then_def split: option.split)

lemma potential_update:
  assumes "\<And>e. straight_records (g e) \<le> straight_records e"
  shows "potential (update_pit pid g s) \<le> potential s"
    and "get_pit s pid = Some e \<Longrightarrow> straight_records (g e) < straight_records e \<Longrightarrow> potential (update_pit pid g s) < potential s"
proof -
  have le: "sum_list (map (\<lambda>x. straight_records (snd x)) (tab_modify pid g t)) \<le> sum_list (map (\<lambda>x. straight_records (snd x)) t)" for t
  proof (induction t)
    case (Cons a t)
    then show ?case using assms [of "snd a"] by (cases a) (simp add: tab_modify_def comp_def)
  qed (simp add: tab_modify_def)
  have "sum_list (map (\<lambda>x. straight_records (snd x)) (tab_modify pid g t)) < sum_list (map (\<lambda>x. straight_records (snd x)) t)"
    if "tab_get t pid = Some e" "straight_records (g e) < straight_records e" for t
    using that
  proof (induction t)
    case (Cons a t)
    show ?case
    proof (cases "fst a = pid")
      case True
      then have "snd a = e" using Cons.prems(1) by (cases a) simp
      then show ?thesis using le [of t] Cons.prems(2) True by (cases a) (simp add: tab_modify_def comp_def)
    next
      case False
      then show ?thesis using Cons by (cases a) (simp add: tab_modify_def comp_def)
    qed
  qed simp
  then show "get_pit s pid = Some e \<Longrightarrow> straight_records (g e) < straight_records e \<Longrightarrow> potential (update_pit pid g s) < potential s"
    by (simp add: potential_def get_pit_def update_pit_def)
  show "potential (update_pit pid g s) \<le> potential s" using le by (simp add: potential_def update_pit_def)
qed

lemma potential_frame [simp]:
  "potential (bump c s) = potential s" "potential (emit a s) = potential s" "potential (update_meas k h s) = potential s"
  "potential (snd (accessor_get now sp n s)) = potential s"
  by (simp_all add: potential_def bump_def emit_def update_meas_def accessor_get_def Measurements_get_def Measurements_get_nte_def Let_def
      split: option.split prod.split)

lemma sent_frame [simp]:
  "interests_sent (bump c s) = interests_sent s" "interests_sent (update_meas k h s) = interests_sent s"
  "interests_sent (update_pit pid g s) = interests_sent s" "interests_sent (snd (accessor_get now sp n s)) = interests_sent s"
  "\<not> isInterest a \<Longrightarrow> interests_sent (emit a s) = interests_sent s"
  by (simp_all add: interests_sent_def bump_def emit_def update_meas_def update_pit_def accessor_get_def Measurements_get_def
      Measurements_get_nte_def Let_def split: option.split prod.split)

lemma progress_update: "(\<And>e. straight_records (g e) \<le> straight_records e) \<Longrightarrow> progress s (update_pit pid g s)"
  by (simp add: progress_def potential_update(1))

section \<open>Steps of the strategies\<close>

lemma straight_delete: "straight_records (deleteInRecord f e) \<le> straight_records e"
proof -
  have "length (filter straight (delete_rec f rs)) \<le> length (filter straight rs)" for rs by (induction rs) auto
  then show ?thesis by (simp add: straight_records_def deleteInRecord_def)
qed

lemma sendNack_progress: "progress s (sendNack reason f pid s)"
  using potential_update(1) [OF straight_delete, of pid _ s]
  by (simp add: sendNack_def onOutgoingNack_def progress_def split: option.split)

lemma fold_progress: "(\<And>x s. progress s (f x s)) \<Longrightarrow> progress s (fold f xs s)"
  by (induction xs arbitrary: s) (auto intro: progress_refl progress_trans)

lemma sendNacks_progress: "progress s (sendNacks reason pid s)"
  by (simp add: sendNacks_def fold_progress sendNack_progress progress_refl split: option.split)

lemma accessor_progress: "accessor_get now sp n s = (r, s') \<Longrightarrow> progress s (update_meas k h s') \<and> progress s s'"
  using potential_frame(4) [of now sp n s] sent_frame(4) [of now sp n s] by (simp add: progress_def)

lemma eraseMeasurement_progress: "progress s (snd (eraseMeasurement E sp r n s))"
  by (auto simp: eraseMeasurement_def ok_def progress_refl dest: accessor_progress split: option.split prod.split)

lemma removePrefix_progress: "progress s (snd (removePrefix E sp n fid s))"
proof -
  have "progress s (emit (SlRenew n fid 0) s)" by (simp add: progress_def)
  then show ?thesis
    using accessor_progress progress_trans by (fastforce simp: removePrefix_def ok_def Let_def split: option.split prod.split)
qed

text \<open>Sending Interests of an entry changes its out-records only.\<close>

lemma sendInterest_potential: "potential (snd (sendInterest E i f pid s)) \<le> potential s"
proof -
  have "straight_records (insertOrUpdateOutRecord now f j e) \<le> straight_records e" for now j e
    by (simp add: straight_records_def insertOrUpdateOutRecord_def split: option.split)
  then show ?thesis by (simp add: sendInterest_def onOutgoingInterest_def potential_update(1))
qed

lemma deal_loop_potential: "potential (snd (deal_loop E pid hs found s)) \<le> potential s"
proof (induction E pid hs found s rule: deal_loop.induct)
  case (2 E pid h hs found s)
  have "potential (snd (deal_loop E pid hs True (snd (sendInterest E i (nh_face h) pid s)))) \<le> potential s"
    if "potential (snd (deal_loop E pid hs True (snd (sendInterest E i (nh_face h) pid s)))) \<le> potential (snd (sendInterest E i (nh_face h) pid s))" for i
    using that sendInterest_potential by (rule le_trans)
  then show ?case using 2 by (simp split: option.split)
qed simp

lemma interest_status_set:
  "interest_status (set_status f info) = Some (f (case interest_status info of None \<Rightarrow> new_status | Some k \<Rightarrow> k))"
proof -
  have "interest_status (setStrategyInfo (KiteInterestStatus k) info) = Some k" for k
    by (simp add: interest_status_def getStrategyInfo_def setStrategyInfo_def)
  then show ?thesis by (simp add: set_status_def)
qed

lemma dealNack_progress: "progress s (snd (dealNack E f pid s))"
proof (cases "Option.bind (in_record_of pid f s) (\<lambda>r. interest_status (fr_info r))")
  case None
  then show ?thesis by (simp add: dealNack_def progress_refl)
next
  case (Some k)
  then obtain e r where e: "get_pit s pid = Some e" and r: "find_rec f (pe_in e) = Some r" "interest_status (fr_info r) = Some k"
    by (auto simp: in_record_of_def getInRecord_def split: bind_splits)
  define s1 where "s1 = update_in_info pid f (set_status (\<lambda>k. k\<lparr>kis_stage := RV\<rparr>)) s"
  define g :: "pit_entry \<Rightarrow> pit_entry" where "g = (\<lambda>e. e\<lparr>pe_in := update_rec f (\<lambda>r. r\<lparr>fr_info := set_status (\<lambda>k. k\<lparr>kis_stage := RV\<rparr>) (fr_info r)\<rparr>) (pe_in e)\<rparr>)"
  have rv: "\<not> straight (r\<lparr>fr_info := set_status (\<lambda>k. k\<lparr>kis_stage := RV\<rparr>) (fr_info r)\<rparr>)" for r
    by (simp add: straight_def interest_status_set)
  have le: "straight_records (g e) \<le> straight_records e" for e
  proof -
    have "length (filter straight (update_rec f (\<lambda>r. r\<lparr>fr_info := set_status (\<lambda>k. k\<lparr>kis_stage := RV\<rparr>) (fr_info r)\<rparr>) rs)) \<le>
        length (filter straight rs)" for rs by (induction rs) (auto simp: rv)
    then show ?thesis by (simp add: straight_records_def g_def)
  qed
  show ?thesis
  proof (cases "kis_stage k = STRAIGHT_FORWARD")
    case True
    have "length (filter straight (update_rec f (\<lambda>r. r\<lparr>fr_info := set_status (\<lambda>k. k\<lparr>kis_stage := RV\<rparr>) (fr_info r)\<rparr>) rs)) <
        length (filter straight rs)" if "find_rec f rs = Some r" for rs
      using that True r(2) by (induction rs) (auto simp: interest_status_set straight_def split: if_splits)
    then have "straight_records (g e) < straight_records e" using r(1) by (simp add: straight_records_def g_def)
    from potential_update(2) [OF le e this] have "potential s1 < potential s"
      by (simp add: s1_def update_in_info_def g_def)
    then have "potential (snd (deal_loop E pid hs False s1)) < potential s" for hs
      using deal_loop_potential le_less_trans by blast
    then show ?thesis using Some True by (simp add: dealNack_def Let_def s1_def [symmetric] progress_def less_imp_le)
  qed (use Some in \<open>simp add: dealNack_def progress_refl\<close>)
qed

lemma deal_any_progress: "progress s (snd (deal_any E pid fs s))"
proof (induction E pid fs s rule: deal_any.induct)
  case (2 E pid f fs s)
  obtain dealt s1 where d: "dealNack E f pid s = (dealt, s1)" by (rule prod.exhaust)
  then have "progress s s1" using dealNack_progress [of s E f pid] by simp
  then show ?case using 2 [OF d [symmetric] refl] progress_trans d by auto
qed (simp add: progress_refl)

lemma kite_sendNack_progress: "progress s (snd (kite_sendNackForTraits E sp pid f reason s))"
proof -
  obtain dealt s1 where d: "dealNack E f pid s = (dealt, s1)" by (rule prod.exhaust)
  have p1: "progress s s1" using dealNack_progress [of s E f pid] d by simp
  then have p2: "progress s (sendNack reason f pid s1)" using sendNack_progress progress_trans by blast
  then have "progress s (snd (eraseMeasurement E sp r n (sendNack reason f pid s1)))" for r n
    using eraseMeasurement_progress progress_trans by blast
  then show ?thesis using p1 p2 by (simp add: kite_sendNackForTraits_def d ok_def progress_refl Let_def split: option.split)
qed

lemma kite_sendNacks_progress: "progress s (snd (kite_sendNacksForTraits E sp pid reason s))"
proof (cases "get_pit s pid")
  case (Some e)
  obtain dealt s1 where d: "deal_any E pid (map fr_face (pe_in e)) s = (dealt, s1)" by (rule prod.exhaust)
  have p1: "progress s s1" using deal_any_progress [of s E pid "map fr_face (pe_in e)"] d by simp
  then have p2: "progress s (sendNacks reason pid s1)" using sendNacks_progress progress_trans by blast
  then have "progress s (snd (eraseMeasurement E sp r n (sendNacks reason pid s1)))" for r n
    using eraseMeasurement_progress progress_trans by blast
  then show ?thesis using p1 p2 by (simp add: kite_sendNacksForTraits_def Some d ok_def Let_def split: option.split)
qed (simp add: kite_sendNacksForTraits_def ok_def progress_refl)

lemma processNack_progress:
  "(\<And>f reason s. progress s (snd (one f reason s))) \<Longrightarrow> (\<And>reason s. progress s (snd (all reason s))) \<Longrightarrow>
     progress s (snd (processNack one all pid s))"
  by (simp add: processNack_def ok_def progress_refl split: option.split prod.split)

lemma afterReceiveNack_progress: "progress s (snd (afterReceiveNack E sc f pid s))"
proof -
  have "progress s (snd (kite_afterReceiveNack E sp f pid s))" for sp
    unfolding kite_afterReceiveNack_def Let_def
    by (rule progress_and_then)
       (simp_all add: ok_def progress_refl removePrefix_progress processNack_progress kite_sendNack_progress kite_sendNacks_progress
         split: option.split)
  moreover have "progress s (snd (processNack_default pid s))"
    unfolding processNack_default_def by (rule processNack_progress) (simp_all add: ok_def sendNack_progress sendNacks_progress)
  ultimately show ?thesis by (simp add: ok_def progress_refl split: strategy_kind.split)
qed

lemma incoming_nack_progress: "progress s (snd (onIncomingNack E n f s))"
proof -
  define s1 where "s1 = bump (\<lambda>c. c\<lparr>nInNacks := nInNacks c + 1\<rparr>) s"
  have p1: "progress s s1" by (simp add: s1_def progress_def)
  have timer: "progress t (setExpiryTimer E pid d t)" for t d pid
    unfolding setExpiryTimer_def by (rule progress_update) (simp add: straight_records_def)
  define s2 where "s2 = (\<lambda>pid. update_pit pid (\<lambda>e. e\<lparr>pe_out := update_rec f (\<lambda>r. snd (setIncomingNack n r)) (pe_out e)\<rparr>) s1)"
  have p2: "progress s (s2 pid)" for pid
    unfolding s2_def by (rule progress_trans [OF p1 progress_update]) (simp add: straight_records_def)
  have "progress t (snd (with_strategy pid (\<lambda>sc. afterReceiveNack E sc f pid) t))" for t pid
    by (simp add: with_strategy_def progress_refl afterReceiveNack_progress del: afterReceiveNack.simps split: option.split)
  then have "progress s (snd (with_strategy pid (\<lambda>sc. afterReceiveNack E sc f pid) (s2 pid)))" for pid
    using p2 progress_trans by blast
  then have "progress s (snd (and_then (with_strategy pid (\<lambda>sc. afterReceiveNack E sc f pid) (s2 pid)) (\<lambda>s3. ok (case get_pit s3 pid of
      None \<Rightarrow> s3 | Some e \<Rightarrow> if \<not> hasPendingOutRecords (en_now E) e then setExpiryTimer E pid 0 s3 else s3))))" for pid
    by (rule progress_and_then) (simp add: ok_def progress_refl timer split: option.split)
  then show ?thesis
    unfolding onIncomingNack_def Let_def s1_def [symmetric] s2_def
    using p1 by (simp add: ok_def [of s1] del: afterReceiveNack.simps split: option.split)
qed

section \<open>Property\<close>

text \<open>The Nacks of a sequence on which the forwarder sends an Interest.\<close>

fun nack_rounds :: "(env \<times> nack \<times> face) list \<Rightarrow> fwd \<Rightarrow> nat" where
  "nack_rounds [] s = 0"
| "nack_rounds ((E, n, f) # nacks) s =
     (let s' = snd (fwd_step E (IncomingNack n f) s)
      in (if interests_sent s' \<noteq> interests_sent s then 1 else 0) + nack_rounds nacks s')"

text \<open>C6: retransmission on Nacks terminates.  However many Nacks arrive, from whatever faces and
  with whatever strategies, the forwarder sends Interests on at most as many of them as there are
  in-records that the KITE strategy forwarded straight to the producer: each is redirected to the
  rendezvous server at most once.\<close>

theorem nack_retransmission_bounded: "nack_rounds nacks s \<le> potential s"
proof (induction nacks arbitrary: s)
  case (Cons x nacks)
  obtain E n f where x: "x = (E, n, f)" by (cases x)
  define s' where "s' = snd (fwd_step E (IncomingNack n f) s)"
  have p: "progress s s'" using incoming_nack_progress [of s E n f] by (simp add: s'_def)
  show ?case
    using Cons.IH [of s'] p unfolding x nack_rounds.simps s'_def [symmetric] Let_def by (auto simp: progress_def)
qed simp

end
