(* ===== verification/Kite_Mobility.thy ===== *)
theory Kite_Mobility
  imports Kite_Nacks
begin

text \<open>
  What KITE is for: an Interest that waits for a producer follows the producer to the face
  its registration comes from.  The pending Interest is remembered in the measurements of the
  producer prefix, and is sent again when the acknowledgment of a registration arrives.
\<close>

section \<open>Measurements of a producer\<close>

text \<open>The entry of a name, and that it is given out depends on the strategy choices only.\<close>

lemma accessor_effect:
  fixes s :: fwd and n :: name
  assumes ok: "tables_ok s"
  defines "k \<equiv> take getMaxDepth n"
  shows "fst (accessor_get now sp n s) =
      (if \<exists>sc. findEffectiveStrategy k s = Some sc \<and> sc_prefix sc = sp then Some k else None)"
    and "meas_at (tb_nt (snd (accessor_get now sp n s))) = (meas_at (tb_nt s))(k := Some
      (case meas_at (tb_nt s) k of Some e \<Rightarrow> e | None \<Rightarrow> \<lparr>me_name = k, me_expiry = now + getInitialLifetime, me_info = []\<rparr>))"
    and "sc_at (tb_nt (snd (accessor_get now sp n s))) = sc_at (tb_nt s)"
    and "tables_ok (snd (accessor_get now sp n s))"
    and "fw_actions (snd (accessor_get now sp n s)) = fw_actions s"
proof -
  obtain k' s' where g: "Measurements_get now n s = (k', s')" by (rule prod.exhaust)
  have m: "meas_ok s" using ok by (simp add: tables_ok_def)
  note G = Measurements_get_ok [OF m g]
  have k': "k' = k" using G(1) by (simp add: k_def)
  have s': "snd (accessor_get now sp n s) = s'" by (simp add: accessor_get_def g)
  show sc: "sc_at (tb_nt (snd (accessor_get now sp n s))) = sc_at (tb_nt s)"
    by (simp add: accessor_get_def Measurements_get_def Measurements_get_nte_def Let_def fun_eq_iff split: option.split)
  show "meas_at (tb_nt (snd (accessor_get now sp n s))) = (meas_at (tb_nt s))(k := Some
      (case meas_at (tb_nt s) k of Some e \<Rightarrow> e | None \<Rightarrow> \<lparr>me_name = k, me_expiry = now + getInitialLifetime, me_info = []\<rparr>))"
    unfolding s' using G(3) unfolding k' .
  show "tables_ok (snd (accessor_get now sp n s))" by (rule meas_tables_ok(1) [OF ok])
  show "fw_actions (snd (accessor_get now sp n s)) = fw_actions s"
    by (simp add: accessor_get_def Measurements_get_def Measurements_get_nte_def Let_def split: option.split)
  have "nt_ok (tb_nt s')" using G(2) by (simp add: meas_ok_def)
  moreover have "tab_get (tb_nt s') k \<noteq> None" using G(3) meas_at_present [of "tb_nt s'" k] by (simp add: k')
  ultimately have "findEffectiveStrategy_meas k s' = findEffectiveStrategy k s'" by (rule findEffectiveStrategy_meas_eq)
  also have "\<dots> = findEffectiveStrategy k s" using effective_strategy_cong sc s' by simp
  finally show "fst (accessor_get now sp n s) =
      (if \<exists>sc. findEffectiveStrategy k s = Some sc \<and> sc_prefix sc = sp then Some k else None)"
    by (auto simp: accessor_get_def g accessor_filter_def k' split: option.split)
qed

text \<open>What is known of a producer.\<close>

definition producer_info :: "name \<Rightarrow> fwd \<Rightarrow> kite_mp_info option" where
  "producer_info n s = Option.bind (meas_at (tb_nt s) (take getMaxDepth n)) (\<lambda>m. mp_info (me_info m))"

lemma mp_info_set: "mp_info (setStrategyInfo (KiteMobileProducerInfo p) info) = Some p"
  by (simp add: mp_info_def getStrategyInfo_def setStrategyInfo_def)

lemma remember_effect:
  assumes ok: "tables_ok s" and r: "remember_pending E sp n i q s = (None, s1)"
  shows "tables_ok s1" and "sc_at (tb_nt s1) = sc_at (tb_nt s)" and "get_pit s1 = get_pit s"
    and "\<exists>sc. findEffectiveStrategy (take getMaxDepth n) s = Some sc \<and> sc_prefix sc = sp"
    and "\<exists>p. producer_info n s1 = Some p \<and>
      kmp_faceIds p = (case producer_info n s of None \<Rightarrow> [] | Some p0 \<Rightarrow> kmp_faceIds p0) \<and>
      ((case producer_info n s of None \<Rightarrow> None | Some p0 \<Rightarrow> tab_get (kmp_pitEntrys p0) (i_name i)) = None \<longrightarrow>
        tab_get (kmp_pitEntrys p) (i_name i) = Some q)"
proof -
  let ?k = "take getMaxDepth n"
  obtain entry s2 where g: "accessor_get (en_now E) sp n s = (entry, s2)" by (rule prod.exhaust)
  note A = accessor_effect [OF ok, of "en_now E" sp n, unfolded g fst_conv snd_conv]
  have "entry \<noteq> None" using r by (cases entry) (simp_all add: remember_pending_def g)
  then have e: "entry = Some ?k" and "\<exists>sc. findEffectiveStrategy ?k s = Some sc \<and> sc_prefix sc = sp"
    using A(1) by (auto split: if_splits)
  then show "\<exists>sc. findEffectiveStrategy ?k s = Some sc \<and> sc_prefix sc = sp" by blast
  define h :: "meas_entry \<Rightarrow> meas_entry" where "h = (\<lambda>m. let pki = (case mp_info (me_info m) of None \<Rightarrow> new_mp_info | Some p \<Rightarrow> p);
              entrys = (if tab_get (kmp_pitEntrys pki) (i_name i) \<noteq> None then kmp_pitEntrys pki
                        else tab_put (i_name i) q (kmp_pitEntrys pki))
          in m\<lparr>me_info := setStrategyInfo (KiteMobileProducerInfo (pki\<lparr>kmp_pitEntrys := entrys\<rparr>)) (me_info m)\<rparr>)"
  have s1: "s1 = update_meas ?k h s2" using r by (simp add: remember_pending_def g e ok_def h_def)
  have h: "me_name (h m) = me_name m" for m by (simp add: h_def Let_def)
  have m2: "meas_ok s2" using A(4) by (simp add: tables_ok_def)
  show "tables_ok s1" unfolding s1 by (rule meas_tables_ok(2) [OF A(4) h])
  show "sc_at (tb_nt s1) = sc_at (tb_nt s)" by (simp add: s1 A(3))
  show "get_pit s1 = get_pit s" using get_pit_frame(8) [of "en_now E" sp n s] by (simp add: s1 g)
  define m0 where "m0 = (case meas_at (tb_nt s) ?k of Some e \<Rightarrow> e
      | None \<Rightarrow> \<lparr>me_name = ?k, me_expiry = en_now E + getInitialLifetime, me_info = []\<rparr>)"
  have at: "meas_at (tb_nt s1) ?k = Some (h m0)"
    unfolding s1 update_meas_ok(2) [OF m2 h] using A(2) by (simp add: m0_def)
  have old: "mp_info (me_info m0) = producer_info n s"
    by (simp add: m0_def producer_info_def mp_info_def getStrategyInfo_def split: option.split)
  show "\<exists>p. producer_info n s1 = Some p \<and>
      kmp_faceIds p = (case producer_info n s of None \<Rightarrow> [] | Some p0 \<Rightarrow> kmp_faceIds p0) \<and>
      ((case producer_info n s of None \<Rightarrow> None | Some p0 \<Rightarrow> tab_get (kmp_pitEntrys p0) (i_name i)) = None \<longrightarrow>
        tab_get (kmp_pitEntrys p) (i_name i) = Some q)"
    unfolding producer_info_def [of n s1] at
    by (simp add: h_def Let_def mp_info_set old) (simp add: new_mp_info_def split: option.split)
qed

section \<open>Sending pending Interests again\<close>

text \<open>Nothing that was sent is taken back, and the Interest of an entry stays.\<close>

lemma sendInterest_keeps:
  "set (fw_actions s) \<subseteq> set (fw_actions (snd (sendInterest E i f pid s)))"
  "get_pit s p = Some e \<Longrightarrow> \<exists>e'. get_pit (snd (sendInterest E i f pid s)) p = Some e' \<and> pe_interest e' = pe_interest e"
proof -
  show "set (fw_actions s) \<subseteq> set (fw_actions (snd (sendInterest E i f pid s)))"
    by (auto simp: sendInterest_def onOutgoingInterest_def bump_def emit_def update_pit_def)
  show "get_pit s p = Some e \<Longrightarrow> \<exists>e'. get_pit (snd (sendInterest E i f pid s)) p = Some e' \<and> pe_interest e' = pe_interest e"
    by (auto simp: sendInterest_def onOutgoingInterest_def)
qed

lemma sendInterest_sends:
  assumes "\<not> (i_hopLimit i = Some 0 \<and> f_scope f = SCOPE_NON_LOCAL)"
  shows "SendInterest f (i\<lparr>i_pitToken := None\<rparr>) \<in> set (fw_actions (snd (sendInterest E i f pid s)))"
proof -
  have "sendInterest E i f pid s = onOutgoingInterest E (i\<lparr>i_pitToken := None\<rparr>) f pid s"
    by (cases i) (simp add: sendInterest_def)
  then show ?thesis using assms by (auto simp: onOutgoingInterest_def bump_def emit_def update_pit_def)
qed

lemma resend_Cons:
  "resend_pending E f ((n, q) # items) s = resend_pending E f items
     (case get_pit s q of None \<Rightarrow> s | Some e \<Rightarrow> snd (sendInterest E (pe_interest e) f q s))"
  by (simp add: resend_pending_def)

lemma resend_keeps: "set (fw_actions s) \<subseteq> set (fw_actions (resend_pending E f items s))"
proof (induction items arbitrary: s)
  case (Cons x items)
  obtain n q where x: "x = (n, q)" by (cases x)
  have "set (fw_actions s) \<subseteq> set (fw_actions (case get_pit s q of None \<Rightarrow> s | Some e \<Rightarrow> snd (sendInterest E (pe_interest e) f q s)))"
    using sendInterest_keeps(1) by (simp split: option.split)
  then show ?case unfolding x resend_Cons using Cons.IH by blast
qed (simp add: resend_pending_def)

lemma resend_sends:
  assumes "q \<in> snd ` set items" and "get_pit s q = Some e" and "\<not> (i_hopLimit (pe_interest e) = Some 0 \<and> f_scope f = SCOPE_NON_LOCAL)"
  shows "SendInterest f ((pe_interest e)\<lparr>i_pitToken := None\<rparr>) \<in> set (fw_actions (resend_pending E f items s))"
  using assms
proof (induction items arbitrary: s e)
  case (Cons x items)
  obtain n p where x: "x = (n, p)" by (cases x)
  define s1 where "s1 = (case get_pit s p of None \<Rightarrow> s | Some e \<Rightarrow> snd (sendInterest E (pe_interest e) f p s))"
  have step: "resend_pending E f (x # items) s = resend_pending E f items s1" unfolding x resend_Cons s1_def ..
  show ?case
  proof (cases "p = q")
    case True
    then have "SendInterest f ((pe_interest e)\<lparr>i_pitToken := None\<rparr>) \<in> set (fw_actions s1)"
      using Cons.prems(2,3) sendInterest_sends by (simp add: s1_def)
    then show ?thesis unfolding step using resend_keeps by blast
  next
    case False
    obtain e' where "get_pit s1 q = Some e'" "pe_interest e' = pe_interest e"
      using Cons.prems(2) sendInterest_keeps(2) [OF Cons.prems(2), of E _ f p] by (cases "get_pit s p") (auto simp: s1_def)
    then show ?thesis unfolding step using Cons.IH [of s1 e'] Cons.prems(1,3) False by (auto simp: x)
  qed
qed simp

lemma regist_one:
  assumes "f_scope (fr_face r) \<noteq> SCOPE_LOCAL" and "fr_expiry r > en_now E"
    and ok: "tables_ok s" and sc: "findEffectiveStrategy (take getMaxDepth (pa_name pa)) s = Some sc" "sc_prefix sc = sp"
    and p: "producer_info (pa_name pa) s = Some p" "f_id (fr_face r) \<notin> set (kmp_faceIds p)"
  shows "\<exists>s1. regist_loop E sp pa [r] s = resend_pending E (fr_face r) (kmp_pitEntrys p) s1 \<and> get_pit s1 = get_pit s \<and>
    SlAnnounce pa (f_id (fr_face r)) 300000 \<in> set (fw_actions s1)"
proof -
  let ?k = "take getMaxDepth (pa_name pa)"
  define s0 where "s0 = emit (SlAnnounce pa (f_id (fr_face r)) 300000) s"
  have ok0: "tables_ok s0" and at0: "tb_nt s0 = tb_nt s" using ok by (simp add: s0_def) (simp add: s0_def emit_def)
  obtain entry s2 where g: "accessor_get (en_now E) sp (pa_name pa) s0 = (entry, s2)" by (rule prod.exhaust)
  note A = accessor_effect [OF ok0, of "en_now E" sp "pa_name pa", unfolded g fst_conv snd_conv]
  have "findEffectiveStrategy ?k s0 = Some sc" using sc(1) effective_strategy_cong [of s0 s] at0 by simp
  then have e: "entry = Some ?k" using A(1) sc(2) by auto
  define s3 where "s3 = extendLifetime (en_now E) ?k (ms_to_ns (pa_expiration pa)) s2"
  have "meas_ok s2" using A(4) by (simp add: tables_ok_def)
  note X = extendLifetime_ok(2) [OF this, of "en_now E" ?k "ms_to_ns (pa_expiration pa)", folded s3_def]
  have info: "Option.bind (meas_at (tb_nt s3) ?k) (\<lambda>m. mp_info (me_info m)) = Some p"
    using p(1) unfolding X A(2) at0 by (cases "meas_at (tb_nt s) ?k") (simp_all add: producer_info_def)
  define s4 where "s4 = update_meas ?k (\<lambda>m. m\<lparr>me_info := setStrategyInfo (KiteMobileProducerInfo
      (p\<lparr>kmp_faceIds := f_id (fr_face r) # kmp_faceIds p\<rparr>)) (me_info m)\<rparr>) s3"
  have "regist_loop E sp pa [r] s = resend_pending E (fr_face r) (kmp_pitEntrys p) s4"
    using assms(1,2) p(2) by (simp add: s0_def [symmetric] g e s3_def [symmetric] info s4_def [symmetric] Let_def)
  moreover have "get_pit s2 = get_pit s0" using get_pit_frame(8) [of "en_now E" sp "pa_name pa" s0] unfolding g snd_conv .
  then have "get_pit s4 = get_pit s" by (simp add: s4_def s3_def s0_def)
  moreover have "fw_actions s4 = fw_actions s0"
    using A(5) by (simp add: s4_def s3_def update_meas_def extendLifetime_def Let_def split: option.split)
  ultimately show ?thesis by (auto simp: s0_def emit_def)
qed

section \<open>Property\<close>


text \<open>A producer registers from another face while the Interest of the application is pending.\<close>

definition kite_request :: interest where
  "kite_request = interest_a\<lparr>i_name := kite_name\<rparr>"

lemma insert_meas:
  assumes "pit_ok s" and "Pit_insert i s = (r, isNew, s')"
  shows "meas_at (tb_nt s') = meas_at (tb_nt s)"
proof -
  have "meas_at (tb_nt (snd (snd (Pit_insert i s)))) = meas_at (tb_nt s)"
    using assms(1) by (rule Pit_insert_cases [where i = i]) (auto simp: fun_eq_iff)
  then show ?thesis using assms(2) by simp
qed

lemma waiting_and_request:
  obtains s q pid waiting request where "tables_ok s" and "findEffectiveStrategy n s = Some \<lparr>sc_prefix = [], sc_strategy = best_route_instance\<rparr>"
    and "get_pit s q = Some waiting" and "pe_interest waiting = interest_a" and "get_pit s pid = Some request"
    and "pe_in request = [InRecord_update 0 kite_request (InRecord_new face2 kite_request)]" and "producer_info m s = None"
proof -
  have ok: "tables_ok routed" using routed_inv by (simp add: fwd_inv_def tables_inv_def)
  then have pit: "pit_ok routed" by (simp add: tables_ok_def)
  have "Pit_find interest_a routed = None"
    using Pit_find_iff [OF pit, of interest_a] routed_frame(4) by (cases "Pit_find interest_a routed") auto
  then obtain sA where A: "Pit_insert interest_a routed = (Some (tb_nextPit routed), True, sA)" "frame sA = frame routed"
    and gA: "\<And>p. get_pit sA p = (if p = tb_nextPit routed then Some ((PitEntry_new interest_a)\<lparr>pe_nte := Some (take (nteDepth (i_name interest_a)) (i_name interest_a))\<rparr>)
      else None)"
    using Pit_insert_new [OF pit, of interest_a] by (auto simp: routed_frame)
  have okA: "tables_ok sA" by (rule insert_tables_ok [OF ok A(1)])
  then have pitA: "pit_ok sA" by (simp add: tables_ok_def)
  have "\<not> matchesInterest interest_a kite_request"
    by (simp add: matchesInterest_def kite_request_def kite_name_def interest_a_def)
  then have "\<not> (\<exists>e. get_pit sA p = Some e \<and> matchesInterest (pe_interest e) kite_request)" for p
    by (simp add: gA PitEntry_new_def)
  then have "Pit_find kite_request sA = None"
    using Pit_find_iff [OF pitA, of kite_request] by (cases "Pit_find kite_request sA") blast+
  then obtain sB where B: "Pit_insert kite_request sA = (Some (tb_nextPit sA), True, sB)" "frame sB = frame sA"
    and gB: "\<And>p. get_pit sB p = (if p = tb_nextPit sA then Some ((PitEntry_new kite_request)\<lparr>pe_nte := Some (take (nteDepth (i_name kite_request)) (i_name kite_request))\<rparr>)
      else get_pit sA p)"
    using Pit_insert_new [OF pitA, of kite_request] by blast
  have ne: "tb_nextPit routed \<noteq> tb_nextPit sA"
    using pit_okD(5) [OF pitA, of "tb_nextPit routed"] gA [of "tb_nextPit routed"] by auto
  define s where "s = update_pit (tb_nextPit sA) (insertOrUpdateInRecord 0 face2 kite_request) sB"
  have "tables_ok s"
    unfolding s_def by (rule update_pit_tables_ok [OF insert_tables_ok [OF okA B(1)]]) simp_all
  moreover have "sc_at (tb_nt s) = sc_at (tb_nt routed)" using A(2) B(2) by (simp add: s_def frame_def update_pit_def)
  then have "findEffectiveStrategy n s = Some \<lparr>sc_prefix = [], sc_strategy = best_route_instance\<rparr>"
    using effective_strategy_cong [of s routed] routed_strategy by simp
  moreover have "meas_at (tb_nt s) = meas_at (tb_nt routed)"
    using insert_meas [OF pit A(1)] insert_meas [OF pitA B(1)] by (simp add: s_def update_pit_def)
  then have "producer_info m s = None"
    by (simp add: producer_info_def routed_def addNextHop_frame Forwarder_new_at)
  ultimately show thesis
    using that [of s "tb_nextPit routed" _ "tb_nextPit sA"] gA [of "tb_nextPit routed"] gB [of "tb_nextPit routed"] gB [of "tb_nextPit sA"] ne
    by (simp add: s_def PitEntry_new_def insertOrUpdateInRecord_def)
qed


section \<open>Faults\<close>

lemma kite_straight_fault:
  assumes "get_pit s pid = Some e" and "getInRecord e f \<noteq> None"
    and "find (\<lambda>h. isNextHopEligible f i h e False 0) hs = Some h" and "i_hopLimit i = Some 0" and "f_scope (nh_face h) = SCOPE_NON_LOCAL"
  shows "\<exists>s'. kite_straight E i f pid hint mp hs False s = (True, (Some NullDereference, s'))"
  using assms(3)
proof (induction hs)
  case (Cons x hs)
  show ?case
  proof (cases "isNextHopEligible f i x e False 0")
    case True
    then have "sendInterest E i (nh_face x) pid t = (False, t)" for t
      using Cons.prems assms(4,5) by (simp add: sendInterest_def onOutgoingInterest_def)
    then show ?thesis using assms(1,2) True by (simp add: Let_def)
  next
    case False
    then show ?thesis using Cons assms(1) by simp
  qed
qed simp

text \<open>C36: the KITE strategy dereferences a null pointer.  When an Interest with a KITE hint arrives with
  HopLimit 1, so that 0 is left, and the first eligible nexthop towards the producer is not local,
  the pipeline sends nothing and returns no out-record, which the strategy uses unchecked.\<close>

theorem kite_hop_limit_fault:
  assumes "get_pit s pid = Some e" and "getInRecord e f \<noteq> None" and "kiteHint (i_hint i) \<noteq> []"
    and "find (\<lambda>h. isNextHopEligible f i h e False 0) (fe_nextHops (lookupFib e s)) = Some h"
    and "i_hopLimit i = Some 0" and "f_scope (nh_face h) = SCOPE_NON_LOCAL"
  shows "fst (kite_afterReceiveInterest E sp i f pid s) = Some NullDereference"
proof -
  obtain s' where "kite_straight E i f pid (kiteHint (i_hint i)) (fe_prefix (lookupFib e s)) (fe_nextHops (lookupFib e s)) False s =
      (True, (Some NullDereference, s'))"
    using kite_straight_fault [OF assms(1,2,4-6)] by blast
  then show ?thesis using assms(1,3) by (simp add: kite_afterReceiveInterest_def Let_def and_then_def)
qed

theorem kite_hop_limit_fault_witness:
  "\<exists>s. reachable 0 s \<and> fst (kite_afterReceiveInterest (env_at 0) [] (interest_7\<lparr>i_hint := [[KITE_KEYWORD, Component 8 [82]]], i_hopLimit := Some 0\<rparr>)
     app (tb_nextPit routed) s) = Some NullDereference"
proof -
  let ?i = "interest_7\<lparr>i_hint := [[KITE_KEYWORD, Component 8 [82]]], i_hopLimit := Some 0\<rparr>"
  obtain s where s: "reachable 0 s" "frame s = frame routed" "get_pit s (tb_nextPit routed) = Some pending_7" using asked by auto
  have pit: "pit_ok s" using fwd_inv_reachable [OF s(1), of "env_at 0"] by (simp add: env_at_def fwd_inv_def tables_inv_pit)
  have "lookupFib pending_7 s = Fib_findLongestPrefixMatch name_a s"
    using lookupFib_name_lookup [OF pit s(3)] by (simp add: pending_7_simps interest_7_def interest_a_def name_a_def)
  also have "\<dots> = Fib_findLongestPrefixMatch name_a routed" using Fib_lookup_cong [of s routed] s(2) by (simp add: frame_def)
  finally have hops: "fe_nextHops (lookupFib pending_7 s) = [\<lparr>nh_face = face1, nh_cost = 10\<rparr>]" by (simp add: routed_lookup)
  have "fst (kite_afterReceiveInterest (env_at 0) [] ?i app (tb_nextPit routed) s) = Some NullDereference"
  proof (rule kite_hop_limit_fault [OF s(3)])
    show "kiteHint (i_hint ?i) \<noteq> []" by (simp add: kiteHint_def name_append_def getSubName_def)
    show "find (\<lambda>h. isNextHopEligible app ?i h pending_7 False 0) (fe_nextHops (lookupFib pending_7 s)) = Some \<lparr>nh_face = face1, nh_cost = 10\<rparr>"
      by (simp add: hops eligible_usable usable_def app_def face1_def wouldViolateScope_def interest_7_def interest_a_def name_a_global)
  qed (simp_all add: pending_7_simps getInRecord_def face1_def)
  then show ?thesis using s(1) by blast
qed

end
