(* ===== verification/Rib_Table.thy ===== *)
theory Rib_Table
  imports Strategies
begin

text \<open>
  The routing information base (\<^verbatim>\<open>rib/route.cpp\<close>, \<^verbatim>\<open>rib/rib-entry.cpp\<close>, \<^verbatim>\<open>rib/rib.cpp\<close>).
  The table is an ordered map from names to entries, which are linked as a tree: the
  parent of an entry is the entry of its longest proper prefix.  A pointer to an entry is
  its name; the face lookup table, which outlives entries, refers to them by identity.
  The events that unregister a route on expiration are not part of the table.
\<close>

unbundle bit_operations_syntax

section \<open>Routes\<close>

record route =
  rt_faceId :: nat
  rt_origin :: nat
  rt_cost :: nat
  rt_flags :: "64 word"
  rt_expires :: "int option"
  rt_announcement :: "prefix_ann option"
  rt_annExpires :: int

definition ROUTE_ORIGIN_PREFIXANN :: nat where "ROUTE_ORIGIN_PREFIXANN = 129"
definition ROUTE_FLAG_CHILD_INHERIT :: "64 word" where "ROUTE_FLAG_CHILD_INHERIT = 1"
definition ROUTE_FLAG_CAPTURE :: "64 word" where "ROUTE_FLAG_CAPTURE = 2"
definition PA_ROUTE_COST :: nat where "PA_ROUTE_COST = 2048"

definition isChildInherit :: "route \<Rightarrow> bool" where
  "isChildInherit r \<longleftrightarrow> rt_flags r AND ROUTE_FLAG_CHILD_INHERIT \<noteq> 0"

definition isRibCapture :: "route \<Rightarrow> bool" where
  "isRibCapture r \<longleftrightarrow> rt_flags r AND ROUTE_FLAG_CAPTURE \<noteq> 0"

text \<open>The validity period is given in nanoseconds of the system clock.\<close>

definition computeExpiration :: "int \<Rightarrow> int \<Rightarrow> prefix_ann \<Rightarrow> int" where
  "computeExpiration sysNow now ann =
     (let validityEnd = (case pa_validity ann of
            None \<Rightarrow> 2 ^ 63 - 1
          | Some (notBefore, notAfter) \<Rightarrow>
              if \<not> (notBefore \<le> sysNow \<and> sysNow \<le> notAfter) then 0 else notAfter - sysNow)
      in now + min validityEnd (ms_to_ns (pa_expiration ann)))"

definition Route_of_announcement :: "int \<Rightarrow> int \<Rightarrow> prefix_ann \<Rightarrow> nat \<Rightarrow> route" where
  "Route_of_announcement sysNow now ann faceId =
     \<lparr>rt_faceId = faceId, rt_origin = ROUTE_ORIGIN_PREFIXANN, rt_cost = PA_ROUTE_COST, rt_flags = ROUTE_FLAG_CHILD_INHERIT,
      rt_expires = Some (computeExpiration sysNow now ann), rt_announcement = Some ann,
      rt_annExpires = computeExpiration sysNow now ann\<rparr>"

section \<open>Entries\<close>

record rib_entry =
  re_id :: nat
  re_name :: name
  re_children :: "name list"
  re_parent :: "name option"
  re_routes :: "route list"
  re_inherited :: "route list"
  re_nRoutesWithCaptureSet :: "64 word"

definition compareFaceIdAndOrigin :: "route \<Rightarrow> route \<Rightarrow> bool" where
  "compareFaceIdAndOrigin lhs rhs \<longleftrightarrow> rt_faceId lhs = rt_faceId rhs \<and> rt_origin lhs = rt_origin rhs"

definition findRoute :: "route \<Rightarrow> rib_entry \<Rightarrow> route option" where
  "findRoute r e = find (\<lambda>x. compareFaceIdAndOrigin x r) (re_routes e)"

definition insertRoute :: "route \<Rightarrow> rib_entry \<Rightarrow> bool \<times> rib_entry" where
  "insertRoute r e =
     (case findRoute r e of
        None \<Rightarrow> (True, e\<lparr>re_nRoutesWithCaptureSet := (if isRibCapture r then re_nRoutesWithCaptureSet e + 1 else re_nRoutesWithCaptureSet e),
                        re_routes := re_routes e @ [r]\<rparr>)
      | Some _ \<Rightarrow> (False, e))"

text \<open>The assignment to the route that was found.\<close>

fun replace_route :: "route \<Rightarrow> route list \<Rightarrow> route list" where
  "replace_route r [] = []"
| "replace_route r (x # xs) = (if compareFaceIdAndOrigin x r then r # xs else x # replace_route r xs)"

fun remove_route :: "route \<Rightarrow> route list \<Rightarrow> route list" where
  "remove_route r [] = []"
| "remove_route r (x # xs) = (if compareFaceIdAndOrigin x r then xs else x # remove_route r xs)"

definition eraseRoute :: "route \<Rightarrow> rib_entry \<Rightarrow> rib_entry" where
  "eraseRoute r e =
     (case findRoute r e of
        None \<Rightarrow> e
      | Some x \<Rightarrow> e\<lparr>re_nRoutesWithCaptureSet := (if isRibCapture x then re_nRoutesWithCaptureSet e - 1 else re_nRoutesWithCaptureSet e),
                    re_routes := remove_route r (re_routes e)\<rparr>)"

definition hasFaceId :: "nat \<Rightarrow> rib_entry \<Rightarrow> bool" where
  "hasFaceId f e \<longleftrightarrow> list_ex (\<lambda>r. rt_faceId r = f) (re_routes e)"

definition re_addInheritedRoute :: "route \<Rightarrow> rib_entry \<Rightarrow> rib_entry" where
  "re_addInheritedRoute r e = e\<lparr>re_inherited := re_inherited e @ [r]\<rparr>"

definition re_removeInheritedRoute :: "route \<Rightarrow> rib_entry \<Rightarrow> rib_entry" where
  "re_removeInheritedRoute r e = e\<lparr>re_inherited := filter (\<lambda>x. rt_faceId x \<noteq> rt_faceId r) (re_inherited e)\<rparr>"

definition hasInheritedRoute :: "route \<Rightarrow> rib_entry \<Rightarrow> bool" where
  "hasInheritedRoute r e \<longleftrightarrow> list_ex (\<lambda>x. rt_faceId x = rt_faceId r) (re_inherited e)"

definition hasCapture :: "rib_entry \<Rightarrow> bool" where
  "hasCapture e \<longleftrightarrow> re_nRoutesWithCaptureSet e > 0"

definition hasChildInheritOnFaceId :: "nat \<Rightarrow> rib_entry \<Rightarrow> bool" where
  "hasChildInheritOnFaceId f e \<longleftrightarrow> list_ex (\<lambda>r. rt_faceId r = f \<and> isChildInherit r) (re_routes e)"

text \<open>The first route of lowest cost in a list.\<close>

fun lowest_cost :: "route option \<Rightarrow> route list \<Rightarrow> route option" where
  "lowest_cost candidate [] = candidate"
| "lowest_cost candidate (r # rs) =
     lowest_cost (case candidate of None \<Rightarrow> Some r | Some c \<Rightarrow> if rt_cost r < rt_cost c then Some r else Some c) rs"

definition getRouteWithLowestCostByFaceId :: "nat \<Rightarrow> rib_entry \<Rightarrow> route option" where
  "getRouteWithLowestCostByFaceId f e = lowest_cost None (filter (\<lambda>r. rt_faceId r = f) (re_routes e))"

text \<open>Among routes of the same cost the order of the list decides here.\<close>

definition getRouteWithSecondLowestCostByFaceId :: "nat \<Rightarrow> rib_entry \<Rightarrow> route option" where
  "getRouteWithSecondLowestCostByFaceId f e =
     (let matches = filter (\<lambda>r. rt_faceId r = f) (re_routes e) in
      if length matches < 2 then None else Some (sort_key rt_cost matches ! 1))"

definition getRouteWithLowestCostAndChildInheritByFaceId :: "nat \<Rightarrow> rib_entry \<Rightarrow> route option" where
  "getRouteWithLowestCostAndChildInheritByFaceId f e =
     lowest_cost None (filter (\<lambda>r. rt_faceId r = f \<and> isChildInherit r) (re_routes e))"

text \<open>
  The announcement for an entry: that of the announced route expiring last, or a new one
  for the name of the entry.  The clock ticks from \<open>- 2 ^ 63\<close> to \<open>2 ^ 63 - 1\<close>; milliseconds are
  truncated towards zero.
\<close>

definition announcement_step :: "route \<Rightarrow> route option \<times> int \<Rightarrow> route option \<times> int" where
  "announcement_step r st =
     (case st of (best, expiry) \<Rightarrow>
        (case rt_expires r of
           None \<Rightarrow> (best, 2 ^ 63 - 1)
         | Some x \<Rightarrow>
             (if rt_announcement r \<noteq> None \<and> (case Option.bind best rt_expires of None \<Rightarrow> True | Some y \<Rightarrow> x > y)
              then Some r else best, max expiry x)))"

definition getPrefixAnnouncement :: "int \<Rightarrow> int \<Rightarrow> int \<Rightarrow> rib_entry \<Rightarrow> prefix_ann" where
  "getPrefixAnnouncement now minExpiration maxExpiration e =
     (case fold announcement_step (re_routes e) (None, - (2 ^ 63)) of (best, expiry) \<Rightarrow>
        (case Option.bind best rt_announcement of
           Some ann \<Rightarrow> ann
         | None \<Rightarrow>
             (let left = sgn (expiry - now) * (\<bar>expiry - now\<bar> div 1000000) in
              \<lparr>pa_name = re_name e, pa_expiration = min maxExpiration (max minExpiration left), pa_validity = None\<rparr>)))"

section \<open>The table\<close>

datatype rib_action = REGISTER | UNREGISTER | REMOVE_FACE

record rib_update =
  ru_action :: rib_action
  ru_name :: name
  ru_route :: route

type_synonym rib_table = "(name \<times> rib_entry) list"

record rib =
  rb_table :: rib_table
  rb_faceEntries :: "(nat \<times> nat) list"
  rb_nItems :: "64 word"
  rb_nextId :: nat
  rb_updateBatches :: "rib_update list"
  rb_isUpdateInProgress :: bool

definition Rib_new :: rib where
  "Rib_new = \<lparr>rb_table = [], rb_faceEntries = [], rb_nItems = 0, rb_nextId = 0, rb_updateBatches = [], rb_isUpdateInProgress = False\<rparr>"

definition Rib_find_route :: "name \<Rightarrow> route \<Rightarrow> rib \<Rightarrow> route option" where
  "Rib_find_route p r rb = Option.bind (tab_get (rb_table rb) p) (findRoute r)"

primrec parent_loop :: "name \<Rightarrow> rib_table \<Rightarrow> nat \<Rightarrow> name option" where
  "parent_loop n t 0 = None"
| "parent_loop n t (Suc i) = (if tab_get t (take i n) \<noteq> None then Some (take i n) else parent_loop n t i)"

definition findParent :: "name \<Rightarrow> rib_table \<Rightarrow> name option" where
  "findParent n t = parent_loop n t (length n)"

definition Rib_findLongestPrefix :: "name \<Rightarrow> route \<Rightarrow> rib \<Rightarrow> route option" where
  "Rib_findLongestPrefix p r rb =
     (case Rib_find_route p r rb of
        Some x \<Rightarrow> Some x
      | None \<Rightarrow> (case findParent p (rb_table rb) of None \<Rightarrow> None | Some q \<Rightarrow> Rib_find_route q r rb))"

definition findDescendants :: "name \<Rightarrow> rib_table \<Rightarrow> name list" where
  "findDescendants p t =
     (case dropWhile (\<lambda>x. fst x \<noteq> p) t of
        [] \<Rightarrow> []
      | _ # rest \<Rightarrow> map fst (takeWhile (\<lambda>x. isPrefixOf p (fst x)) rest))"

definition findDescendantsForNonInsertedName :: "name \<Rightarrow> rib_table \<Rightarrow> name list" where
  "findDescendantsForNonInsertedName p t = map fst (filter (\<lambda>x. isPrefixOf p (fst x)) t)"

definition addChild :: "name \<Rightarrow> name \<Rightarrow> rib_table \<Rightarrow> rib_table" where
  "addChild this child t =
     tab_modify this (\<lambda>e. e\<lparr>re_children := re_children e @ [child]\<rparr>) (tab_modify child (\<lambda>e. e\<lparr>re_parent := Some this\<rparr>) t)"

definition removeChild :: "name \<Rightarrow> name \<Rightarrow> rib_table \<Rightarrow> rib_table" where
  "removeChild this child t =
     tab_modify this (\<lambda>e. e\<lparr>re_children := removeAll child (re_children e)\<rparr>) (tab_modify child (\<lambda>e. e\<lparr>re_parent := None\<rparr>) t)"

text \<open>A new key takes its place in the order of the map.\<close>

definition rib_emplace :: "name \<Rightarrow> rib_entry \<Rightarrow> rib_table \<Rightarrow> rib_table" where
  "rib_emplace n e t = takeWhile (\<lambda>x. fst x < n) t @ (n, e) # dropWhile (\<lambda>x. fst x < n) t"

text \<open>The new entry takes over the children of its parent that extend it.\<close>

definition adopt :: "name \<Rightarrow> name option \<Rightarrow> name \<Rightarrow> rib_table \<Rightarrow> rib_table" where
  "adopt p parent child t =
     (if Option.bind (tab_get t child) re_parent = parent
      then addChild p child (case parent of None \<Rightarrow> t | Some q \<Rightarrow> removeChild q child t)
      else t)"

definition link_entry :: "name \<Rightarrow> rib_table \<Rightarrow> rib_table" where
  "link_entry p t =
     (let parent = findParent p t;
          t1 = (case parent of None \<Rightarrow> t | Some q \<Rightarrow> addChild q p t)
      in fold (adopt p parent) (findDescendants p t1) t1)"

definition Rib_insert :: "name \<Rightarrow> route \<Rightarrow> rib \<Rightarrow> rib" where
  "Rib_insert p r rb =
     (case tab_get (rb_table rb) p of
        Some entry \<Rightarrow>
         (case insertRoute r entry of
            (True, _) \<Rightarrow>
              rb\<lparr>rb_table := tab_modify p (\<lambda>e. snd (insertRoute r e)) (rb_table rb), rb_nItems := rb_nItems rb + 1,
                 rb_faceEntries := rb_faceEntries rb @ [(rt_faceId r, re_id entry)]\<rparr>
          | (False, _) \<Rightarrow>
              rb\<lparr>rb_table := tab_modify p (\<lambda>e. e\<lparr>re_routes := replace_route r (re_routes e)\<rparr>) (rb_table rb)\<rparr>)
      | None \<Rightarrow>
         (let entry = snd (insertRoute r \<lparr>re_id = rb_nextId rb, re_name = p, re_children = [], re_parent = None, re_routes = [],
                            re_inherited = [], re_nRoutesWithCaptureSet = 0\<rparr>)
          in rb\<lparr>rb_table := link_entry p (rib_emplace p entry (rb_table rb)), rb_nItems := rb_nItems rb + 1,
                rb_faceEntries := rb_faceEntries rb @ [(rt_faceId r, rb_nextId rb)], rb_nextId := rb_nextId rb + 1\<rparr>))"

definition hand_over :: "name \<Rightarrow> name option \<Rightarrow> name \<Rightarrow> rib_table \<Rightarrow> rib_table" where
  "hand_over p parent child t =
     (case parent of None \<Rightarrow> removeChild p child t | Some q \<Rightarrow> addChild q child (removeChild p child t))"

definition eraseEntry :: "name \<Rightarrow> rib_table \<Rightarrow> rib_table" where
  "eraseEntry p t =
     (case tab_get t p of
        None \<Rightarrow> t
      | Some entry \<Rightarrow>
         (let parent = re_parent entry;
              t1 = (case parent of None \<Rightarrow> t | Some q \<Rightarrow> removeChild q p t)
          in tab_del p (fold (hand_over p parent) (re_children entry) t1)))"

definition Rib_erase :: "name \<Rightarrow> route \<Rightarrow> rib \<Rightarrow> rib" where
  "Rib_erase p r rb =
     (case tab_get (rb_table rb) p of
        None \<Rightarrow> rb
      | Some entry \<Rightarrow>
         (case findRoute r entry of
            None \<Rightarrow> rb
          | Some _ \<Rightarrow>
             (let entry' = eraseRoute r entry;
                  t1 = tab_modify p (eraseRoute r) (rb_table rb);
                  faces = (if \<not> hasFaceId (rt_faceId r) entry' then remove1 (rt_faceId r, re_id entry) (rb_faceEntries rb)
                           else rb_faceEntries rb)
              in rb\<lparr>rb_table := (if re_routes entry' = [] then eraseEntry p t1 else t1), rb_nItems := rb_nItems rb - 1,
                    rb_faceEntries := faces\<rparr>)))"

text \<open>
  A set of routes ordered by face: of the routes of one face the first inserted is kept.
  The loop goes up along the parent pointers, at most once through every entry.
\<close>

definition routes_insert :: "route \<Rightarrow> route list \<Rightarrow> route list" where
  "routes_insert r rs = (if list_ex (\<lambda>x. rt_faceId x = rt_faceId r) rs then rs else insort_key rt_faceId r rs)"

definition routes_find :: "route \<Rightarrow> route list \<Rightarrow> route option" where
  "routes_find r rs = find (\<lambda>x. rt_faceId x = rt_faceId r) rs"

primrec ancestor_loop :: "nat \<Rightarrow> name option \<Rightarrow> route list \<Rightarrow> rib_table \<Rightarrow> route list" where
  "ancestor_loop 0 parent rs t = rs"
| "ancestor_loop (Suc k) parent rs t =
     (case Option.bind parent (tab_get t) of
        None \<Rightarrow> rs
      | Some e \<Rightarrow>
         (let rs' = fold routes_insert (filter isChildInherit (re_routes e)) rs in
          if hasCapture e then rs' else ancestor_loop k (re_parent e) rs' t))"

definition getAncestorRoutes :: "rib_entry \<Rightarrow> rib_table \<Rightarrow> route list" where
  "getAncestorRoutes e t = ancestor_loop (length t) (re_parent e) [] t"

definition getAncestorRoutes_name :: "name \<Rightarrow> rib_table \<Rightarrow> route list" where
  "getAncestorRoutes_name n t = ancestor_loop (length t) (findParent n t) [] t"

definition modifyInheritedRoutes :: "rib_update list \<Rightarrow> rib_table \<Rightarrow> rib_table" where
  "modifyInheritedRoutes us t =
     fold (\<lambda>u t. case ru_action u of
                   REGISTER \<Rightarrow> tab_modify (ru_name u) (re_addInheritedRoute (ru_route u)) t
                 | UNREGISTER \<Rightarrow> tab_modify (ru_name u) (re_removeInheritedRoute (ru_route u)) t
                 | REMOVE_FACE \<Rightarrow> t) us t"


section \<open>Parents\<close>

definition has_prefix :: "name \<Rightarrow> rib_table \<Rightarrow> bool" where
  "has_prefix n t \<longleftrightarrow> tab_get t n \<noteq> None"

lemma parent_loop_found:
  "parent_loop n t i = Some q \<Longrightarrow>
     \<exists>j<i. q = take j n \<and> has_prefix (take j n) t \<and> (\<forall>k<i. has_prefix (take k n) t \<longrightarrow> k \<le> j)"
proof (induction i)
  case (Suc i)
  show ?case
  proof (cases "has_prefix (take i n) t")
    case True
    with Suc.prems have "q = take i n" by (simp add: has_prefix_def split: if_splits)
    with True show ?thesis using less_Suc_eq_le by blast
  next
    case False
    with Suc.prems have "parent_loop n t i = Some q" by (simp add: has_prefix_def split: if_splits)
    from Suc.IH [OF this] obtain j where j: "j < i" "q = take j n" "has_prefix (take j n) t"
      and le: "\<And>k. k < i \<Longrightarrow> has_prefix (take k n) t \<Longrightarrow> k \<le> j" by blast
    have "k \<le> j" if "k < Suc i" "has_prefix (take k n) t" for k
      using that False le by (cases "k = i") auto
    with j show ?thesis using less_SucI by blast
  qed
qed simp

lemma parent_loop_None: "parent_loop n t i = None \<longleftrightarrow> (\<forall>j<i. \<not> has_prefix (take j n) t)"
  by (induction i) (auto simp: has_prefix_def less_Suc_eq)

lemma strict_prefix_take: "strict_prefix q n \<longleftrightarrow> (\<exists>j<length n. q = take j n)"
proof
  assume "strict_prefix q n"
  then obtain z where "n = q @ z" "z \<noteq> []" by (auto simp: strict_prefix_def prefix_def)
  then have "length q < length n" "q = take (length q) n" by auto
  then show "\<exists>j<length n. q = take j n" by blast
next
  assume "\<exists>j<length n. q = take j n"
  then obtain j where "j < length n" "q = take j n" by blast
  then have "prefix q n" "length q \<noteq> length n" by (simp_all add: take_is_prefix)
  then show "strict_prefix q n" by (auto simp: strict_prefix_def)
qed

lemma findParent_None: "findParent n t = None \<longleftrightarrow> (\<forall>m. strict_prefix m n \<longrightarrow> \<not> has_prefix m t)"
  unfolding findParent_def parent_loop_None strict_prefix_take by blast

lemma findParent_found:
  assumes "findParent n t = Some q"
  shows "strict_prefix q n" "has_prefix q t" "strict_prefix m n \<Longrightarrow> has_prefix m t \<Longrightarrow> prefix m q"
proof -
  from parent_loop_found [OF assms [unfolded findParent_def]] obtain j
    where j: "j < length n" "q = take j n" "has_prefix (take j n) t"
    and le: "\<And>k. k < length n \<Longrightarrow> has_prefix (take k n) t \<Longrightarrow> k \<le> j" by blast
  then show "strict_prefix q n" "has_prefix q t" using strict_prefix_take by blast+
  assume "strict_prefix m n" "has_prefix m t"
  then obtain k where k: "k < length n" "m = take k n" using strict_prefix_take by blast
  with le \<open>has_prefix m t\<close> have "k \<le> j" by blast
  then have "take k (take j n) = take k n" by (simp add: min_def)
  with k j show "prefix m q" using take_is_prefix by metis
qed

lemma findParent_is:
  assumes "strict_prefix q n" "has_prefix q t" "\<And>m. strict_prefix m n \<Longrightarrow> has_prefix m t \<Longrightarrow> prefix m q"
  shows "findParent n t = Some q"
proof (cases "findParent n t")
  case None
  with assms show ?thesis by (simp add: findParent_None)
next
  case (Some r)
  note r = findParent_found [OF this]
  have "prefix r q" "prefix q r" using assms r by blast+
  with Some show ?thesis by (simp add: prefix_order.antisym)
qed

lemma findParent_Some:
  "findParent n t = Some q \<longleftrightarrow>
     strict_prefix q n \<and> has_prefix q t \<and> (\<forall>m. strict_prefix m n \<and> has_prefix m t \<longrightarrow> prefix m q)"
  using findParent_found [of n t q] findParent_is [of q n t] by blast

lemma findParent_cong: "(\<And>m. has_prefix m t = has_prefix m t') \<Longrightarrow> findParent n t = findParent n t'"
proof -
  assume "\<And>m. has_prefix m t = has_prefix m t'"
  then have "parent_loop n t i = parent_loop n t' i" for i
    by (induction i) (simp_all add: has_prefix_def)
  then show ?thesis by (simp add: findParent_def)
qed

lemma prefixes_chain: "prefix a n \<Longrightarrow> prefix b n \<Longrightarrow> prefix a b \<or> strict_prefix b a"
  by (metis prefix_same_cases strict_prefix_def)

text \<open>A new name is the parent of the names below it whose parent was its own parent.\<close>

lemma findParent_insert:
  assumes new: "\<not> has_prefix p t" and has: "\<And>m. has_prefix m t' \<longleftrightarrow> m = p \<or> has_prefix m t"
  shows "findParent n t' = (if strict_prefix p n \<and> findParent n t = findParent p t then Some p else findParent n t)"
proof (cases "strict_prefix p n")
  case False
  have "findParent n t' = findParent n t"
  proof (cases "findParent n t")
    case None
    then have "findParent n t' = None" using False by (auto simp: findParent_None has)
    with None show ?thesis by simp
  next
    case (Some q)
    then have "findParent n t' = Some q" using False by (auto simp: findParent_Some has)
    with Some show ?thesis by simp
  qed
  with False show ?thesis by simp
next
  case below: True
  show ?thesis
  proof (cases "findParent n t")
    case None
    with below have "findParent p t = None"
      by (auto simp: findParent_None dest: prefix_order.less_trans)
    moreover have "findParent n t' = Some p"
      using None below by (auto simp: findParent_Some findParent_None has)
    ultimately show ?thesis using None below by simp
  next
    case (Some q)
    then have q: "strict_prefix q n" "has_prefix q t" and
      longest: "\<And>m. strict_prefix m n \<Longrightarrow> has_prefix m t \<Longrightarrow> prefix m q"
      by (auto simp: findParent_Some)
    have "q \<noteq> p" using q new by blast
    show ?thesis
    proof (cases "prefix p q")
      case True
      with \<open>q \<noteq> p\<close> have pq: "strict_prefix p q" by (auto simp: strict_prefix_def)
      then have "findParent p t \<noteq> Some q"
        by (auto simp: findParent_Some dest: prefix_order.less_trans)
      moreover have "findParent n t' = Some q"
        using q longest True by (auto simp: findParent_Some has)
      ultimately show ?thesis using Some by (simp add: eq_commute)
    next
      case False
      with q below have "strict_prefix q p"
        using prefixes_chain [of p n q] by (auto simp: strict_prefix_def)
      moreover have "findParent n t' = Some p"
        using below longest \<open>strict_prefix q p\<close> by (auto simp: findParent_Some has strict_prefix_def intro: prefix_order.trans)
      moreover have "findParent p t = Some q"
        using \<open>strict_prefix q p\<close> q longest below by (auto simp: findParent_Some dest: prefix_order.less_trans)
      ultimately show ?thesis using Some below by simp
    qed
  qed
qed

text \<open>The names below an erased name are handed to its parent.\<close>

lemma findParent_erase:
  assumes has: "\<And>m. has_prefix m t' \<longleftrightarrow> m \<noteq> p \<and> has_prefix m t"
  shows "findParent n t' = (if findParent n t = Some p then findParent p t else findParent n t)"
proof (cases "has_prefix p t")
  case False
  then have "findParent n t \<noteq> Some p" "findParent n t' = findParent n t"
    by (auto simp: findParent_Some has intro: findParent_cong)
  then show ?thesis by simp
next
  case True
  have "\<not> has_prefix p t'" by (simp add: has)
  moreover have "has_prefix m t \<longleftrightarrow> m = p \<or> has_prefix m t'" for m using True has by auto
  ultimately have ins: "findParent m t = (if strict_prefix p m \<and> findParent m t' = findParent p t' then Some p else findParent m t')" for m
    by (rule findParent_insert)
  have no: "findParent n t' \<noteq> Some p" by (simp add: findParent_Some has)
  have p: "findParent p t = findParent p t'" unfolding ins [of p] by simp
  show ?thesis unfolding p ins [of n] using no by (simp split: if_split)
qed

section \<open>The links of the tree\<close>

definition links_ok :: "rib_table \<Rightarrow> bool" where
  "links_ok t \<longleftrightarrow>
     (\<forall>n e. tab_get t n = Some e \<longrightarrow>
        re_name e = n \<and> re_parent e = findParent n t \<and> distinct (re_children e) \<and>
        set (re_children e) = {c. has_prefix c t \<and> findParent c t = Some n})"

lemma keys_addChild [simp]: "map fst (addChild p c t) = map fst t"
  by (simp add: addChild_def)

lemma keys_removeChild [simp]: "map fst (removeChild p c t) = map fst t"
  by (simp add: removeChild_def)

lemma keys_adopt [simp]: "map fst (adopt p q c t) = map fst t"
  by (simp add: adopt_def split: option.split)

lemma keys_fold: "(\<And>c t. map fst (f c t) = map fst t) \<Longrightarrow> map fst (fold f cs t) = map fst t"
  by (induction cs arbitrary: t) simp_all

lemma has_prefix_keys: "has_prefix n t \<longleftrightarrow> n \<in> set (map fst t)"
  by (simp add: has_prefix_def tab_get_None_keys)

lemma has_prefix_cong: "map fst t = map fst t' \<Longrightarrow> has_prefix n t = has_prefix n t'"
  by (simp add: has_prefix_keys)

definition moved :: "name \<Rightarrow> name option \<Rightarrow> name list \<Rightarrow> rib_table \<Rightarrow> name list" where
  "moved p parent cs t = filter (\<lambda>c. Option.bind (tab_get t c) re_parent = parent) cs"

lemma get_adopt:
  assumes "c \<noteq> p" "parent \<noteq> Some p" "parent \<noteq> Some c"
  shows "tab_get (adopt p parent c t) n =
    (if Option.bind (tab_get t c) re_parent = parent
     then map_option (\<lambda>e. e\<lparr>re_parent := if n = c then Some p else re_parent e,
            re_children := if n = p then re_children e @ [c] else if parent = Some n then removeAll c (re_children e) else re_children e\<rparr>)
          (tab_get t n)
     else tab_get t n)"
  using assms
  by (cases "tab_get t n") (auto simp: adopt_def addChild_def removeChild_def split: option.split)

lemma get_adopt_all:
  assumes "distinct cs" "p \<notin> set cs" "parent \<noteq> Some p" "parent \<notin> Some ` set cs"
  shows "tab_get (fold (adopt p parent) cs t) n =
    map_option (\<lambda>e. e\<lparr>re_parent := if n \<in> set (moved p parent cs t) then Some p else re_parent e,
        re_children := if n = p then re_children e @ moved p parent cs t
                       else if parent = Some n then filter (\<lambda>c. c \<notin> set (moved p parent cs t)) (re_children e) else re_children e\<rparr>)
      (tab_get t n)"
  using assms
proof (induction cs arbitrary: t)
  case Nil
  then show ?case by (cases "tab_get t n") (simp_all add: moved_def)
next
  case (Cons c cs)
  let ?t = "adopt p parent c t"
  have c: "c \<noteq> p" "parent \<noteq> Some p" "parent \<noteq> Some c" using Cons.prems by auto
  have same: "Option.bind (tab_get ?t d) re_parent = Option.bind (tab_get t d) re_parent" if "d \<in> set cs" for d
  proof -
    have "d \<noteq> c" using that Cons.prems by auto
    then show ?thesis by (cases "tab_get t d") (simp_all add: get_adopt [OF c])
  qed
  have rest: "moved p parent cs ?t = moved p parent cs t"
    unfolding moved_def using same by (intro filter_cong) auto
  have "tab_get (fold (adopt p parent) cs ?t) n =
     map_option (\<lambda>e. e\<lparr>re_parent := if n \<in> set (moved p parent cs t) then Some p else re_parent e,
        re_children := if n = p then re_children e @ moved p parent cs t
                       else if parent = Some n then filter (\<lambda>c. c \<notin> set (moved p parent cs t)) (re_children e) else re_children e\<rparr>)
      (tab_get ?t n)"
    unfolding rest [symmetric] using Cons.prems by (intro Cons.IH) auto
  moreover have "moved p parent (c # cs) t =
     (if Option.bind (tab_get t c) re_parent = parent then c # moved p parent cs t else moved p parent cs t)"
    by (simp add: moved_def)
  moreover have "c \<notin> set (moved p parent cs t)" using Cons.prems by (simp add: moved_def)
  moreover have "removeAll c xs = filter (\<lambda>x. x \<noteq> c) xs" for xs :: "name list" by (induction xs) auto
  ultimately show ?case using c by (cases "tab_get t n") (auto simp: get_adopt [OF c])
qed

section \<open>Descendants\<close>

text \<open>In the order of names, the names below a prefix follow it without a gap.\<close>

lemma below_greater: "prefix p (n :: name) \<Longrightarrow> p \<le> n"
  by (induction p n rule: list_induct2') auto

lemma below_contiguous: "p \<le> n \<Longrightarrow> n \<le> m \<Longrightarrow> prefix p m \<Longrightarrow> prefix p (n :: name)"
proof (induction p arbitrary: n m)
  case (Cons a p)
  then obtain b n' where n: "n = b # n'" by (cases n) auto
  from Cons.prems obtain m' where m: "m = a # m'" "prefix p m'" by (cases m) auto
  from Cons.prems n m have "a = b" by auto
  with Cons.prems n m have "p \<le> n'" "n' \<le> m'" by auto
  from Cons.IH [OF this \<open>prefix p m'\<close>] n \<open>a = b\<close> show ?case by simp
qed simp

lemma takeWhile_below:
  "sorted_wrt (<) (p # map fst t) \<Longrightarrow>
     takeWhile (\<lambda>x. isPrefixOf p (fst x)) t = filter (\<lambda>x. strict_prefix p (fst x)) (t :: rib_table)"
proof (induction t)
  case (Cons x t)
  show ?case
  proof (cases "prefix p (fst x)")
    case True
    moreover have "p \<noteq> fst x" using Cons.prems by auto
    ultimately show ?thesis using Cons by (simp add: isPrefixOf_prefix strict_prefix_def)
  next
    case False
    have "\<not> prefix p (fst y)" if "y \<in> set t" for y
    proof
      have "p \<le> fst x" "fst x \<le> fst y" using Cons.prems that by (auto intro: less_imp_le)
      moreover assume "prefix p (fst y)"
      ultimately show False using False below_contiguous by blast
    qed
    then have "filter (\<lambda>x. strict_prefix p (fst x)) t = []"
      by (auto simp: filter_empty_conv strict_prefix_def)
    with False show ?thesis by (simp add: isPrefixOf_prefix strict_prefix_def)
  qed
qed simp

lemma findDescendants_below:
  "sorted_wrt (<) (map fst t) \<Longrightarrow> has_prefix p t \<Longrightarrow>
     findDescendants p t = filter (strict_prefix p) (map fst t)"
proof (induction t)
  case (Cons x t)
  show ?case
  proof (cases "fst x = p")
    case True
    then show ?thesis using Cons.prems by (simp add: findDescendants_def takeWhile_below filter_map comp_def)
  next
    case False
    then have t: "has_prefix p t" using Cons.prems by (auto simp: has_prefix_keys)
    then have "fst x < p" using Cons.prems by (auto simp: has_prefix_keys)
    then have "\<not> strict_prefix p (fst x)" using below_greater [of p "fst x"] by (auto simp: strict_prefix_def)
    moreover have "findDescendants p (x # t) = findDescendants p t" using False by (simp add: findDescendants_def)
    ultimately show ?thesis using Cons t by simp
  qed
qed (simp add: has_prefix_def)

lemma sorted_keys_distinct: "sorted_wrt (<) (map fst t) \<Longrightarrow> distinct (map fst (t :: rib_table))"
  by (metis strict_sorted_iff)

section \<open>Insertion of a new name\<close>

lemma get_emplace:
  "\<not> has_prefix p t \<Longrightarrow> tab_get (rib_emplace p e t) n = (if n = p then Some e else tab_get t n)"
proof -
  assume new: "\<not> has_prefix p t"
  let ?P = "\<lambda>x. fst x < p"
  have "tab_get (takeWhile ?P t @ dropWhile ?P t) n =
      (case tab_get (takeWhile ?P t) n of None \<Rightarrow> tab_get (dropWhile ?P t) n | Some v \<Rightarrow> Some v)"
    unfolding map_of_append map_add_def by (simp split: option.split)
  then have "tab_get t n = (case tab_get (takeWhile ?P t) n of None \<Rightarrow> tab_get (dropWhile ?P t) n | Some v \<Rightarrow> Some v)"
    by (simp only: takeWhile_dropWhile_id)
  moreover have "tab_get (takeWhile ?P t) p = None"
    by (auto simp: tab_get_None_keys dest: set_takeWhileD)
  ultimately show ?thesis
    by (cases "tab_get (takeWhile ?P t) n") (auto simp: rib_emplace_def map_add_def)
qed

lemma has_prefix_emplace:
  "\<not> has_prefix p t \<Longrightarrow> has_prefix n (rib_emplace p e t) \<longleftrightarrow> n = p \<or> has_prefix n t"
  by (simp add: has_prefix_def get_emplace)

lemma sorted_emplace:
  "sorted_wrt (<) (map fst t) \<Longrightarrow> \<not> has_prefix p t \<Longrightarrow> sorted_wrt (<) (map fst (rib_emplace p e t))"
proof (induction t)
  case (Cons x t)
  have new: "\<not> has_prefix p t" and "fst x \<noteq> p" using Cons.prems(2) by (auto simp: has_prefix_keys)
  have "\<forall>n\<in>set (map fst t). fst x < n" using Cons.prems(1) by simp
  then have after: "fst x < n" if "has_prefix n t" for n using that unfolding has_prefix_keys by (rule bspec)
  show ?case
  proof (cases "fst x < p")
    case True
    have "fst x < n" if "n \<in> set (map fst (rib_emplace p e t))" for n
    proof -
      have "has_prefix n (rib_emplace p e t)" using that unfolding has_prefix_keys .
      then have "n = p \<or> has_prefix n t" by (rule has_prefix_emplace [OF new, THEN iffD1])
      with True after show ?thesis by auto
    qed
    moreover have "rib_emplace p e (x # t) = x # rib_emplace p e t" using True by (simp add: rib_emplace_def)
    moreover have "sorted_wrt (<) (map fst (rib_emplace p e t))" using Cons.IH Cons.prems new by simp
    ultimately show ?thesis by simp
  next
    case False
    with \<open>fst x \<noteq> p\<close> have "p < fst x" by simp
    have "p < n" if "has_prefix n t" for n using \<open>p < fst x\<close> after [OF that] by (rule less_trans)
    moreover have "rib_emplace p e (x # t) = (p, e) # x # t" using False by (simp add: rib_emplace_def)
    ultimately show ?thesis using Cons.prems \<open>p < fst x\<close> by (simp add: has_prefix_keys)
  qed
qed (simp add: rib_emplace_def)

lemma keys_link_entry [simp]: "map fst (link_entry p t) = map fst t"
  unfolding link_entry_def Let_def by (subst keys_fold) (simp_all split: option.split)


lemma in_set_moved:
  "c \<in> set (moved p parent cs t) \<longleftrightarrow> c \<in> set cs \<and> Option.bind (tab_get t c) re_parent = parent"
  by (simp add: moved_def)

text \<open>The entries after a new name was linked to its parent and to the descendants it takes over.\<close>

lemma get_link_entry:
  assumes sorted: "sorted_wrt (<) (map fst t)" and p: "has_prefix p t"
    and cs: "cs = moved p (findParent p t) (filter (strict_prefix p) (map fst t)) t"
  shows "tab_get (link_entry p t) n =
    map_option (\<lambda>e. e\<lparr>re_parent := if n = p \<and> findParent p t \<noteq> None then findParent p t
                              else if n \<in> set cs then Some p else re_parent e,
        re_children := if n = p then re_children e @ cs
                       else if findParent p t = Some n then filter (\<lambda>c. c \<notin> set cs) (re_children e @ [p]) else re_children e\<rparr>)
      (tab_get t n)"
proof -
  let ?par = "findParent p t"
  let ?t1 = "case ?par of None \<Rightarrow> t | Some q \<Rightarrow> addChild q p t"
  let ?ds = "filter (strict_prefix p) (map fst t)"
  have keys: "map fst ?t1 = map fst t" by (simp split: option.split)
  have parq: "q \<noteq> p" "strict_prefix q p" if "?par = Some q" for q using findParent_found [OF that] by auto
  have get1: "tab_get ?t1 n = map_option (\<lambda>e. e\<lparr>re_parent := if n = p \<and> ?par \<noteq> None then ?par else re_parent e,
      re_children := if ?par = Some n then re_children e @ [p] else re_children e\<rparr>) (tab_get t n)" for n
    using parq by (cases ?par; cases "tab_get t n") (auto simp: addChild_def)
  have ds: "findDescendants p ?t1 = ?ds"
    using findDescendants_below [of ?t1 p] sorted p has_prefix_cong [OF keys, of p] unfolding keys by blast
  have nodup: "distinct ?ds" using sorted_keys_distinct [OF sorted] by (rule distinct_filter)
  have notin: "p \<notin> set ?ds" "?par \<noteq> Some p" "?par \<notin> Some ` set ?ds"
    using parq by (auto dest: prefix_order.less_asym)
  have "Option.bind (tab_get ?t1 c) re_parent = Option.bind (tab_get t c) re_parent" if "c \<noteq> p" for c
    using that by (cases "tab_get t c") (simp_all add: get1)
  then have mv: "moved p ?par ?ds ?t1 = cs"
    unfolding cs moved_def using notin by (intro filter_cong) auto
  have "p \<notin> set cs" using notin by (auto simp: cs moved_def)
  then show ?thesis unfolding link_entry_def Let_def ds get_adopt_all [OF nodup notin] mv get1
    using notin by (cases "tab_get t n") (auto simp: fun_eq_iff)
qed


lemma links_okD:
  assumes "links_ok t" "tab_get t n = Some e"
  shows "re_name e = n" "re_parent e = findParent n t" "distinct (re_children e)"
    "c \<in> set (re_children e) \<longleftrightarrow> has_prefix c t \<and> findParent c t = Some n"
  using assms unfolding links_ok_def by auto

lemma links_okI:
  assumes "\<And>n e. tab_get t n = Some e \<Longrightarrow> re_name e = n \<and> re_parent e = findParent n t \<and> distinct (re_children e)"
    and "\<And>n e c. tab_get t n = Some e \<Longrightarrow> c \<in> set (re_children e) \<longleftrightarrow> has_prefix c t \<and> findParent c t = Some n"
  shows "links_ok t"
  using assms unfolding links_ok_def by auto

lemma links_insert:
  assumes sorted: "sorted_wrt (<) (map fst t)" and ok: "links_ok t" and new: "\<not> has_prefix p t"
    and e0: "re_name e0 = p" "re_parent e0 = None" "re_children e0 = []"
  shows "links_ok (link_entry p (rib_emplace p e0 t))"
proof -
  define t0 where "t0 = rib_emplace p e0 t"
  define t' where "t' = link_entry p t0"
  define cs where "cs = moved p (findParent p t0) (filter (strict_prefix p) (map fst t0)) t0"
  have get0: "tab_get t0 n = (if n = p then Some e0 else tab_get t n)" for n
    unfolding t0_def by (rule get_emplace [OF new])
  have has0: "has_prefix n t0 \<longleftrightarrow> n = p \<or> has_prefix n t" for n
    unfolding t0_def by (rule has_prefix_emplace [OF new])
  have keys: "map fst t' = map fst t0" by (simp add: t'_def)
  have has': "has_prefix n t' \<longleftrightarrow> n = p \<or> has_prefix n t" for n
    using has0 has_prefix_cong [OF keys] by blast
  have fp': "findParent n t' = (if strict_prefix p n \<and> findParent n t = findParent p t then Some p else findParent n t)" for n
    by (rule findParent_insert [OF new has'])
  have fp0: "findParent p t0 = findParent p t"
    using findParent_insert [OF new has0, of p] by simp
  have sorted0: "sorted_wrt (<) (map fst t0)" unfolding t0_def by (rule sorted_emplace [OF sorted new])
  have nop: "findParent n t \<noteq> Some p" for n using new findParent_found(2) by blast
  have cs: "c \<in> set cs \<longleftrightarrow> has_prefix c t \<and> strict_prefix p c \<and> findParent c t = findParent p t" for c
  proof (cases "has_prefix c t \<and> c \<noteq> p")
    case True
    then obtain e where "tab_get t c = Some e" by (auto simp: has_prefix_def)
    with links_okD(2) [OF ok this] True have "Option.bind (tab_get t0 c) re_parent = findParent c t" by (simp add: get0)
    moreover have "c \<in> set (map fst t0)" using True has0 has_prefix_keys by blast
    ultimately show ?thesis using True unfolding cs_def in_set_moved fp0 set_filter by auto
  next
    case False
    then have "\<not> has_prefix c t0 \<or> c = p" using has0 by blast
    then have "c \<notin> set cs" unfolding cs_def in_set_moved set_filter has_prefix_keys by auto
    with False show ?thesis by auto
  qed
  have dcs: "distinct cs" unfolding cs_def moved_def using sorted_keys_distinct [OF sorted0] by (intro distinct_filter)
  have get': "tab_get t' n = map_option (\<lambda>e. e\<lparr>re_parent := if n = p \<and> findParent p t \<noteq> None then findParent p t
          else if n \<in> set cs then Some p else re_parent e,
        re_children := if n = p then re_children e @ cs
          else if findParent p t = Some n then filter (\<lambda>c. c \<notin> set cs) (re_children e @ [p]) else re_children e\<rparr>)
      (if n = p then Some e0 else tab_get t n)" for n
    unfolding t'_def get_link_entry [OF sorted0 has0 [THEN iffD2, OF disjI1, OF refl] cs_def] fp0 get0 ..
  have "links_ok t'"
  proof (rule links_okI)
    fix n e' assume e': "tab_get t' n = Some e'"
    show "re_name e' = n \<and> re_parent e' = findParent n t' \<and> distinct (re_children e')"
    proof (cases "n = p")
      case True
      with e' e0 dcs cs [of p] show ?thesis by (auto simp: get' fp')
    next
      case False
      with e' obtain e where e: "tab_get t n = Some e" by (auto simp: get')
      have "has_prefix n t" using e by (simp add: has_prefix_def)
      moreover have "p \<notin> set (re_children e)" using links_okD(4) [OF ok e] new by blast
      ultimately show ?thesis using False e' e links_okD(1,2,3) [OF ok e] by (auto simp: get' fp' cs)
    qed
    fix c
    show "c \<in> set (re_children e') \<longleftrightarrow> has_prefix c t' \<and> findParent c t' = Some n"
    proof (cases "n = p")
      case True
      with e' e0 nop show ?thesis by (auto simp: get' fp' cs has' split: if_splits)
    next
      case False
      with e' obtain e where e: "tab_get t n = Some e" by (auto simp: get')
      from links_okD(4) [OF ok e, of c] False e' e new show ?thesis
        by (cases "findParent p t = Some n") (auto simp: get' fp' cs has')
    qed
  qed
  then show ?thesis by (simp add: t'_def t0_def)
qed


section \<open>Removal of a name\<close>

lemma get_hand_over:
  assumes "c \<noteq> p" "parent \<noteq> Some p" "parent \<noteq> Some c"
  shows "tab_get (hand_over p parent c t) n =
    map_option (\<lambda>e. e\<lparr>re_parent := if n = c then parent else re_parent e,
        re_children := if n = p then removeAll c (re_children e) else if parent = Some n then re_children e @ [c] else re_children e\<rparr>)
      (tab_get t n)"
  using assms
  by (cases "tab_get t n"; cases parent) (auto simp: hand_over_def addChild_def removeChild_def)

lemma get_hand_over_all:
  assumes "distinct cs" "p \<notin> set cs" "parent \<noteq> Some p" "parent \<notin> Some ` set cs"
  shows "tab_get (fold (hand_over p parent) cs t) n =
    map_option (\<lambda>e. e\<lparr>re_parent := if n \<in> set cs then parent else re_parent e,
        re_children := if n = p then filter (\<lambda>c. c \<notin> set cs) (re_children e)
                       else if parent = Some n then re_children e @ cs else re_children e\<rparr>)
      (tab_get t n)"
  using assms
proof (induction cs arbitrary: t)
  case Nil
  then show ?case by (cases "tab_get t n") simp_all
next
  case (Cons c cs)
  have c: "c \<noteq> p" "parent \<noteq> Some p" "parent \<noteq> Some c" using Cons.prems by auto
  have "removeAll c xs = filter (\<lambda>x. x \<noteq> c) xs" for xs :: "name list" by (induction xs) auto
  with Cons c show ?case by (cases "tab_get t n") (auto simp: get_hand_over [OF c])
qed

lemma get_eraseEntry:
  assumes ok: "links_ok t" and e0: "tab_get t p = Some e0"
  shows "tab_get (eraseEntry p t) n =
    (if n = p then None
     else map_option (\<lambda>e. e\<lparr>re_parent := if n \<in> set (re_children e0) then findParent p t else re_parent e,
        re_children := if findParent p t = Some n then removeAll p (re_children e) @ re_children e0 else re_children e\<rparr>)
      (tab_get t n))"
proof -
  let ?par = "findParent p t"
  let ?t1 = "case ?par of None \<Rightarrow> t | Some q \<Rightarrow> removeChild q p t"
  have par: "?par \<noteq> Some p" using findParent_found(1) by blast
  have p: "p \<notin> set (re_children e0)" using links_okD(4) [OF ok e0, of p] par by simp
  have "?par \<notin> Some ` set (re_children e0)"
  proof
    assume "?par \<in> Some ` set (re_children e0)"
    then obtain c where c: "?par = Some c" "c \<in> set (re_children e0)" by auto
    then have "findParent c t = Some p" using links_okD(4) [OF ok e0] by simp
    then have "strict_prefix p c" by (rule findParent_found(1))
    moreover have "strict_prefix c p" using c(1) by (rule findParent_found(1))
    ultimately show False by (auto dest: prefix_order.less_asym)
  qed
  note all = get_hand_over_all [OF links_okD(3) [OF ok e0] p par this]
  have get1: "tab_get ?t1 n = map_option (\<lambda>e. if ?par = Some n then e\<lparr>re_children := removeAll p (re_children e)\<rparr> else e) (tab_get t n)"
    if "n \<noteq> p" for n
    using that par by (cases "tab_get t n"; cases ?par) (auto simp: removeChild_def)
  have "eraseEntry p t = tab_del p (fold (hand_over p ?par) (re_children e0) ?t1)"
    by (simp add: eraseEntry_def e0 links_okD(2) [OF ok e0] Let_def)
  then have "tab_get (eraseEntry p t) n = (if n = p then None else tab_get (fold (hand_over p ?par) (re_children e0) ?t1) n)"
    by simp
  then show ?thesis unfolding all using get1 [of n] by (cases "tab_get t n") auto
qed

lemma links_erase:
  assumes ok: "links_ok t" and e0: "tab_get t p = Some e0"
  shows "links_ok (eraseEntry p t)"
proof -
  define t' where "t' = eraseEntry p t"
  note get' = get_eraseEntry [OF ok e0, folded t'_def]
  have has': "has_prefix n t' \<longleftrightarrow> n \<noteq> p \<and> has_prefix n t" for n by (simp add: has_prefix_def get')
  note fp' = findParent_erase [OF has']
  note c0 = links_okD(4) [OF ok e0]
  have par: "findParent p t \<noteq> Some p" using findParent_found(1) by blast
  have "links_ok t'"
  proof (rule links_okI)
    fix n e' assume e': "tab_get t' n = Some e'"
    then have np: "n \<noteq> p" by (auto simp: get')
    with e' obtain e where e: "tab_get t n = Some e" by (auto simp: get')
    note ne = links_okD [OF ok e]
    have has: "has_prefix n t" using e by (simp add: has_prefix_def)
    have "set (re_children e) \<inter> set (re_children e0) = {}" using ne(4) c0 np by auto
    then show "re_name e' = n \<and> re_parent e' = findParent n t' \<and> distinct (re_children e')"
      using np e' e ne(1,2,3) has links_okD(3) [OF ok e0] by (auto simp: get' fp' c0 distinct_removeAll)
    fix c
    have "p \<in> set (re_children e) \<longleftrightarrow> findParent p t = Some n" using ne(4) [of p] e0 by (simp add: has_prefix_def)
    with np e' e ne(4) [of c] par show "c \<in> set (re_children e') \<longleftrightarrow> has_prefix c t' \<and> findParent c t' = Some n"
      by (cases "findParent p t = Some n") (auto simp: get' fp' c0 has')
  qed
  then show ?thesis by (simp add: t'_def)
qed


section \<open>The invariant of the table\<close>

text \<open>
  Every entry has routes, one for each face and origin; every route is found from its face
  through the face lookup table, and the number of items is the number of routes.
\<close>

definition route_key :: "route \<Rightarrow> nat \<times> nat" where
  "route_key r = (rt_faceId r, rt_origin r)"

definition routes_ok :: "nat \<Rightarrow> (nat \<times> nat) list \<Rightarrow> rib_entry \<Rightarrow> bool" where
  "routes_ok nextId faces e \<longleftrightarrow>
     re_routes e \<noteq> [] \<and> distinct (map route_key (re_routes e)) \<and> re_id e < nextId \<and>
     (\<forall>r\<in>set (re_routes e). (rt_faceId r, re_id e) \<in> set faces)"

definition rib_ok :: "rib \<Rightarrow> bool" where
  "rib_ok rb \<longleftrightarrow>
     sorted_wrt (<) (map fst (rb_table rb)) \<and> links_ok (rb_table rb) \<and>
     (\<forall>x\<in>set (rb_table rb). routes_ok (rb_nextId rb) (rb_faceEntries rb) (snd x)) \<and>
     distinct (map (\<lambda>x. re_id (snd x)) (rb_table rb)) \<and>
     rb_nItems rb = of_nat (sum_list (map (\<lambda>x. length (re_routes (snd x))) (rb_table rb)))"

text \<open>What the links of the tree leave unchanged.\<close>

definition core :: "rib_entry \<Rightarrow> rib_entry" where
  "core e = e\<lparr>re_children := [], re_parent := None, re_inherited := []\<rparr>"

definition rows :: "rib_table \<Rightarrow> rib_table" where
  "rows t = map (\<lambda>x. (fst x, core (snd x))) t"

lemma core_simps [simp]:
  "re_id (core e) = re_id e" "re_routes (core e) = re_routes e"
  "core (e\<lparr>re_parent := q\<rparr>) = core e" "core (e\<lparr>re_children := cs\<rparr>) = core e" "core (e\<lparr>re_inherited := rs\<rparr>) = core e"
  by (simp_all add: core_def)

lemma rows_modify [simp]: "(\<And>e. core (f e) = core e) \<Longrightarrow> rows (tab_modify p f t) = rows t"
  by (induction t) (auto simp: rows_def tab_modify_def)

lemma rows_addChild [simp]: "rows (addChild p c t) = rows t" by (simp add: addChild_def)

lemma rows_removeChild [simp]: "rows (removeChild p c t) = rows t" by (simp add: removeChild_def)

lemma rows_adopt [simp]: "rows (adopt p q c t) = rows t" by (simp add: adopt_def split: option.split)

lemma rows_hand_over [simp]: "rows (hand_over p q c t) = rows t" by (simp add: hand_over_def split: option.split)

lemma rows_fold: "(\<And>c t. rows (f c t) = rows t) \<Longrightarrow> rows (fold f cs t) = rows t"
  by (induction cs arbitrary: t) simp_all

lemma rows_link_entry [simp]: "rows (link_entry p t) = rows t"
  unfolding link_entry_def Let_def by (subst rows_fold) (simp_all split: option.split)

lemma rows_del: "rows (tab_del p t) = tab_del p (rows t)"
  by (induction t) (auto simp: rows_def)

lemma rows_eraseEntry [simp]: "rows (eraseEntry p t) = tab_del p (rows t)"
proof (cases "tab_get t p")
  case None
  then have "p \<notin> fst ` set (rows t)" by (simp add: tab_get_None_keys rows_def image_image)
  with None show ?thesis by (simp add: eraseEntry_def delete_id)
next
  case (Some e)
  have "rows (fold (hand_over p q) cs t1) = rows t1" for q cs t1 by (rule rows_fold) simp
  with Some show ?thesis by (simp add: eraseEntry_def Let_def rows_del split: option.split)
qed

lemma rows_modifyInherited [simp]: "rows (modifyInheritedRoutes us t) = rows t"
  unfolding modifyInheritedRoutes_def
  by (rule rows_fold) (simp add: re_addInheritedRoute_def re_removeInheritedRoute_def split: rib_action.split)

lemma keys_rows: "map fst (rows t) = map fst t" by (simp add: rows_def)

lemma rib_ok_rows:
  "rib_ok rb \<longleftrightarrow>
     sorted_wrt (<) (map fst (rows (rb_table rb))) \<and> links_ok (rb_table rb) \<and>
     (\<forall>x\<in>set (rows (rb_table rb)). routes_ok (rb_nextId rb) (rb_faceEntries rb) (snd x)) \<and>
     distinct (map (\<lambda>x. re_id (snd x)) (rows (rb_table rb))) \<and>
     rb_nItems rb = of_nat (sum_list (map (\<lambda>x. length (re_routes (snd x))) (rows (rb_table rb))))"
  unfolding rib_ok_def keys_rows by (simp add: rows_def routes_ok_def comp_def)


lemma links_modify:
  assumes ok: "links_ok t" and f: "\<And>e. re_name (f e) = re_name e \<and> re_parent (f e) = re_parent e \<and> re_children (f e) = re_children e"
  shows "links_ok (tab_modify p f t)"
proof -
  have has: "has_prefix n (tab_modify p f t) = has_prefix n t" for n by (rule has_prefix_cong) simp
  then have fp: "findParent n (tab_modify p f t) = findParent n t" for n by (rule findParent_cong)
  show ?thesis
  proof (rule links_okI)
    fix n e' assume e': "tab_get (tab_modify p f t) n = Some e'"
    then obtain e where e: "tab_get t n = Some e" "e' = (if n = p then f e else e)" by (auto split: if_splits)
    note ne = links_okD [OF ok e(1)]
    show "re_name e' = n \<and> re_parent e' = findParent n (tab_modify p f t) \<and> distinct (re_children e')"
      using e(2) ne f [of e] by (simp add: fp)
    fix c
    show "c \<in> set (re_children e') \<longleftrightarrow> has_prefix c (tab_modify p f t) \<and> findParent c (tab_modify p f t) = Some n"
      using e(2) ne(4) [of c] f [of e] by (simp add: fp has)
  qed
qed

lemma tab_del_append: "tab_del p (a @ b) = tab_del p a @ tab_del p b"
  by (induction a) simp_all

lemma table_split:
  assumes "distinct (map fst t)" "tab_get t p = Some e"
  obtains a b where "t = a @ (p, e) # b" "\<And>f. tab_modify p f t = a @ (p, f e) # b" "tab_del p t = a @ b"
proof -
  from assms(2) have "(p, e) \<in> set t" by (rule map_of_SomeD)
  then obtain a b where t: "t = a @ (p, e) # b" by (meson split_list)
  with assms(1) have ab: "p \<notin> fst ` set a" "p \<notin> fst ` set b" by auto
  have id: "tab_modify p f c = c" if "p \<notin> fst ` set c" for f and c :: "('a \<times> 'b) list"
    using that by (induction c) (auto simp: tab_modify_def)
  have "tab_modify p f t = a @ (p, f e) # b" for f
    using id [OF ab(1)] id [OF ab(2)] by (simp add: t tab_modify_def)
  moreover have "tab_del p t = a @ b"
    using delete_id [OF ab(1)] delete_id [OF ab(2)] by (simp add: t tab_del_append)
  ultimately show thesis using that t by blast
qed

lemma findRoute_None: "findRoute r e = None \<longleftrightarrow> route_key r \<notin> set (map route_key (re_routes e))"
  by (auto simp: findRoute_def find_None_iff compareFaceIdAndOrigin_def route_key_def image_iff)

lemma findRoute_key: "findRoute r e = Some x \<Longrightarrow> route_key x = route_key r \<and> x \<in> set (re_routes e)"
  by (auto simp: findRoute_def find_Some_iff compareFaceIdAndOrigin_def route_key_def)

lemma replace_route_keys: "map route_key (replace_route r rs) = map route_key rs"
  by (induction rs) (auto simp: compareFaceIdAndOrigin_def route_key_def)

lemma remove_route_filter:
  "distinct (map route_key rs) \<Longrightarrow> remove_route r rs = filter (\<lambda>x. route_key x \<noteq> route_key r) rs"
proof (induction rs)
  case (Cons x rs)
  have "compareFaceIdAndOrigin x r \<longleftrightarrow> route_key x = route_key r"
    by (simp add: compareFaceIdAndOrigin_def route_key_def)
  moreover have "filter (\<lambda>y. route_key y \<noteq> route_key x) rs = rs"
    using Cons.prems by (intro filter_True) (auto simp: image_iff)
  ultimately show ?case using Cons by auto
qed simp

lemma length_remove_route: "route_key r \<in> set (map route_key rs) \<Longrightarrow> Suc (length (remove_route r rs)) = length rs"
  by (induction rs) (auto simp: compareFaceIdAndOrigin_def route_key_def)

lemma insertRoute_links [simp]:
  "re_name (snd (insertRoute r e)) = re_name e" "re_parent (snd (insertRoute r e)) = re_parent e"
  "re_children (snd (insertRoute r e)) = re_children e" "re_id (snd (insertRoute r e)) = re_id e"
  by (simp_all add: insertRoute_def split: option.split)

lemma eraseRoute_links [simp]:
  "re_name (eraseRoute r e) = re_name e" "re_parent (eraseRoute r e) = re_parent e"
  "re_children (eraseRoute r e) = re_children e" "re_id (eraseRoute r e) = re_id e"
  by (simp_all add: eraseRoute_def split: option.split)

lemma routes_ok_core [simp]: "routes_ok i faces (core e) = routes_ok i faces e"
  by (simp add: routes_ok_def)

lemma routes_ok_faces: "routes_ok i faces e \<Longrightarrow> i \<le> j \<Longrightarrow> set faces \<subseteq> set faces' \<Longrightarrow> routes_ok j faces' e"
  by (auto simp: routes_ok_def)

lemma rib_ok_distinct: "rib_ok rb \<Longrightarrow> distinct (map fst (rb_table rb))"
  by (simp add: rib_ok_def sorted_keys_distinct)

lemma rib_ok_new [simp]: "rib_ok Rib_new"
  by (simp add: rib_ok_def Rib_new_def links_ok_def)

lemma rib_ok_replace:
  assumes ok: "rib_ok rb" and t: "rb_table rb = a @ (p, e) # b" and links: "links_ok (a @ (p, e') # b)"
    and id: "re_id e' = re_id e" and mine: "routes_ok (rb_nextId rb) faces e'" and faces: "set (rb_faceEntries rb) \<subseteq> set faces"
    and items: "m = rb_nItems rb + of_nat (length (re_routes e')) - of_nat (length (re_routes e))"
  shows "rib_ok (rb\<lparr>rb_table := a @ (p, e') # b, rb_nItems := m, rb_faceEntries := faces\<rparr>)"
proof -
  have all: "\<forall>x\<in>set (a @ (p, e) # b). routes_ok (rb_nextId rb) (rb_faceEntries rb) (snd x)"
    and rest: "sorted_wrt (<) (map fst (a @ (p, e) # b))" "distinct (map (\<lambda>x. re_id (snd x)) (a @ (p, e) # b))"
      "rb_nItems rb = of_nat (sum_list (map (\<lambda>x. length (re_routes (snd x))) (a @ (p, e) # b)))"
    using ok by (simp_all add: rib_ok_def t)
  have "routes_ok (rb_nextId rb) faces (snd x)" if "x \<in> set (a @ b)" for x
  proof (rule routes_ok_faces [OF _ order_refl faces])
    show "routes_ok (rb_nextId rb) (rb_faceEntries rb) (snd x)" using all that by auto
  qed
  then have "\<forall>x\<in>set (a @ b). routes_ok (rb_nextId rb) faces (snd x)" by blast
  with links rest mine show ?thesis by (simp add: rib_ok_def items id ball_Un)
qed

lemma Rib_insert_known:
  assumes ok: "rib_ok rb" and e: "tab_get (rb_table rb) p = Some e"
  shows "rib_ok (Rib_insert p r rb)"
proof -
  obtain a b where t: "rb_table rb = a @ (p, e) # b" and m: "\<And>f. tab_modify p f (rb_table rb) = a @ (p, f e) # b"
    using rib_ok_distinct [OF ok] e by (rule table_split) blast
  have links: "links_ok (rb_table rb)" and re: "routes_ok (rb_nextId rb) (rb_faceEntries rb) e"
    using ok by (simp_all add: rib_ok_def t)
  show ?thesis
  proof (cases "findRoute r e")
    case None
    have "links_ok (a @ (p, snd (insertRoute r e)) # b)"
      unfolding m [of "\<lambda>e. snd (insertRoute r e)", symmetric] by (rule links_modify [OF links]) simp
    moreover have "Rib_insert p r rb = rb\<lparr>rb_table := a @ (p, snd (insertRoute r e)) # b, rb_nItems := rb_nItems rb + 1,
        rb_faceEntries := rb_faceEntries rb @ [(rt_faceId r, re_id e)]\<rparr>"
      using None by (simp add: Rib_insert_def e m insertRoute_def)
    moreover have "re_routes (snd (insertRoute r e)) = re_routes e @ [r]" using None by (simp add: insertRoute_def)
    moreover have "routes_ok (rb_nextId rb) (rb_faceEntries rb @ [(rt_faceId r, re_id e)]) (snd (insertRoute r e))"
      using re None by (auto simp: routes_ok_def calculation(3) findRoute_None)
    ultimately show ?thesis
      using rib_ok_replace [OF ok t, of "snd (insertRoute r e)" "rb_faceEntries rb @ [(rt_faceId r, re_id e)]" "rb_nItems rb + 1"]
      by (simp add: subset_insertI)
  next
    case (Some x)
    let ?f = "\<lambda>e. e\<lparr>re_routes := replace_route r (re_routes e)\<rparr>"
    have "links_ok (a @ (p, ?f e) # b)" unfolding m [of ?f, symmetric] by (rule links_modify [OF links]) simp
    moreover have "Rib_insert p r rb = rb\<lparr>rb_table := a @ (p, ?f e) # b\<rparr>"
      using Some by (simp add: Rib_insert_def e m insertRoute_def)
    moreover have "routes_ok i faces (?f e)" if "routes_ok i faces e" for i faces
    proof -
      have keys: "map route_key (replace_route r (re_routes e)) = map route_key (re_routes e)" by (rule replace_route_keys)
      then have "map fst (map route_key (replace_route r (re_routes e))) = map fst (map route_key (re_routes e))" by simp
      then have "map rt_faceId (replace_route r (re_routes e)) = map rt_faceId (re_routes e)" by (simp add: route_key_def comp_def)
      then have faces: "rt_faceId ` set (replace_route r (re_routes e)) = rt_faceId ` set (re_routes e)" by (metis set_map)
      have "(rt_faceId y, re_id e) \<in> set faces" if y: "y \<in> set (replace_route r (re_routes e))" for y
      proof -
        have "rt_faceId y \<in> rt_faceId ` set (re_routes e)" using y unfolding faces [symmetric] by (rule imageI)
        then obtain z where "z \<in> set (re_routes e)" "rt_faceId y = rt_faceId z" by (rule imageE)
        with \<open>routes_ok i faces e\<close> show ?thesis by (simp add: routes_ok_def)
      qed
      moreover have "replace_route r (re_routes e) \<noteq> []" using that keys by (auto simp: routes_ok_def)
      ultimately show ?thesis using that keys by (simp add: routes_ok_def)
    qed
    moreover have "length (replace_route r (re_routes e)) = length (re_routes e)" using replace_route_keys map_eq_imp_length_eq by blast
    ultimately show ?thesis using rib_ok_replace [OF ok t, of "?f e" "rb_faceEntries rb" "rb_nItems rb"] re by simp
  qed
qed


lemma Rib_insert_fresh:
  assumes ok: "rib_ok rb" and new: "tab_get (rb_table rb) p = None"
  shows "rib_ok (Rib_insert p r rb)"
proof -
  let ?P = "\<lambda>x :: name \<times> rib_entry. fst x < p"
  define a where "a = takeWhile ?P (rb_table rb)"
  define b where "b = dropWhile ?P (rb_table rb)"
  define e0 where "e0 = snd (insertRoute r \<lparr>re_id = rb_nextId rb, re_name = p, re_children = [], re_parent = None, re_routes = [],
                            re_inherited = [], re_nRoutesWithCaptureSet = 0\<rparr>)"
  have t: "rb_table rb = a @ b" by (simp add: a_def b_def)
  have none: "\<not> has_prefix p (rb_table rb)" using new by (simp add: has_prefix_def)
  have sorted: "sorted_wrt (<) (map fst (rb_table rb))" and links: "links_ok (rb_table rb)" using ok by (simp_all add: rib_ok_def)
  have em: "rib_emplace p e0 (rb_table rb) = a @ (p, e0) # b" by (simp add: rib_emplace_def a_def b_def)
  have r0: "re_routes e0 = [r]" "re_id e0 = rb_nextId rb" by (simp_all add: e0_def insertRoute_def findRoute_def)
  have links': "links_ok (link_entry p (a @ (p, e0) # b))"
    unfolding em [symmetric] by (rule links_insert [OF sorted links none]) (simp_all add: e0_def)
  have sorted': "sorted_wrt (<) (map fst (a @ (p, e0) # b))" using sorted_emplace [OF sorted none, of e0] by (simp only: em)
  have op: "Rib_insert p r rb = rb\<lparr>rb_table := link_entry p (a @ (p, e0) # b), rb_nItems := rb_nItems rb + 1,
      rb_faceEntries := rb_faceEntries rb @ [(rt_faceId r, rb_nextId rb)], rb_nextId := rb_nextId rb + 1\<rparr>"
    unfolding Rib_insert_def new e0_def [symmetric] em [symmetric] Let_def by simp
  have old: "\<forall>x\<in>set (a @ b). routes_ok (rb_nextId rb) (rb_faceEntries rb) (snd x)"
    and ids: "distinct (map (\<lambda>x. re_id (snd x)) (a @ b))"
    and items: "rb_nItems rb = of_nat (sum_list (map (\<lambda>x. length (re_routes (snd x))) (a @ b)))"
    using ok by (simp_all add: rib_ok_def t)
  let ?faces = "rb_faceEntries rb @ [(rt_faceId r, rb_nextId rb)]"
  have "routes_ok (rb_nextId rb + 1) ?faces (snd x)" if "x \<in> set (a @ b)" for x
    by (rule routes_ok_faces [OF bspec [OF old that]]) auto
  then have "\<forall>x\<in>set (a @ b). routes_ok (rb_nextId rb + 1) ?faces (snd x)" by blast
  moreover have "routes_ok (rb_nextId rb + 1) ?faces e0" by (simp add: routes_ok_def r0)
  ultimately have routes': "\<forall>x\<in>set (a @ (p, e0) # b). routes_ok (rb_nextId rb + 1) ?faces (snd x)" by simp
  have "re_id (snd x) \<noteq> rb_nextId rb" if "x \<in> set (a @ b)" for x
    using bspec [OF old that] by (simp add: routes_ok_def)
  then have "rb_nextId rb \<notin> (\<lambda>x. re_id (snd x)) ` set (a @ b)" by (metis (no_types, lifting) imageE)
  then have ids': "distinct (map (\<lambda>x. re_id (snd x)) (a @ (p, e0) # b))" using ids r0 by auto
  show ?thesis unfolding op rib_ok_rows
    using links' sorted' routes' ids' items by (simp add: ball_Un rows_def [of "_ @ _"] comp_def r0)
qed

lemma Rib_insert_ok: "rib_ok rb \<Longrightarrow> rib_ok (Rib_insert p r rb)"
  by (cases "tab_get (rb_table rb) p") (auto intro: Rib_insert_known Rib_insert_fresh)

lemma Rib_erase_ok:
  assumes ok: "rib_ok rb"
  shows "rib_ok (Rib_erase p r rb)"
proof (cases "Rib_find_route p r rb")
  case None
  then have "Rib_erase p r rb = rb" by (auto simp: Rib_erase_def Rib_find_route_def split: option.split)
  with ok show ?thesis by simp
next
  case (Some x)
  then obtain e where e: "tab_get (rb_table rb) p = Some e" and x: "findRoute r e = Some x"
    by (auto simp: Rib_find_route_def bind_eq_Some_conv)
  obtain a b where t: "rb_table rb = a @ (p, e) # b" and m: "\<And>f. tab_modify p f (rb_table rb) = a @ (p, f e) # b"
    using rib_ok_distinct [OF ok] e by (rule table_split) blast
  define e' where "e' = eraseRoute r e"
  define t1 where "t1 = a @ (p, e') # b"
  define faces where "faces = (if \<not> hasFaceId (rt_faceId r) e' then remove1 (rt_faceId r, re_id e) (rb_faceEntries rb) else rb_faceEntries rb)"
  have op: "Rib_erase p r rb = rb\<lparr>rb_table := if re_routes e' = [] then eraseEntry p t1 else t1,
      rb_nItems := rb_nItems rb - 1, rb_faceEntries := faces\<rparr>"
    by (simp add: Rib_erase_def e x m e'_def t1_def faces_def)
  have links: "links_ok t1" unfolding t1_def e'_def m [symmetric] using ok by (intro links_modify) (simp_all add: rib_ok_def)
  have ids: "distinct (map (\<lambda>x. re_id (snd x)) (a @ (p, e) # b))" using ok by (simp add: rib_ok_def t)
  have re: "routes_ok (rb_nextId rb) (rb_faceEntries rb) e" using ok by (simp add: rib_ok_def t)
  have routes': "re_routes e' = filter (\<lambda>y. route_key y \<noteq> route_key r) (re_routes e)"
    using re x by (simp add: e'_def eraseRoute_def remove_route_filter routes_ok_def)
  have "route_key r \<in> set (map route_key (re_routes e))" using findRoute_key [OF x] by (metis imageI set_map)
  then have "length (re_routes e) = Suc (length (re_routes e'))"
    using length_remove_route [of r "re_routes e"] x by (simp add: e'_def eraseRoute_def)
  moreover have "rb_nItems rb = of_nat (sum_list (map (\<lambda>x. length (re_routes (snd x))) (a @ (p, e) # b)))"
    using ok by (simp add: rib_ok_def t)
  ultimately have items: "rb_nItems rb - 1 = of_nat (sum_list (map (\<lambda>x. length (re_routes (snd x))) t1))"
    by (simp add: t1_def)
  have others: "routes_ok (rb_nextId rb) faces (snd y)" if y: "y \<in> set (a @ b)" for y
  proof -
    have "re_id (snd y) \<noteq> re_id e" using ids y by force
    moreover have "routes_ok (rb_nextId rb) (rb_faceEntries rb) (snd y)" using ok y by (auto simp: rib_ok_def t)
    ultimately show ?thesis by (auto simp: routes_ok_def faces_def in_set_remove1)
  qed
  have mine: "routes_ok (rb_nextId rb) faces e'" if "re_routes e' \<noteq> []"
  proof -
    have "(rt_faceId y, re_id e) \<in> set faces" if "y \<in> set (re_routes e')" for y
    proof (cases "hasFaceId (rt_faceId r) e'")
      case True
      then show ?thesis using that re by (auto simp: faces_def routes_ok_def routes')
    next
      case False
      then have "rt_faceId y \<noteq> rt_faceId r" using that by (auto simp: hasFaceId_def list_ex_iff)
      then show ?thesis using that re by (auto simp: faces_def routes_ok_def routes' in_set_remove1)
    qed
    moreover have "re_id e' = re_id e" by (simp add: e'_def)
    ultimately show ?thesis using that re by (simp add: routes_ok_def routes' distinct_map_filter)
  qed
  have sorted: "sorted_wrt (<) (map fst (a @ (p, e) # b))" using ok by (simp add: rib_ok_def t)
  show ?thesis
  proof (cases "re_routes e' = []")
    case False
    with others mine links ids items sorted show ?thesis by (auto simp: op rib_ok_def t1_def e'_def)
  next
    case True
    have "p \<notin> fst ` set a" "p \<notin> fst ` set b" using sorted by (auto simp: sorted_wrt_append)
    then have "tab_del p (rows t1) = rows (a @ b)"
      unfolding rows_del [symmetric] t1_def tab_del_append by simp
    moreover have "links_ok (eraseEntry p t1)"
    proof (rule links_erase [OF links])
      show "tab_get t1 p = Some e'" using e by (simp add: t1_def e'_def m [symmetric])
    qed
    moreover have "sorted_wrt (<) (map fst (a @ b))" using sorted by (simp add: sorted_wrt_append)
    moreover have "\<forall>y\<in>set (a @ b). routes_ok (rb_nextId rb) faces (snd y)" using others by blast
    ultimately show ?thesis using True ids items
      unfolding op rib_ok_rows by (simp add: ball_Un rows_def [of "_ @ _"] comp_def t1_def)
  qed
qed


lemma links_modifyInherited: "links_ok t \<Longrightarrow> links_ok (modifyInheritedRoutes us t)"
  unfolding modifyInheritedRoutes_def
proof (induction us arbitrary: t)
  case (Cons u us)
  show ?case unfolding fold.simps comp_def
    by (rule Cons.IH)
       (simp add: Cons.prems links_modify re_addInheritedRoute_def re_removeInheritedRoute_def split: rib_action.split)
qed simp

lemma modifyInherited_ok: "rib_ok rb \<Longrightarrow> rib_ok (rb\<lparr>rb_table := modifyInheritedRoutes us (rb_table rb)\<rparr>)"
  unfolding rib_ok_rows by (simp add: links_modifyInherited)

lemma rib_okD:
  assumes "rib_ok rb" "tab_get (rb_table rb) n = Some e"
  shows "re_routes e \<noteq> []" "distinct (map route_key (re_routes e))"
    "r \<in> set (re_routes e) \<Longrightarrow> (rt_faceId r, re_id e) \<in> set (rb_faceEntries rb)"
  using assms map_of_SomeD [OF assms(2)] by (auto simp: rib_ok_def routes_ok_def)


section \<open>Routes of the ancestors\<close>

text \<open>
  The entries of the proper prefixes of a name, the longest first, and those of them whose
  routes may reach the name: up to the first that captures.
\<close>

definition ancestors_from :: "name \<Rightarrow> rib_table \<Rightarrow> nat \<Rightarrow> rib_entry list" where
  "ancestors_from n t i = List.map_filter (\<lambda>j. tab_get t (take j n)) (rev [0..<i])"

definition ancestors :: "name \<Rightarrow> rib_table \<Rightarrow> rib_entry list" where
  "ancestors n t = ancestors_from n t (length n)"

fun until_capture :: "rib_entry list \<Rightarrow> rib_entry list" where
  "until_capture [] = []"
| "until_capture (e # es) = e # (if hasCapture e then [] else until_capture es)"

definition inheritable :: "name \<Rightarrow> rib_table \<Rightarrow> route list" where
  "inheritable n t = filter isChildInherit (concat (map re_routes (until_capture (ancestors n t))))"

lemma ancestors_from_Suc:
  "ancestors_from n t (Suc i) = (case tab_get t (take i n) of None \<Rightarrow> ancestors_from n t i | Some e \<Rightarrow> e # ancestors_from n t i)"
  by (simp add: ancestors_from_def List.map_filter_simps split: option.split)

lemma ancestors_from_parent:
  "ancestors_from n t i =
     (case parent_loop n t i of None \<Rightarrow> [] | Some q \<Rightarrow> the (tab_get t q) # ancestors_from n t (length q))"
  if "i \<le> length n"
  using that
proof (induction i)
  case 0
  show ?case by (simp add: ancestors_from_def List.map_filter_simps)
next
  case (Suc i)
  then show ?case by (auto simp: ancestors_from_Suc min_def split: option.splits)
qed

lemma ancestors_from_take: "j \<le> length n \<Longrightarrow> ancestors (take j n) t = ancestors_from n t j"
proof -
  assume j: "j \<le> length n"
  have "i \<le> j \<Longrightarrow> ancestors_from (take j n) t i = ancestors_from n t i" for i
  proof (induction i)
    case 0
    show ?case by (simp add: ancestors_from_def)
  next
    case (Suc i)
    then show ?case by (simp add: ancestors_from_Suc min_def split: option.split)
  qed
  with j show ?thesis by (simp add: ancestors_def min_def)
qed

lemma ancestors_parent:
  "ancestors n t = (case findParent n t of None \<Rightarrow> [] | Some q \<Rightarrow> the (tab_get t q) # ancestors q t)"
proof (cases "findParent n t")
  case None
  then show ?thesis by (simp add: ancestors_def findParent_def ancestors_from_parent)
next
  case (Some q)
  then obtain j where j: "j < length n" "q = take j n"
    using findParent_found(1) [OF Some] strict_prefix_take by blast
  with Some show ?thesis
    by (simp add: ancestors_from_take) (simp add: ancestors_def findParent_def ancestors_from_parent)
qed

lemma ancestors_length: "length (ancestors n t) \<le> length t"
proof -
  let ?js = "filter (\<lambda>j. has_prefix (take j n) t) [0..<length n]"
  have "length (ancestors_from n t i) = length (filter (\<lambda>j. has_prefix (take j n) t) [0..<i])" for i
  proof (induction i)
    case 0
    show ?case by (simp add: ancestors_from_def List.map_filter_simps)
  next
    case (Suc i)
    then show ?case by (simp add: ancestors_from_Suc has_prefix_def split: option.split)
  qed
  then have "length (ancestors n t) = card (set ?js)" by (simp add: ancestors_def distinct_card [of ?js, symmetric])
  also have "\<dots> = card ((\<lambda>j. take j n) ` set ?js)"
  proof (rule card_image [symmetric], rule inj_onI)
    fix i j assume "i \<in> set ?js" "j \<in> set ?js" "take i n = take j n"
    then have "length (take i n) = length (take j n)" "i < length n" "j < length n" by auto
    then show "i = j" by simp
  qed
  also have "\<dots> \<le> card (set (map fst t))"
    by (rule card_mono) (auto simp: has_prefix_keys)
  also have "\<dots> \<le> length t" using card_length [of "map fst t"] by simp
  finally show ?thesis .
qed

lemma ancestor_loop_inheritable:
  assumes ok: "links_ok t" and "length (ancestors n t) \<le> k"
  shows "ancestor_loop k (findParent n t) rs t = fold routes_insert (inheritable n t) rs"
  using assms(2)
proof (induction k arbitrary: n rs)
  case 0
  then show ?case by (simp add: inheritable_def)
next
  case (Suc k)
  show ?case
  proof (cases "findParent n t")
    case None
    then show ?thesis by (simp add: inheritable_def ancestors_parent [of n])
  next
    case (Some q)
    then obtain e where e: "tab_get t q = Some e" using findParent_found(2) [OF Some] by (auto simp: has_prefix_def)
    have anc: "ancestors n t = e # ancestors q t" by (simp add: ancestors_parent [of n] Some e)
    have "re_parent e = findParent q t" using ok e by (rule links_okD(2))
    with Suc.IH [of q] Suc.prems anc Some e show ?thesis by (simp add: inheritable_def)
  qed
qed


lemma find_insort:
  "\<not> list_ex (\<lambda>x. rt_faceId x = rt_faceId r) rs \<Longrightarrow>
     find (\<lambda>x. rt_faceId x = f) (insort_key rt_faceId r rs) = (if rt_faceId r = f then Some r else find (\<lambda>x. rt_faceId x = f) rs)"
  by (induction rs) auto

lemma find_routes_insert:
  "find (\<lambda>x. rt_faceId x = f) (routes_insert r rs) =
     (case find (\<lambda>x. rt_faceId x = f) rs of Some x \<Rightarrow> Some x | None \<Rightarrow> if rt_faceId r = f then Some r else None)"
proof (cases "list_ex (\<lambda>x. rt_faceId x = rt_faceId r) rs")
  case True
  then have "find (\<lambda>x. rt_faceId x = rt_faceId r) rs \<noteq> None" by (auto simp: list_ex_iff find_None_iff)
  with True show ?thesis by (auto simp: routes_insert_def split: option.split)
next
  case False
  then have "find (\<lambda>x. rt_faceId x = rt_faceId r) rs = None" by (auto simp: list_ex_iff find_None_iff)
  with False show ?thesis by (auto simp: routes_insert_def find_insort split: option.split)
qed

lemma find_routes_insert_all:
  "find (\<lambda>x. rt_faceId x = f) (fold routes_insert xs rs) =
     (case find (\<lambda>x. rt_faceId x = f) rs of Some x \<Rightarrow> Some x | None \<Rightarrow> find (\<lambda>x. rt_faceId x = f) xs)"
  by (induction xs arbitrary: rs) (auto simp: find_routes_insert split: option.split)

lemma faces_insort: "set (map rt_faceId (insort_key rt_faceId r rs)) = insert (rt_faceId r) (set (map rt_faceId rs))"
  by (induction rs) auto

lemma sorted_routes_insert:
  "sorted_wrt (<) (map rt_faceId rs) \<Longrightarrow> sorted_wrt (<) (map rt_faceId (routes_insert r rs))"
proof (induction rs)
  case (Cons x rs)
  show ?case
  proof (cases "list_ex (\<lambda>x. rt_faceId x = rt_faceId r) (x # rs)")
    case True
    with Cons.prems show ?thesis by (simp add: routes_insert_def)
  next
    case False
    then have ne: "rt_faceId x \<noteq> rt_faceId r" "\<not> list_ex (\<lambda>x. rt_faceId x = rt_faceId r) rs" by auto
    have "sorted_wrt (<) (map rt_faceId (insort_key rt_faceId r rs))"
      using Cons.IH Cons.prems ne by (simp add: routes_insert_def)
    moreover have "rt_faceId x < rt_faceId y" if "rt_faceId x < rt_faceId r" "y \<in> set (insort_key rt_faceId r rs)" for y
      using that Cons.prems by (auto simp: set_insort_key)
    ultimately show ?thesis using False ne Cons.prems by (auto simp: routes_insert_def)
  qed
qed (simp add: routes_insert_def)

lemma sorted_routes_insert_all:
  "sorted_wrt (<) (map rt_faceId rs) \<Longrightarrow> sorted_wrt (<) (map rt_faceId (fold routes_insert xs rs))"
  by (induction xs arbitrary: rs) (simp_all add: sorted_routes_insert)

lemma ancestor_routes_fold:
  assumes "links_ok t"
  shows "getAncestorRoutes_name n t = fold routes_insert (inheritable n t) []"
    "tab_get t n = Some e \<Longrightarrow> getAncestorRoutes e t = fold routes_insert (inheritable n t) []"
  using ancestor_loop_inheritable [OF assms ancestors_length] links_okD(2) [OF assms]
  by (simp_all add: getAncestorRoutes_name_def getAncestorRoutes_def)

text \<open>The scan for descendants, which stops at the first name outside the prefix,
  finds every entry below an existing prefix: the same entries, in the same order, as the
  scan of the whole table made for names without an entry, which also finds the prefix.\<close>

theorem descendants_complete:
  assumes "rib_ok rb" "has_prefix p (rb_table rb)"
  shows "findDescendantsForNonInsertedName p (rb_table rb) = p # findDescendants p (rb_table rb)"
proof -
  have sorted: "sorted_wrt (<) (map fst (rb_table rb))" using assms(1) by (simp add: rib_ok_def)
  have "filter (prefix p) ns = p # filter (strict_prefix p) ns" if "sorted_wrt (<) ns" "p \<in> set ns" for ns :: "name list"
    using that
  proof (induction ns)
    case (Cons n ns)
    show ?case
    proof (cases "n = p")
      case True
      have "filter (prefix p) ns = filter (strict_prefix p) ns"
        using Cons.prems True by (intro filter_cong) (auto simp: strict_prefix_def)
      with True show ?thesis by simp
    next
      case False
      then have "n < p" using Cons.prems by auto
      then have "\<not> prefix p n" using below_greater [of p n] by auto
      with False Cons show ?thesis by (auto simp: strict_prefix_def)
    qed
  qed simp
  from this [OF sorted] assms(2) show ?thesis
    by (simp add: findDescendants_below [OF sorted] findDescendantsForNonInsertedName_def isPrefixOf_prefix has_prefix_keys
        filter_map comp_def)
qed

text \<open>C23: the routes a name inherits are, for each face, the first child-inherit route on the
  nearest ancestor that has one, looking no further up than the nearest ancestor with a
  capture route; at most one for each face, in the order of faces.\<close>

theorem ancestor_routes_exact:
  assumes "rib_ok rb"
  shows "find (\<lambda>r. rt_faceId r = f) (getAncestorRoutes_name n (rb_table rb)) =
      find (\<lambda>r. rt_faceId r = f \<and> isChildInherit r) (concat (map re_routes (until_capture (ancestors n (rb_table rb))))) \<and>
    sorted_wrt (<) (map rt_faceId (getAncestorRoutes_name n (rb_table rb)))"
proof -
  have links: "links_ok (rb_table rb)" using assms by (simp add: rib_ok_def)
  have "find P (filter Q xs) = find (\<lambda>r. P r \<and> Q r) xs" for P Q and xs :: "route list" by (induction xs) auto
  then show ?thesis
    by (simp add: ancestor_routes_fold [OF links] find_routes_insert_all sorted_routes_insert_all inheritable_def)
qed


definition two_prefixes :: rib where
  "two_prefixes =
     (let r = \<lparr>rt_faceId = 1, rt_origin = 0, rt_cost = 10, rt_flags = 1, rt_expires = None, rt_announcement = None, rt_annExpires = 0\<rparr>
      in Rib_insert [Component 8 [1], Component 8 [2]] r (Rib_insert [Component 8 [1]] r Rib_new))"

lemma two_prefixes_ok: "rib_ok two_prefixes"
  by (simp add: two_prefixes_def Rib_insert_ok Let_def)

theorem descendants_complete_witness:
  "findDescendants [Component 8 [1]] (rb_table two_prefixes) = [[Component 8 [1], Component 8 [2]]] \<and>
   findDescendantsForNonInsertedName [Component 8 [1]] (rb_table two_prefixes) = [[Component 8 [1]], [Component 8 [1], Component 8 [2]]]"
proof -
  have "has_prefix [Component 8 [1]] (rb_table two_prefixes)" by code_simp
  moreover have "findDescendants [Component 8 [1]] (rb_table two_prefixes) = [[Component 8 [1], Component 8 [2]]]" by code_simp
  ultimately show ?thesis using descendants_complete [OF two_prefixes_ok] by simp
qed

theorem ancestor_routes_exact_witness:
  "find (\<lambda>r. rt_faceId r = 1) (getAncestorRoutes_name [Component 8 [1], Component 8 [3]] (rb_table two_prefixes)) \<noteq> None"
proof -
  have "find (\<lambda>r. rt_faceId r = 1 \<and> isChildInherit r)
      (concat (map re_routes (until_capture (ancestors [Component 8 [1], Component 8 [3]] (rb_table two_prefixes))))) \<noteq> None" by code_simp
  with ancestor_routes_exact [OF two_prefixes_ok, of 1 "[Component 8 [1], Component 8 [3]]"] show ?thesis by simp
qed

end
