(* ===== verification/Fib_Updater.thy ===== *)
theory Fib_Updater
  imports Rib_Table "HOL-Library.Multiset"
begin

text \<open>
  From changes of the RIB to commands for the FIB (\<^verbatim>\<open>rib/fib-updater.cpp\<close>), and the queue of
  RIB updates that drives it (second half of \<^verbatim>\<open>rib/rib.cpp\<close>).  An update of the RIB is first
  turned into FIB commands; only when these have been answered is the RIB itself changed.
\<close>

section \<open>FIB updates\<close>

datatype fib_action = ADD_NEXTHOP | REMOVE_NEXTHOP

record fib_update =
  fup_name :: name
  fup_faceId :: nat
  fup_cost :: nat
  fup_action :: fib_action

definition createAddUpdate :: "name \<Rightarrow> nat \<Rightarrow> nat \<Rightarrow> fib_update" where
  "createAddUpdate n faceId cost = \<lparr>fup_name = n, fup_faceId = faceId, fup_cost = cost, fup_action = ADD_NEXTHOP\<rparr>"

definition createRemoveUpdate :: "name \<Rightarrow> nat \<Rightarrow> fib_update" where
  "createRemoveUpdate n faceId = \<lparr>fup_name = n, fup_faceId = faceId, fup_cost = 0, fup_action = REMOVE_NEXTHOP\<rparr>"

record fib_updater =
  fu_batchFaceId :: nat
  fu_updatesForBatchFaceId :: "fib_update list"
  fu_updatesForNonBatchFaceId :: "fib_update list"
  fu_inheritedRoutes :: "rib_update list"

fun merge_update :: "fib_update \<Rightarrow> fib_update list \<Rightarrow> fib_update list" where
  "merge_update u [] = [u]"
| "merge_update u (x # xs) =
     (if fup_name u = fup_name x \<and> fup_faceId u = fup_faceId x
      then x\<lparr>fup_action := fup_action u, fup_cost := fup_cost u\<rparr> # xs else x # merge_update u xs)"

definition addFibUpdate :: "fib_update \<Rightarrow> fib_updater \<Rightarrow> fib_updater" where
  "addFibUpdate u fu =
     (if fup_faceId u = fu_batchFaceId fu
      then fu\<lparr>fu_updatesForBatchFaceId := merge_update u (fu_updatesForBatchFaceId fu)\<rparr>
      else fu\<lparr>fu_updatesForNonBatchFaceId := merge_update u (fu_updatesForNonBatchFaceId fu)\<rparr>)"

definition addInheritedRoute :: "name \<Rightarrow> route \<Rightarrow> fib_updater \<Rightarrow> fib_updater" where
  "addInheritedRoute n r fu =
     fu\<lparr>fu_inheritedRoutes := fu_inheritedRoutes fu @ [\<lparr>ru_action = REGISTER, ru_name = n, ru_route = r\<rparr>]\<rparr>"

definition removeInheritedRoute :: "name \<Rightarrow> route \<Rightarrow> fib_updater \<Rightarrow> fib_updater" where
  "removeInheritedRoute n r fu =
     fu\<lparr>fu_inheritedRoutes := fu_inheritedRoutes fu @ [\<lparr>ru_action = UNREGISTER, ru_name = n, ru_route = r\<rparr>]\<rparr>"

text \<open>An inherited route is recorded for the RIB and announced to the FIB in one go.\<close>

definition give :: "name \<Rightarrow> route \<Rightarrow> fib_updater \<Rightarrow> fib_updater" where
  "give n r fu = addFibUpdate (createAddUpdate n (rt_faceId r) (rt_cost r)) (addInheritedRoute n r fu)"

definition retract :: "name \<Rightarrow> route \<Rightarrow> fib_updater \<Rightarrow> fib_updater" where
  "retract n r fu = addFibUpdate (createRemoveUpdate n (rt_faceId r)) (removeInheritedRoute n r fu)"

definition addInheritedRoutes :: "rib_entry \<Rightarrow> route list \<Rightarrow> fib_updater \<Rightarrow> fib_updater" where
  "addInheritedRoutes entry routesToAdd fu =
     fold (\<lambda>r fu. if \<not> hasFaceId (rt_faceId r) entry then give (re_name entry) r fu else fu) routesToAdd fu"

definition addInheritedRoutes_name :: "name \<Rightarrow> route list \<Rightarrow> route \<Rightarrow> fib_updater \<Rightarrow> fib_updater" where
  "addInheritedRoutes_name n routesToAdd ignore fu =
     fold (\<lambda>r fu. if rt_faceId r \<noteq> rt_faceId ignore then give n r fu else fu) routesToAdd fu"

definition removeInheritedRoutes :: "rib_entry \<Rightarrow> route list \<Rightarrow> fib_updater \<Rightarrow> fib_updater" where
  "removeInheritedRoutes entry routesToRemove fu =
     fold (\<lambda>r fu. if hasInheritedRoute r entry then retract (re_name entry) r fu else fu) routesToRemove fu"

text \<open>The descent into the subtree below an entry; the depth of the tree is at most the
  number of its entries.\<close>

definition update_node :: "rib_entry \<Rightarrow> route list \<Rightarrow> route list \<Rightarrow> fib_updater \<Rightarrow> fib_updater" where
  "update_node entry routesToAdd routesToRemove fu =
     fold (\<lambda>r fu. if \<not> hasFaceId (rt_faceId r) entry then give (re_name entry) r fu else fu) routesToAdd
       (fold (\<lambda>r fu. if hasInheritedRoute r entry then retract (re_name entry) r fu else fu) routesToRemove fu)"

primrec traverseSubTree :: "nat \<Rightarrow> rib_table \<Rightarrow> name \<Rightarrow> route list \<Rightarrow> route list \<Rightarrow> fib_updater \<Rightarrow> fib_updater" where
  "traverseSubTree 0 t n routesToAdd routesToRemove fu = fu"
| "traverseSubTree (Suc k) t n routesToAdd routesToRemove fu =
     (case tab_get t n of
        None \<Rightarrow> fu
      | Some entry \<Rightarrow>
          if hasCapture entry then fu
          else (let R = filter (\<lambda>r. \<not> hasChildInheritOnFaceId (rt_faceId r) entry) routesToRemove;
                    A = filter (\<lambda>r. \<not> hasChildInheritOnFaceId (rt_faceId r) entry) routesToAdd
                in fold (\<lambda>c. traverseSubTree k t c A R) (re_children entry) (update_node entry A R fu)))"

definition modifyChildrensInheritedRoutes ::
  "rib_table \<Rightarrow> name list \<Rightarrow> route list \<Rightarrow> route list \<Rightarrow> fib_updater \<Rightarrow> fib_updater" where
  "modifyChildrensInheritedRoutes t children routesToAdd routesToRemove fu =
     fold (\<lambda>c. traverseSubTree (length t) t c routesToAdd routesToRemove) children fu"

section \<open>Updates for each kind of change\<close>

definition createFibUpdatesForNewRibEntry :: "rib_table \<Rightarrow> name \<Rightarrow> route \<Rightarrow> name list \<Rightarrow> fib_updater \<Rightarrow> fib_updater" where
  "createFibUpdatesForNewRibEntry t n r children fu0 =
     (let fu = addFibUpdate (createAddUpdate n (rt_faceId r) (rt_cost r)) fu0 in
      if \<not> isChildInherit r \<and> \<not> isRibCapture r then
        addInheritedRoutes_name n (getAncestorRoutes_name n t) r fu
      else if isChildInherit r \<and> isRibCapture r then
        modifyChildrensInheritedRoutes t children [r] (getAncestorRoutes_name n t) fu
      else if isChildInherit r then
        (let ancestorRoutes = getAncestorRoutes_name n t;
             fu1 = addInheritedRoutes_name n ancestorRoutes r fu;
             routesToAdd = routes_insert r (filter (\<lambda>x. rt_faceId x \<noteq> rt_faceId r) ancestorRoutes)
         in modifyChildrensInheritedRoutes t children routesToAdd [] fu1)
      else if isRibCapture r then
        modifyChildrensInheritedRoutes t children [] (getAncestorRoutes_name n t) fu
      else fu)"

definition createFibUpdatesForNewRoute :: "rib_table \<Rightarrow> rib_entry \<Rightarrow> route \<Rightarrow> bool \<Rightarrow> fib_updater \<Rightarrow> fib_updater" where
  "createFibUpdatesForNewRoute t entry r captureWasTurnedOn fu =
     (let prevRoute = getRouteWithLowestCostAndChildInheritByFaceId (rt_faceId r) entry;
          routesToAdd = (if isChildInherit r \<and> (case prevRoute of None \<Rightarrow> True | Some p \<Rightarrow> rt_cost r \<le> rt_cost p) then [r] else []);
          routesToRemove = (if captureWasTurnedOn then getAncestorRoutes entry t else []);
          fu1 = (if captureWasTurnedOn then removeInheritedRoutes entry routesToRemove fu else fu);
          fu2 = modifyChildrensInheritedRoutes t (re_children entry) routesToAdd routesToRemove fu1
      in case getRouteWithLowestCostByFaceId (rt_faceId r) entry of
           None \<Rightarrow> addFibUpdate (createAddUpdate (re_name entry) (rt_faceId r) (rt_cost r)) fu2
         | Some other \<Rightarrow>
             if rt_cost r \<le> rt_cost other
             then addFibUpdate (createAddUpdate (re_name entry) (rt_faceId r) (rt_cost r)) fu2 else fu2)"

text \<open>The three parts of the update for a changed route: the entry itself, child-inherit, capture.\<close>

definition update_own_cost :: "rib_entry \<Rightarrow> route \<Rightarrow> route \<Rightarrow> route option \<Rightarrow> fib_updater \<Rightarrow> fault + fib_updater" where
  "update_own_cost entry r existingRoute prevRoute fu =
     (case getRouteWithLowestCostByFaceId (rt_faceId r) entry of
        None \<Rightarrow> Inl NullDereference
      | Some lowest \<Rightarrow>
          if rt_cost r \<le> rt_cost lowest
          then Inr (addFibUpdate (createAddUpdate (re_name entry) (rt_faceId r) (rt_cost r)) fu)
          else if rt_cost existingRoute < rt_cost lowest
          then (case prevRoute of
                  None \<Rightarrow> Inl NullDereference
                | Some p \<Rightarrow> Inr (addFibUpdate (createAddUpdate (re_name entry) (rt_faceId p) (rt_cost p)) fu))
          else Inr fu)"

definition update_child_inherit ::
  "rib_table \<Rightarrow> rib_entry \<Rightarrow> route \<Rightarrow> route \<Rightarrow> route option \<Rightarrow> fib_updater \<Rightarrow> fib_updater" where
  "update_child_inherit t entry r existingRoute prevRoute fu =
     (if \<not> isChildInherit existingRoute \<and> isChildInherit r then
        (if (case prevRoute of None \<Rightarrow> True | Some p \<Rightarrow> rt_cost r \<le> rt_cost p)
         then modifyChildrensInheritedRoutes t (re_children entry) [r] [] fu else fu)
      else if isChildInherit existingRoute \<and> \<not> isChildInherit r then
        (let routesToAdd = (case prevRoute of
               Some p \<Rightarrow> [p]
             | None \<Rightarrow> (case routes_find r (getAncestorRoutes entry t) of Some x \<Rightarrow> [x] | None \<Rightarrow> []))
         in modifyChildrensInheritedRoutes t (re_children entry) routesToAdd [r] fu)
      else fu)"

definition update_capture :: "rib_table \<Rightarrow> rib_entry \<Rightarrow> route \<Rightarrow> route \<Rightarrow> fib_updater \<Rightarrow> fib_updater" where
  "update_capture t entry r existingRoute fu =
     (if \<not> isRibCapture existingRoute \<and> isRibCapture r then
        (let ancestorRoutes = getAncestorRoutes entry t in
         modifyChildrensInheritedRoutes t (re_children entry) [] ancestorRoutes (removeInheritedRoutes entry ancestorRoutes fu))
      else if isRibCapture existingRoute \<and> \<not> isRibCapture r then
        (let ancestorRoutes = getAncestorRoutes entry t in
         modifyChildrensInheritedRoutes t (re_children entry) ancestorRoutes [] (addInheritedRoutes entry ancestorRoutes fu))
      else fu)"

definition createFibUpdatesForUpdatedRoute :: "rib_table \<Rightarrow> rib_entry \<Rightarrow> route \<Rightarrow> route \<Rightarrow> fib_updater \<Rightarrow> fault + fib_updater" where
  "createFibUpdatesForUpdatedRoute t entry r existingRoute fu =
     (let costDidChange = (rt_cost r \<noteq> rt_cost existingRoute);
          prevRoute = getRouteWithLowestCostAndChildInheritByFaceId (rt_faceId r) entry in
      if rt_flags r = rt_flags existingRoute \<and> \<not> costDidChange then Inr fu
      else bind_sum (if costDidChange then update_own_cost entry r existingRoute prevRoute fu else Inr fu)
        (\<lambda>fu1. if costDidChange \<and> (case prevRoute of None \<Rightarrow> True | Some p \<Rightarrow> rt_cost r \<le> rt_cost p) \<and>
                   rt_flags r = rt_flags existingRoute \<and> isChildInherit r
               then Inr (modifyChildrensInheritedRoutes t (re_children entry) [r] [] fu1)
               else Inr (update_capture t entry r existingRoute (update_child_inherit t entry r existingRoute prevRoute fu1))))"

definition createFibUpdatesForErasedRoute :: "rib_table \<Rightarrow> rib_entry \<Rightarrow> route \<Rightarrow> bool \<Rightarrow> fib_updater \<Rightarrow> fib_updater" where
  "createFibUpdatesForErasedRoute t entry r captureWasTurnedOff fu0 =
     (let fu = addFibUpdate (createRemoveUpdate (re_name entry) (rt_faceId r)) fu0;
          ancestorRoutes = getAncestorRoutes entry t;
          givesBack = captureWasTurnedOff \<and> re_routes entry \<noteq> [];
          fu1 =
            (if isChildInherit r \<and> isRibCapture r then
               (if givesBack
                then modifyChildrensInheritedRoutes t (re_children entry) ancestorRoutes [r] (addInheritedRoutes entry ancestorRoutes fu)
                else modifyChildrensInheritedRoutes t (re_children entry) [] [r] fu)
             else if isChildInherit r then
               modifyChildrensInheritedRoutes t (re_children entry) (if \<not> hasCapture entry then ancestorRoutes else []) [r] fu
             else if isRibCapture r then
               (if givesBack
                then modifyChildrensInheritedRoutes t (re_children entry) ancestorRoutes [] (addInheritedRoutes entry ancestorRoutes fu)
                else modifyChildrensInheritedRoutes t (re_children entry) [] [] fu)
             else fu)
      in if \<not> hasCapture entry \<and> re_routes entry \<noteq> []
         then (case routes_find r ancestorRoutes of None \<Rightarrow> fu1 | Some x \<Rightarrow> give (re_name entry) x fu1)
         else fu1)"

definition createFibUpdatesForErasedRibEntry :: "rib_entry \<Rightarrow> fib_updater \<Rightarrow> fib_updater" where
  "createFibUpdatesForErasedRibEntry entry fu =
     fold (\<lambda>r. addFibUpdate (createRemoveUpdate (re_name entry) (rt_faceId r))) (re_inherited entry) fu"

section \<open>Computing the updates of a batch\<close>

definition computeUpdatesForRegistration :: "rib_table \<Rightarrow> name \<Rightarrow> route \<Rightarrow> fib_updater \<Rightarrow> fault + fib_updater" where
  "computeUpdatesForRegistration t p r fu =
     (case tab_get t p of
        Some entry \<Rightarrow>
         (case findRoute r entry of
            None \<Rightarrow> Inr (createFibUpdatesForNewRoute t entry r (\<not> hasCapture entry \<and> isRibCapture r) fu)
          | Some existingRoute \<Rightarrow>
             (let entryCopy = entry\<lparr>re_routes := replace_route
                    (existingRoute\<lparr>rt_flags := rt_flags r, rt_cost := rt_cost r, rt_expires := rt_expires r\<rparr>) (re_routes entry)\<rparr>
              in createFibUpdatesForUpdatedRoute t entryCopy r existingRoute fu))
      | None \<Rightarrow>
         (let parent = findParent p t;
              children = filter (\<lambda>d. Option.bind (tab_get t d) re_parent = parent) (findDescendantsForNonInsertedName p t)
          in Inr (createFibUpdatesForNewRibEntry t p r children fu)))"

definition computeUpdatesForUnregistration :: "rib_table \<Rightarrow> name \<Rightarrow> route \<Rightarrow> fib_updater \<Rightarrow> fib_updater" where
  "computeUpdatesForUnregistration t p r fu =
     (case tab_get t p of
        None \<Rightarrow> fu
      | Some entry \<Rightarrow>
         (case findRoute r entry of
            None \<Rightarrow> fu
          | Some existing \<Rightarrow>
             (let temp = eraseRoute r entry;
                  fu1 = createFibUpdatesForErasedRoute t temp existing (hasCapture entry \<and> \<not> hasCapture temp) fu;
                  fu2 = (case getRouteWithSecondLowestCostByFaceId (rt_faceId r) entry of
                           None \<Rightarrow> fu1 | Some x \<Rightarrow> createFibUpdatesForNewRoute t temp x False fu1)
              in if length (re_routes entry) = 1 then createFibUpdatesForErasedRibEntry entry fu2 else fu2)))"

definition computeUpdates :: "rib_table \<Rightarrow> rib_update \<Rightarrow> fault + fib_updater" where
  "computeUpdates t u =
     (let fu = \<lparr>fu_batchFaceId = rt_faceId (ru_route u), fu_updatesForBatchFaceId = [], fu_updatesForNonBatchFaceId = [],
                fu_inheritedRoutes = []\<rparr> in
      case ru_action u of
        REGISTER \<Rightarrow> computeUpdatesForRegistration t (ru_name u) (ru_route u) fu
      | UNREGISTER \<Rightarrow> Inr (computeUpdatesForUnregistration t (ru_name u) (ru_route u) fu)
      | REMOVE_FACE \<Rightarrow> Inr ((computeUpdatesForUnregistration t (ru_name u) (ru_route u) fu)\<lparr>fu_updatesForBatchFaceId := []\<rparr>))"

section \<open>The queue of updates\<close>

text \<open>
  A command sent to the FIB management, until it is answered: the update, how often it
  timed out, the verb it was sent with, and the batch its callbacks belong to.
\<close>

record command =
  cm_update :: fib_update
  cm_nTimeouts :: nat
  cm_verb :: fib_action
  cm_batch :: rib_update

record rib_system =
  rs_rib :: rib
  rs_updater :: fib_updater
  rs_sent :: "command list"

datatype rib_fault = ComputeFault fault | NonRecoverable nat

definition MAX_NUM_TIMEOUTS :: nat where "MAX_NUM_TIMEOUTS = 10"
definition ERROR_FACE_NOT_FOUND :: nat where "ERROR_FACE_NOT_FOUND = 410"
definition ERROR_TIMEOUT :: nat where "ERROR_TIMEOUT = 10060"

definition addUpdateToQueue :: "rib_update \<Rightarrow> rib \<Rightarrow> rib" where
  "addUpdateToQueue u rb = rb\<lparr>rb_updateBatches := rb_updateBatches rb @ [u]\<rparr>"

definition enqueueRemoveFace :: "rib_entry \<Rightarrow> nat \<Rightarrow> rib \<Rightarrow> rib" where
  "enqueueRemoveFace entry faceId rb =
     fold (\<lambda>r. addUpdateToQueue \<lparr>ru_action = REMOVE_FACE, ru_name = re_name entry, ru_route = r\<rparr>)
       (filter (\<lambda>r. rt_faceId r = faceId) (re_routes entry)) rb"

text \<open>An entry that has been erased from the table has no routes left.\<close>

definition entry_with_id :: "nat \<Rightarrow> rib \<Rightarrow> rib_entry option" where
  "entry_with_id i rb = find (\<lambda>e. re_id e = i) (map snd (rb_table rb))"

definition enqueue_face_entry :: "nat \<times> nat \<Rightarrow> rib \<Rightarrow> rib" where
  "enqueue_face_entry x rb =
     (case entry_with_id (snd x) rb of None \<Rightarrow> rb | Some e \<Rightarrow> enqueueRemoveFace e (fst x) rb)"

definition sendUpdates :: "rib_update \<Rightarrow> fib_update list \<Rightarrow> rib_system \<Rightarrow> rib_system" where
  "sendUpdates batch updates s =
     s\<lparr>rs_sent := rs_sent s @ map (\<lambda>u. \<lparr>cm_update = u, cm_nTimeouts = 0, cm_verb = fup_action u, cm_batch = batch\<rparr>) updates\<rparr>"

text \<open>The change of the RIB once the FIB has been updated, before the queue is advanced.\<close>

definition complete_batch :: "rib_update \<Rightarrow> rib_update list \<Rightarrow> rib \<Rightarrow> rib" where
  "complete_batch u inheritedRoutes rb =
     (let rb1 = (case ru_action u of
                   REGISTER \<Rightarrow> Rib_insert (ru_name u) (ru_route u) rb
                 | UNREGISTER \<Rightarrow> Rib_erase (ru_name u) (ru_route u) rb
                 | REMOVE_FACE \<Rightarrow> Rib_erase (ru_name u) (ru_route u) rb)
      in rb1\<lparr>rb_table := modifyInheritedRoutes inheritedRoutes (rb_table rb1), rb_isUpdateInProgress := False\<rparr>)"

lemma complete_batch_queue [simp]: "rb_updateBatches (complete_batch u us rb) = rb_updateBatches rb"
  by (simp add: complete_batch_def Rib_insert_def Rib_erase_def Let_def split: rib_action.split option.split prod.split bool.split)

text \<open>
  The next batch is taken from the queue when none is in progress.  A batch without FIB
  updates succeeds at once and the queue is advanced again.
\<close>

function sendBatchFromQueue :: "rib_system \<Rightarrow> rib_fault + rib_system" where
  "sendBatchFromQueue s =
     (case rb_updateBatches (rs_rib s) of
        [] \<Rightarrow> Inr s
      | u # us \<Rightarrow>
          if rb_isUpdateInProgress (rs_rib s) then Inr s
          else (case computeUpdates (rb_table (rs_rib s)) u of
                  Inl x \<Rightarrow> Inl (ComputeFault x)
                | Inr fu \<Rightarrow>
                    (let s1 = s\<lparr>rs_rib := (rs_rib s)\<lparr>rb_isUpdateInProgress := True, rb_updateBatches := us\<rparr>, rs_updater := fu\<rparr> in
                     if fu_updatesForBatchFaceId fu \<noteq> [] then Inr (sendUpdates u (fu_updatesForBatchFaceId fu) s1)
                     else if fu_updatesForNonBatchFaceId fu \<noteq> [] then Inr (sendUpdates u (fu_updatesForNonBatchFaceId fu) s1)
                     else sendBatchFromQueue (s1\<lparr>rs_rib := complete_batch u (fu_inheritedRoutes fu) (rs_rib s1)\<rparr>))))"
  by pat_completeness auto
termination
  by (relation "measure (\<lambda>s. length (rb_updateBatches (rs_rib s)))") auto

declare sendBatchFromQueue.simps [simp del]

definition beginApplyUpdate :: "rib_update \<Rightarrow> rib_system \<Rightarrow> rib_fault + rib_system" where
  "beginApplyUpdate u s = sendBatchFromQueue (s\<lparr>rs_rib := addUpdateToQueue u (rs_rib s)\<rparr>)"

definition onRouteExpiration :: "name \<Rightarrow> route \<Rightarrow> rib_system \<Rightarrow> rib_fault + rib_system" where
  "onRouteExpiration p r s = beginApplyUpdate \<lparr>ru_action = UNREGISTER, ru_name = p, ru_route = r\<rparr> s"

definition beginRemoveFace :: "nat \<Rightarrow> rib_system \<Rightarrow> rib_fault + rib_system" where
  "beginRemoveFace faceId s =
     sendBatchFromQueue (s\<lparr>rs_rib := fold enqueue_face_entry (filter (\<lambda>x. fst x = faceId) (rb_faceEntries (rs_rib s))) (rs_rib s)\<rparr>)"

definition beginRemoveFailedFaces :: "nat list \<Rightarrow> rib_system \<Rightarrow> rib_fault + rib_system" where
  "beginRemoveFailedFaces activeFaceIds s =
     sendBatchFromQueue (s\<lparr>rs_rib := fold enqueue_face_entry
       (filter (\<lambda>x. fst x \<notin> set activeFaceIds) (sort_key fst (rb_faceEntries (rs_rib s)))) (rs_rib s)\<rparr>)"

definition onFibUpdateSuccess :: "rib_update \<Rightarrow> rib_system \<Rightarrow> rib_fault + rib_system" where
  "onFibUpdateSuccess batch s =
     sendBatchFromQueue (s\<lparr>rs_rib := complete_batch batch (fu_inheritedRoutes (rs_updater s)) (rs_rib s)\<rparr>)"

definition onFibUpdateFailure :: "rib_system \<Rightarrow> rib_fault + rib_system" where
  "onFibUpdateFailure s = sendBatchFromQueue (s\<lparr>rs_rib := (rs_rib s)\<lparr>rb_isUpdateInProgress := False\<rparr>\<rparr>)"

definition non_batch_done :: "command \<Rightarrow> rib_system \<Rightarrow> rib_fault + rib_system" where
  "non_batch_done c s =
     (let left = removeAll (cm_update c) (fu_updatesForNonBatchFaceId (rs_updater s));
          s1 = s\<lparr>rs_updater := (rs_updater s)\<lparr>fu_updatesForNonBatchFaceId := left\<rparr>\<rparr>
      in if left = [] then onFibUpdateSuccess (cm_batch c) s1 else Inr s1)"

definition onUpdateSuccess :: "command \<Rightarrow> rib_system \<Rightarrow> rib_fault + rib_system" where
  "onUpdateSuccess c s =
     (if fup_faceId (cm_update c) = fu_batchFaceId (rs_updater s) then
        (let left = removeAll (cm_update c) (fu_updatesForBatchFaceId (rs_updater s));
             s1 = s\<lparr>rs_updater := (rs_updater s)\<lparr>fu_updatesForBatchFaceId := left\<rparr>\<rparr>
         in if left = [] then
              (if fu_updatesForNonBatchFaceId (rs_updater s) \<noteq> []
               then Inr (sendUpdates (cm_batch c) (fu_updatesForNonBatchFaceId (rs_updater s)) s1)
               else onFibUpdateSuccess (cm_batch c) s1)
            else Inr s1)
      else non_batch_done c s)"

definition onUpdateError :: "command \<Rightarrow> nat \<Rightarrow> rib_system \<Rightarrow> rib_fault + rib_system" where
  "onUpdateError c code s =
     (if code = ERROR_TIMEOUT \<and> cm_nTimeouts c < MAX_NUM_TIMEOUTS then
        Inr (s\<lparr>rs_sent := rs_sent s @ [c\<lparr>cm_nTimeouts := cm_nTimeouts c + 1, cm_verb := ADD_NEXTHOP\<rparr>]\<rparr>)
      else if code = ERROR_FACE_NOT_FOUND then
        (if fup_faceId (cm_update c) = fu_batchFaceId (rs_updater s) then onFibUpdateFailure s else non_batch_done c s)
      else Inl (NonRecoverable code))"

text \<open>
  What can happen to the RIB: a route is registered, unregistered or expires, a face goes
  away, the faces are checked against the list of active ones, and a command that was sent
  is answered, with success or with an error code, in any order.
\<close>

datatype rib_event =
    Apply rib_update
  | FaceRemoved nat
  | ActiveFaces "nat list"
  | Success nat
  | Failure nat nat

definition drop_at :: "nat \<Rightarrow> 'a list \<Rightarrow> 'a list" where
  "drop_at i xs = take i xs @ drop (Suc i) xs"

definition rib_handle :: "rib_event \<Rightarrow> rib_system \<Rightarrow> rib_fault + rib_system" where
  "rib_handle ev s =
     (case ev of
        Apply u \<Rightarrow> beginApplyUpdate u s
      | FaceRemoved f \<Rightarrow> beginRemoveFace f s
      | ActiveFaces fs \<Rightarrow> beginRemoveFailedFaces fs s
      | Success i \<Rightarrow> if i < length (rs_sent s) then onUpdateSuccess (rs_sent s ! i) (s\<lparr>rs_sent := drop_at i (rs_sent s)\<rparr>) else Inr s
      | Failure i code \<Rightarrow>
          if i < length (rs_sent s) then onUpdateError (rs_sent s ! i) code (s\<lparr>rs_sent := drop_at i (rs_sent s)\<rparr>) else Inr s)"

primrec rib_run :: "rib_event list \<Rightarrow> rib_system \<Rightarrow> rib_fault + rib_system" where
  "rib_run [] s = Inr s"
| "rib_run (ev # evs) s = bind_sum (rib_handle ev s) (rib_run evs)"

definition rib_start :: rib_system where
  "rib_start = \<lparr>rs_rib = Rib_new,
     rs_updater = \<lparr>fu_batchFaceId = 0, fu_updatesForBatchFaceId = [], fu_updatesForNonBatchFaceId = [], fu_inheritedRoutes = []\<rparr>,
     rs_sent = []\<rparr>"

section \<open>What every computation of updates keeps\<close>

text \<open>
  Updates are only ever built from three steps.  A predicate that these keep is kept by the
  computation for every change of the RIB.
\<close>

locale updater_invariant =
  fixes good :: "fib_updater \<Rightarrow> bool"
  assumes fib: "good fu \<Longrightarrow> good (addFibUpdate u fu)"
    and inherit: "good fu \<Longrightarrow> good (addInheritedRoute n r fu)"
    and disinherit: "good fu \<Longrightarrow> good (removeInheritedRoute n r fu)"
begin

lemma fold_good: "(\<And>x fu. good fu \<Longrightarrow> good (f x fu)) \<Longrightarrow> good fu \<Longrightarrow> good (fold f xs fu)"
  by (induction xs arbitrary: fu) simp_all

lemma give_good: "good fu \<Longrightarrow> good (give n r fu)"
  by (simp add: give_def fib inherit)

lemma retract_good: "good fu \<Longrightarrow> good (retract n r fu)"
  by (simp add: retract_def fib disinherit)

lemma inherited_good:
  assumes "good fu"
  shows "good (addInheritedRoutes e rs fu)" "good (addInheritedRoutes_name n rs r fu)" "good (removeInheritedRoutes e rs fu)"
    "good (update_node e A R fu)" "good (createFibUpdatesForErasedRibEntry e fu)"
  unfolding addInheritedRoutes_def addInheritedRoutes_name_def removeInheritedRoutes_def update_node_def
    createFibUpdatesForErasedRibEntry_def
  using assms by (auto intro!: fold_good simp: give_good retract_good fib)

lemma traverse_good: "good fu \<Longrightarrow> good (traverseSubTree k t n A R fu)"
proof (induction k arbitrary: n A R fu)
  case (Suc k)
  have "good (fold (\<lambda>c. traverseSubTree k t c A R) cs fu)" if "good fu" for A R cs fu
    using Suc.IH that by (rule fold_good)
  with Suc.prems show ?case by (simp add: inherited_good Let_def split: option.split)
qed simp

lemma children_good: "good fu \<Longrightarrow> good (modifyChildrensInheritedRoutes t cs A R fu)"
  unfolding modifyChildrensInheritedRoutes_def by (rule fold_good) (rule traverse_good)

lemma changes_good:
  assumes "good fu"
  shows "good (createFibUpdatesForNewRibEntry t n r cs fu)" "good (createFibUpdatesForNewRoute t e r b fu)"
    "good (createFibUpdatesForErasedRoute t e r b fu)" "good (update_child_inherit t e r x q fu)" "good (update_capture t e r x fu)"
    "update_own_cost e r x q fu = Inr fu' \<Longrightarrow> good fu'"
  using assms
  by (auto simp: createFibUpdatesForNewRibEntry_def createFibUpdatesForNewRoute_def createFibUpdatesForErasedRoute_def
      update_child_inherit_def update_capture_def update_own_cost_def Let_def children_good inherited_good fib give_good
      split: option.splits if_splits)

lemma updated_good:
  assumes "good fu" "createFibUpdatesForUpdatedRoute t e r x fu = Inr fu'"
  shows "good fu'"
  using assms changes_good(6) [OF assms(1)]
  by (auto simp: createFibUpdatesForUpdatedRoute_def Let_def bind_sum_def children_good changes_good(4,5)
      split: if_splits sum.splits)

lemma registration_good:
  "good fu \<Longrightarrow> computeUpdatesForRegistration t p r fu = Inr fu' \<Longrightarrow> good fu'"
  by (auto simp: computeUpdatesForRegistration_def Let_def changes_good(1,2) updated_good split: option.splits)

lemma unregistration_good: "good fu \<Longrightarrow> good (computeUpdatesForUnregistration t p r fu)"
  by (auto simp: computeUpdatesForUnregistration_def Let_def changes_good(2,3) inherited_good split: option.splits)

end

text \<open>There is one update at most for a name and a face, in the list its face belongs to.\<close>

definition update_key :: "fib_update \<Rightarrow> name \<times> nat" where
  "update_key u = (fup_name u, fup_faceId u)"

definition updates_ok :: "fib_updater \<Rightarrow> bool" where
  "updates_ok fu \<longleftrightarrow>
     distinct (map update_key (fu_updatesForBatchFaceId fu)) \<and> distinct (map update_key (fu_updatesForNonBatchFaceId fu)) \<and>
     (\<forall>u\<in>set (fu_updatesForBatchFaceId fu). fup_faceId u = fu_batchFaceId fu) \<and>
     (\<forall>u\<in>set (fu_updatesForNonBatchFaceId fu). fup_faceId u \<noteq> fu_batchFaceId fu)"

lemma merge_update_keys:
  "map update_key (merge_update u us) = (if update_key u \<in> set (map update_key us) then map update_key us else map update_key us @ [update_key u])"
  by (induction us) (auto simp: update_key_def)

lemma merge_update_faces: "fup_faceId ` set (merge_update u us) \<subseteq> insert (fup_faceId u) (fup_faceId ` set us)"
  by (induction us) auto

lemma addFibUpdate_ok: "updates_ok fu \<Longrightarrow> updates_ok (addFibUpdate u fu)"
proof -
  assume ok: "updates_ok fu"
  have keys: "distinct (map update_key (merge_update u us))" if "distinct (map update_key us)" for us
    using that by (simp add: merge_update_keys)
  have face: "\<forall>x\<in>set (merge_update u us). P (fup_faceId x)" if "\<forall>x\<in>set us. P (fup_faceId x)" "P (fup_faceId u)" for us P
  proof
    fix x assume "x \<in> set (merge_update u us)"
    then have "fup_faceId x \<in> insert (fup_faceId u) (fup_faceId ` set us)" using merge_update_faces by blast
    with that show "P (fup_faceId x)" by auto
  qed
  show ?thesis
  proof (cases "fup_faceId u = fu_batchFaceId fu")
    case True
    have "\<forall>x\<in>set (merge_update u (fu_updatesForBatchFaceId fu)). fup_faceId x = fu_batchFaceId fu"
      by (rule face) (use ok True in \<open>simp_all add: updates_ok_def\<close>)
    with True ok keys show ?thesis by (simp add: updates_ok_def addFibUpdate_def)
  next
    case False
    have "\<forall>x\<in>set (merge_update u (fu_updatesForNonBatchFaceId fu)). fup_faceId x \<noteq> fu_batchFaceId fu"
      by (rule face) (use ok False in \<open>simp_all add: updates_ok_def\<close>)
    with False ok keys show ?thesis by (simp add: updates_ok_def addFibUpdate_def)
  qed
qed

interpretation uk: updater_invariant updates_ok
proof
  show "updates_ok fu \<Longrightarrow> updates_ok (addFibUpdate u fu)" for fu u by (rule addFibUpdate_ok)
qed (simp_all add: updates_ok_def addInheritedRoute_def removeInheritedRoute_def)

lemma computeUpdates_ok: "computeUpdates t u = Inr fu \<Longrightarrow> updates_ok fu"
proof -
  assume "computeUpdates t u = Inr fu"
  moreover define fu0 where "fu0 = \<lparr>fu_batchFaceId = rt_faceId (ru_route u), fu_updatesForBatchFaceId = [],
     fu_updatesForNonBatchFaceId = [], fu_inheritedRoutes = []\<rparr>"
  have ok0: "updates_ok fu0" by (simp add: fu0_def updates_ok_def)
  ultimately show ?thesis
    using uk.unregistration_good [OF ok0, of t "ru_name u" "ru_route u"] uk.registration_good [OF ok0, of t "ru_name u" "ru_route u" fu]
    by (auto simp: computeUpdates_def fu0_def [symmetric] updates_ok_def split: rib_action.splits)
qed

section \<open>Invariants of the queue\<close>

lemma complete_batch_ok: "rib_ok rb \<Longrightarrow> rib_ok (complete_batch u us rb)"
proof -
  assume ok: "rib_ok rb"
  define rb1 where "rb1 = (case ru_action u of REGISTER \<Rightarrow> Rib_insert (ru_name u) (ru_route u) rb
       | UNREGISTER \<Rightarrow> Rib_erase (ru_name u) (ru_route u) rb | REMOVE_FACE \<Rightarrow> Rib_erase (ru_name u) (ru_route u) rb)"
  have "rib_ok rb1" using ok by (simp add: rb1_def Rib_insert_ok Rib_erase_ok split: rib_action.split)
  then have "rib_ok (rb1\<lparr>rb_table := modifyInheritedRoutes us (rb_table rb1)\<rparr>)" by (rule modifyInherited_ok)
  then show ?thesis unfolding complete_batch_def Let_def rb1_def [symmetric] by (simp add: rib_ok_def)
qed

text \<open>The state of the RIB that only its operations change.\<close>

lemma rib_ok_queue [simp]: "rib_ok (rb\<lparr>rb_updateBatches := us\<rparr>) = rib_ok rb" "rib_ok (rb\<lparr>rb_isUpdateInProgress := b\<rparr>) = rib_ok rb"
  by (simp_all add: rib_ok_def)

lemma addUpdateToQueue_ok [simp]: "rib_ok (addUpdateToQueue u rb) = rib_ok rb"
  by (simp add: addUpdateToQueue_def)

lemma enqueue_ok [simp]: "rib_ok (fold enqueue_face_entry xs rb) = rib_ok rb"
proof -
  have "rib_ok (enqueueRemoveFace e f rb) = rib_ok rb" for e f rb
  proof -
    have "rib_ok (fold (\<lambda>r. addUpdateToQueue (g r)) rs rb) = rib_ok rb" for g :: "route \<Rightarrow> rib_update" and rs
      by (induction rs arbitrary: rb) simp_all
    then show ?thesis by (simp add: enqueueRemoveFace_def)
  qed
  then show ?thesis
    by (induction xs arbitrary: rb) (simp_all add: enqueue_face_entry_def split: option.split)
qed

lemma sendBatch_idle:
  "rb_updateBatches (rs_rib s) = [] \<or> rb_isUpdateInProgress (rs_rib s) \<Longrightarrow> sendBatchFromQueue s = Inr s"
  by (subst sendBatchFromQueue.simps) (auto split: list.split)

text \<open>The state in which the next batch has been computed.\<close>

definition take_batch :: "rib_update list \<Rightarrow> fib_updater \<Rightarrow> rib_system \<Rightarrow> rib_system" where
  "take_batch us fu s =
     s\<lparr>rs_rib := (rs_rib s)\<lparr>rb_isUpdateInProgress := True, rb_updateBatches := us\<rparr>, rs_updater := fu\<rparr>"

lemma sendBatch_next:
  assumes "rb_updateBatches (rs_rib s) = u # us" "\<not> rb_isUpdateInProgress (rs_rib s)"
  shows "sendBatchFromQueue s =
    (case computeUpdates (rb_table (rs_rib s)) u of
       Inl x \<Rightarrow> Inl (ComputeFault x)
     | Inr fu \<Rightarrow>
         if fu_updatesForBatchFaceId fu \<noteq> [] then Inr (sendUpdates u (fu_updatesForBatchFaceId fu) (take_batch us fu s))
         else if fu_updatesForNonBatchFaceId fu \<noteq> [] then Inr (sendUpdates u (fu_updatesForNonBatchFaceId fu) (take_batch us fu s))
         else onFibUpdateSuccess u (take_batch us fu s))"
  using assms by (simp add: sendBatchFromQueue.simps [of s] Let_def onFibUpdateSuccess_def take_batch_def split: sum.split)

lemma sendBatch_induct:
  assumes "\<And>s. rb_updateBatches (rs_rib s) = [] \<or> rb_isUpdateInProgress (rs_rib s) \<Longrightarrow> P s"
    and "\<And>s u us. rb_updateBatches (rs_rib s) = u # us \<Longrightarrow> \<not> rb_isUpdateInProgress (rs_rib s) \<Longrightarrow>
      (\<And>s'. rb_updateBatches (rs_rib s') = us \<Longrightarrow> P s') \<Longrightarrow> P s"
  shows "P s"
proof (induction "length (rb_updateBatches (rs_rib s))" arbitrary: s rule: less_induct)
  case less
  show ?case
  proof (cases "rb_updateBatches (rs_rib s) = [] \<or> rb_isUpdateInProgress (rs_rib s)")
    case True
    then show ?thesis by (rule assms(1))
  next
    case False
    then obtain u us where u: "rb_updateBatches (rs_rib s) = u # us" by (cases "rb_updateBatches (rs_rib s)") auto
    with False less show ?thesis by (intro assms(2) [of s u us]) auto
  qed
qed

lemma sendBatch_ok: "sendBatchFromQueue s = Inr s' \<Longrightarrow> rib_ok (rs_rib s) \<Longrightarrow> rib_ok (rs_rib s')"
proof (induction s rule: sendBatch_induct)
  case (1 s)
  then show ?case by (simp add: sendBatch_idle)
next
  case (2 s u us)
  have "rib_ok (rs_rib s')" if "onFibUpdateSuccess u (take_batch us fu s) = Inr s'" for fu
    using that 2 unfolding onFibUpdateSuccess_def by (elim 2(3) [rotated]) (simp_all add: take_batch_def complete_batch_ok)
  with 2 show ?case
    by (auto simp: sendBatch_next sendUpdates_def take_batch_def split: sum.splits if_splits)
qed

lemma success_ok: "onFibUpdateSuccess u s = Inr s' \<Longrightarrow> rib_ok (rs_rib s) \<Longrightarrow> rib_ok (rs_rib s')"
  unfolding onFibUpdateSuccess_def by (erule sendBatch_ok) (simp add: complete_batch_ok)

lemma rib_handle_ok:
  assumes ok: "rib_ok (rs_rib s)" and step: "rib_handle ev s = Inr s'"
  shows "rib_ok (rs_rib s')"
proof -
  have fail: "rib_ok (rs_rib s')" if "onFibUpdateFailure s = Inr s'" "rib_ok (rs_rib s)" for s s'
    using that unfolding onFibUpdateFailure_def by (elim sendBatch_ok) simp
  have non: "rib_ok (rs_rib s')" if "non_batch_done c s = Inr s'" "rib_ok (rs_rib s)" for c s s'
    using that by (auto simp: non_batch_done_def Let_def dest: success_ok split: if_splits)
  show ?thesis
  proof (cases ev)
    case (Success i)
    then show ?thesis using ok step
      by (auto simp: rib_handle_def onUpdateSuccess_def Let_def sendUpdates_def dest: success_ok non split: if_splits)
  next
    case (Failure i code)
    then show ?thesis using ok step
      by (auto simp: rib_handle_def onUpdateError_def dest: fail non split: if_splits)
  qed (use ok step in \<open>auto simp: rib_handle_def beginApplyUpdate_def beginRemoveFace_def beginRemoveFailedFaces_def
        dest: sendBatch_ok\<close>)
qed

lemma rib_run_ok: "rib_ok (rs_rib s) \<Longrightarrow> rib_run evs s = Inr s' \<Longrightarrow> rib_ok (rs_rib s')"
  by (induction evs arbitrary: s) (auto simp: bind_sum_def dest: rib_handle_ok split: sum.splits)


section \<open>Progress of the queue\<close>

text \<open>
  The commands awaiting an answer are those of the list being processed, all of one batch;
  without any, no update is in progress and the queue is empty.
\<close>

definition pending_updates :: "fib_updater \<Rightarrow> fib_update list" where
  "pending_updates fu = (if fu_updatesForBatchFaceId fu \<noteq> [] then fu_updatesForBatchFaceId fu else fu_updatesForNonBatchFaceId fu)"

definition in_flight_ok :: "rib_system \<Rightarrow> bool" where
  "in_flight_ok s \<longleftrightarrow>
     updates_ok (rs_updater s) \<and> pending_updates (rs_updater s) \<noteq> [] \<and>
     mset (map cm_update (rs_sent s)) = mset (pending_updates (rs_updater s)) \<and> (\<exists>u. \<forall>c\<in>set (rs_sent s). cm_batch c = u)"

definition queue_ok :: "rib_system \<Rightarrow> bool" where
  "queue_ok s \<longleftrightarrow>
     (if rb_isUpdateInProgress (rs_rib s) then in_flight_ok s else rs_sent s = [] \<and> rb_updateBatches (rs_rib s) = [])"

lemma sendUpdates_in_flight:
  "updates_ok (rs_updater s) \<Longrightarrow> rs_sent s = [] \<Longrightarrow> us = pending_updates (rs_updater s) \<Longrightarrow> us \<noteq> [] \<Longrightarrow> in_flight_ok (sendUpdates u us s)"
  by (simp add: in_flight_ok_def sendUpdates_def comp_def)

lemma sendUpdates_rib [simp]: "rs_rib (sendUpdates u us s) = rs_rib s"
  by (simp add: sendUpdates_def)

lemma complete_batch_idle [simp]: "\<not> rb_isUpdateInProgress (complete_batch u us rb)"
  by (simp add: complete_batch_def Let_def)

lemma sendBatch_queue_ok:
  "sendBatchFromQueue s = Inr s' \<Longrightarrow> rs_sent s = [] \<Longrightarrow> \<not> rb_isUpdateInProgress (rs_rib s) \<Longrightarrow> queue_ok s'"
proof (induction s rule: sendBatch_induct)
  case (1 s)
  then show ?case by (auto simp: sendBatch_idle queue_ok_def)
next
  case (2 s u us)
  from 2(2,4) obtain fu where fu: "computeUpdates (rb_table (rs_rib s)) u = Inr fu"
    by (auto simp: sendBatch_next [OF 2(1)] split: sum.splits)
  have t: "rs_updater (take_batch us fu s) = fu" "rs_sent (take_batch us fu s) = []" "rb_isUpdateInProgress (rs_rib (take_batch us fu s))"
    using 2(5) by (simp_all add: take_batch_def)
  have fl: "in_flight_ok (sendUpdates u xs (take_batch us fu s))" if "xs = pending_updates fu" "xs \<noteq> []" for xs
    using that computeUpdates_ok [OF fu] t by (intro sendUpdates_in_flight) simp_all
  show ?case
  proof (cases "pending_updates fu = []")
    case False
    with 2(4) have "s' = sendUpdates u (pending_updates fu) (take_batch us fu s)"
      by (auto simp: sendBatch_next [OF 2(1,2)] fu pending_updates_def split: if_splits)
    with fl [OF refl False] t show ?thesis by (simp add: queue_ok_def)
  next
    case True
    then have "onFibUpdateSuccess u (take_batch us fu s) = Inr s'"
      using 2(4) by (auto simp: sendBatch_next [OF 2(1,2)] fu pending_updates_def split: if_splits)
    then show ?thesis unfolding onFibUpdateSuccess_def
      by (rule 2(3) [rotated]) (use t in \<open>simp_all add: take_batch_def\<close>)
  qed
qed

lemma success_queue_ok: "onFibUpdateSuccess u s = Inr s' \<Longrightarrow> rs_sent s = [] \<Longrightarrow> queue_ok s'"
  unfolding onFibUpdateSuccess_def by (erule sendBatch_queue_ok) simp_all

lemma enqueue_progress [simp]:
  "rb_isUpdateInProgress (fold enqueue_face_entry xs rb) = rb_isUpdateInProgress rb"
  "rb_isUpdateInProgress (addUpdateToQueue u rb) = rb_isUpdateInProgress rb"
proof -
  have "rb_isUpdateInProgress (fold (\<lambda>r. addUpdateToQueue (g r)) rs rb) = rb_isUpdateInProgress rb" for g :: "route \<Rightarrow> rib_update" and rs rb
    by (induction rs arbitrary: rb) (simp_all add: addUpdateToQueue_def)
  then show "rb_isUpdateInProgress (fold enqueue_face_entry xs rb) = rb_isUpdateInProgress rb"
    by (induction xs arbitrary: rb) (simp_all add: enqueue_face_entry_def enqueueRemoveFace_def split: option.split)
qed (simp add: addUpdateToQueue_def)

text \<open>More updates in the queue.\<close>

lemma enqueue_queue_ok:
  assumes "queue_ok s" "rb_isUpdateInProgress rb = rb_isUpdateInProgress (rs_rib s)" "sendBatchFromQueue (s\<lparr>rs_rib := rb\<rparr>) = Inr s'"
  shows "queue_ok s'"
proof (cases "rb_isUpdateInProgress (rs_rib s)")
  case True
  with assms have "s' = s\<lparr>rs_rib := rb\<rparr>" by (simp add: sendBatch_idle)
  with assms True show ?thesis by (simp add: queue_ok_def in_flight_ok_def)
next
  case False
  with assms show ?thesis by (intro sendBatch_queue_ok [OF assms(3)]) (simp_all add: queue_ok_def)
qed

lemma mset_drop_at: "i < length xs \<Longrightarrow> mset xs = add_mset (xs ! i) (mset (drop_at i xs))"
proof -
  assume "i < length xs"
  then have "xs = take i xs @ xs ! i # drop (Suc i) xs" by (simp add: id_take_nth_drop)
  then have "mset xs = mset (take i xs @ xs ! i # drop (Suc i) xs)" by simp
  then show ?thesis by (simp add: drop_at_def)
qed

lemma mset_removeAll_distinct: "distinct xs \<Longrightarrow> x \<in> set xs \<Longrightarrow> mset (removeAll x xs) = mset xs - {#x#}"
  by (simp add: distinct_remove1_removeAll [symmetric])

lemma updates_ok_distinct:
  assumes "updates_ok fu"
  shows "distinct (fu_updatesForBatchFaceId fu)" "distinct (fu_updatesForNonBatchFaceId fu)"
  using assms by (auto simp: updates_ok_def distinct_map)


lemma updates_ok_remove:
  assumes "updates_ok fu"
  shows "updates_ok (fu\<lparr>fu_updatesForBatchFaceId := removeAll u (fu_updatesForBatchFaceId fu)\<rparr>)"
    "updates_ok (fu\<lparr>fu_updatesForNonBatchFaceId := removeAll u (fu_updatesForNonBatchFaceId fu)\<rparr>)"
  using assms by (auto simp: updates_ok_def distinct_map_filter removeAll_filter_not_eq)

text \<open>One command of the list being processed is answered.\<close>

lemma answered:
  assumes fl: "in_flight_ok s" and i: "i < length (rs_sent s)"
  shows "cm_update (rs_sent s ! i) \<in> set (pending_updates (rs_updater s))"
    "mset (map cm_update (drop_at i (rs_sent s))) = mset (removeAll (cm_update (rs_sent s ! i)) (pending_updates (rs_updater s)))"
    "\<exists>u. \<forall>c\<in>set (drop_at i (rs_sent s)). cm_batch c = u"
proof -
  let ?u = "cm_update (rs_sent s ! i)" and ?p = "pending_updates (rs_updater s)"
  have "mset (map cm_update (rs_sent s)) = add_mset ?u (mset (map cm_update (drop_at i (rs_sent s))))"
    using mset_drop_at [OF i] by simp
  moreover have "mset (map cm_update (rs_sent s)) = mset ?p" using fl by (simp add: in_flight_ok_def)
  ultimately have split: "mset ?p = add_mset ?u (mset (map cm_update (drop_at i (rs_sent s))))" by simp
  then have "?u \<in># mset ?p" by simp
  then show u: "?u \<in> set ?p" by simp
  have "distinct ?p" using fl updates_ok_distinct by (auto simp: in_flight_ok_def pending_updates_def)
  with u split show "mset (map cm_update (drop_at i (rs_sent s))) = mset (removeAll ?u ?p)"
    by (simp add: mset_removeAll_distinct)
  show "\<exists>u. \<forall>c\<in>set (drop_at i (rs_sent s)). cm_batch c = u"
    using fl by (auto simp: in_flight_ok_def drop_at_def dest: in_set_takeD in_set_dropD)
qed

lemma success_step_queue_ok:
  assumes q: "queue_ok s" and i: "i < length (rs_sent s)"
    and step: "onUpdateSuccess (rs_sent s ! i) (s\<lparr>rs_sent := drop_at i (rs_sent s)\<rparr>) = Inr s'"
  shows "queue_ok s'"
proof -
  let ?fu = "rs_updater s" and ?c = "rs_sent s ! i"
  let ?B = "fu_updatesForBatchFaceId ?fu" and ?N = "fu_updatesForNonBatchFaceId ?fu"
  have busy: "rb_isUpdateInProgress (rs_rib s)" and fl: "in_flight_ok s" using q i by (auto simp: queue_ok_def split: if_splits)
  note a = answered [OF fl i]
  have ok: "updates_ok ?fu" using fl by (simp add: in_flight_ok_def)
  show ?thesis
  proof (cases "?B = []")
    case True
    then have p: "pending_updates ?fu = ?N" by (simp add: pending_updates_def)
    with a(1) ok have "fup_faceId (cm_update ?c) \<noteq> fu_batchFaceId ?fu" by (auto simp: updates_ok_def)
    with step have step': "non_batch_done ?c (s\<lparr>rs_sent := drop_at i (rs_sent s)\<rparr>) = Inr s'" by (simp add: onUpdateSuccess_def)
    show ?thesis
    proof (cases "removeAll (cm_update ?c) ?N = []")
      case gone: True
      then have "drop_at i (rs_sent s) = []" using a(2) p by (metis map_is_Nil_conv mset_zero_iff)
      with step' gone show ?thesis by (auto simp: non_batch_done_def dest!: success_queue_ok)
    next
      case False
      with step' busy a(2,3) p True updates_ok_remove(2) [OF ok] show ?thesis
        by (auto simp: non_batch_done_def queue_ok_def in_flight_ok_def pending_updates_def)
    qed
  next
    case False
    then have p: "pending_updates ?fu = ?B" by (simp add: pending_updates_def)
    with a(1) ok have face: "fup_faceId (cm_update ?c) = fu_batchFaceId ?fu" by (auto simp: updates_ok_def)
    show ?thesis
    proof (cases "removeAll (cm_update ?c) ?B = []")
      case gone: True
      then have none: "drop_at i (rs_sent s) = []" using a(2) p by (metis map_is_Nil_conv mset_zero_iff)
      let ?s1 = "s\<lparr>rs_sent := [], rs_updater := ?fu\<lparr>fu_updatesForBatchFaceId := []\<rparr>\<rparr>"
      show ?thesis
      proof (cases "?N = []")
        case True
        with step face gone none have "onFibUpdateSuccess (cm_batch ?c) ?s1 = Inr s'" by (simp add: onUpdateSuccess_def)
        then show ?thesis by (rule success_queue_ok) simp
      next
        case False
        with step face gone none have s': "s' = sendUpdates (cm_batch ?c) ?N ?s1" by (simp add: onUpdateSuccess_def)
        have "in_flight_ok (sendUpdates (cm_batch ?c) ?N ?s1)"
          using updates_ok_remove(1) [OF ok, of "cm_update ?c"] gone False
          by (intro sendUpdates_in_flight) (simp_all add: pending_updates_def)
        with s' busy show ?thesis by (simp add: queue_ok_def)
      qed
    next
      case left: False
      with step face have s': "s' = s\<lparr>rs_sent := drop_at i (rs_sent s), rs_updater := ?fu\<lparr>fu_updatesForBatchFaceId := removeAll (cm_update ?c) ?B\<rparr>\<rparr>"
        by (simp add: onUpdateSuccess_def)
      with left busy a(2,3) p updates_ok_remove(1) [OF ok] show ?thesis
        by (auto simp: queue_ok_def in_flight_ok_def pending_updates_def)
    qed
  qed
qed

lemma timeout_queue_ok:
  assumes q: "queue_ok s" and i: "i < length (rs_sent s)" and code: "code \<noteq> ERROR_FACE_NOT_FOUND"
    and step: "onUpdateError (rs_sent s ! i) code (s\<lparr>rs_sent := drop_at i (rs_sent s)\<rparr>) = Inr s'"
  shows "queue_ok s'"
proof -
  let ?c = "rs_sent s ! i"
  from step code have s': "s' = s\<lparr>rs_sent := drop_at i (rs_sent s) @ [?c\<lparr>cm_nTimeouts := cm_nTimeouts ?c + 1, cm_verb := ADD_NEXTHOP\<rparr>]\<rparr>"
    by (auto simp: onUpdateError_def split: if_splits)
  have busy: "rb_isUpdateInProgress (rs_rib s)" and fl: "in_flight_ok s" using q i by (auto simp: queue_ok_def split: if_splits)
  obtain u where u: "\<forall>c\<in>set (rs_sent s). cm_batch c = u" using fl by (auto simp: in_flight_ok_def)
  have "set (drop_at i (rs_sent s)) \<subseteq> set (rs_sent s)" by (auto simp: drop_at_def dest: in_set_takeD in_set_dropD)
  with u i have "\<forall>c\<in>set (rs_sent s'). cm_batch c = u" by (auto simp: s')
  moreover have "mset (map cm_update (rs_sent s')) = mset (map cm_update (rs_sent s))"
    using mset_drop_at [OF i] by (simp add: s')
  ultimately show ?thesis using fl busy by (auto simp: queue_ok_def in_flight_ok_def s')
qed

lemma rib_handle_queue_ok:
  assumes "queue_ok s" "rib_handle ev s = Inr s'" "\<And>i. ev \<noteq> Failure i ERROR_FACE_NOT_FOUND"
  shows "queue_ok s'"
  using assms
proof (cases ev)
  case (Success i)
  with assms show ?thesis by (auto simp: rib_handle_def intro: success_step_queue_ok split: if_splits)
next
  case (Failure i code)
  with assms show ?thesis by (auto simp: rib_handle_def intro: timeout_queue_ok split: if_splits)
next
  case (Apply u)
  with assms(2) show ?thesis
    by (intro enqueue_queue_ok [OF assms(1), of "addUpdateToQueue u (rs_rib s)"]) (simp_all add: rib_handle_def beginApplyUpdate_def)
next
  case (FaceRemoved f)
  with assms(2) show ?thesis
    by (intro enqueue_queue_ok [OF assms(1), of "fold enqueue_face_entry (filter (\<lambda>x. fst x = f) (rb_faceEntries (rs_rib s))) (rs_rib s)"])
       (simp_all add: rib_handle_def beginRemoveFace_def)
next
  case (ActiveFaces fs)
  with assms(2) show ?thesis
    by (intro enqueue_queue_ok [OF assms(1), of "fold enqueue_face_entry
           (filter (\<lambda>x. fst x \<notin> set fs) (sort_key fst (rb_faceEntries (rs_rib s)))) (rs_rib s)"])
       (simp_all add: rib_handle_def beginRemoveFailedFaces_def)
qed


definition answers_only :: "rib_event \<Rightarrow> bool" where
  "answers_only ev \<longleftrightarrow> (case ev of Failure i code \<Rightarrow> code \<noteq> ERROR_FACE_NOT_FOUND | _ \<Rightarrow> True)"

lemma rib_run_queue_ok:
  "queue_ok s \<Longrightarrow> list_all answers_only evs \<Longrightarrow> rib_run evs s = Inr s' \<Longrightarrow> queue_ok s'"
proof (induction evs arbitrary: s)
  case (Cons ev evs)
  then obtain s1 where s1: "rib_handle ev s = Inr s1" "rib_run evs s1 = Inr s'"
    by (auto simp: bind_sum_def split: sum.splits)
  have "ev \<noteq> Failure i ERROR_FACE_NOT_FOUND" for i using Cons.prems(2) by (auto simp: answers_only_def)
  with Cons.prems(1) s1(1) have "queue_ok s1" by (rule rib_handle_queue_ok)
  moreover have "list_all answers_only evs" using Cons.prems(2) by simp
  ultimately show ?case using s1(2) by (rule Cons.IH)
qed simp

section \<open>Properties of the queue\<close>

definition sample_route :: "nat \<Rightarrow> nat \<Rightarrow> 64 word \<Rightarrow> route" where
  "sample_route faceId cost flags =
     \<lparr>rt_faceId = faceId, rt_origin = 0, rt_cost = cost, rt_flags = flags, rt_expires = None, rt_announcement = None, rt_annExpires = 0\<rparr>"

definition sample_update :: "name \<Rightarrow> route \<Rightarrow> rib_update" where
  "sample_update n r = \<lparr>ru_action = REGISTER, ru_name = n, ru_route = r\<rparr>"

definition sample_events :: "rib_event list" where
  "sample_events = [Apply (sample_update [Component 8 [1]] (sample_route 1 10 1)), Success 0,
     Apply (sample_update [Component 8 [1], Component 8 [2]] (sample_route 2 20 0))]"

text \<open>C9: whatever is asked of the RIB and however the FIB commands are answered, the RIB
  stays a tree sorted by name in which the parent of an entry is its longest proper prefix and
  the children are the entries it is the parent of; every entry has routes, no two for the same
  face and origin; every route is listed under its face, and the routes are counted exactly.\<close>

theorem rib_tree_kept:
  assumes "rib_run evs rib_start = Inr s"
  shows "rib_ok (rs_rib s)"
  using assms by (rule rib_run_ok [rotated]) (simp add: rib_start_def)

lemma sample_run: "\<exists>s. rib_run sample_events rib_start = Inr s \<and> length (rs_sent s) = 1 \<and> rb_nItems (rs_rib s) = 1"
proof -
  have "case rib_run sample_events rib_start of Inl _ \<Rightarrow> False | Inr s \<Rightarrow> length (rs_sent s) = 1 \<and> rb_nItems (rs_rib s) = 1"
    by code_simp
  then show ?thesis by (simp split: sum.splits)
qed

theorem rib_tree_kept_witness:
  "\<exists>s. rib_run sample_events rib_start = Inr s \<and> rb_nItems (rs_rib s) = 1 \<and> rib_ok (rs_rib s)"
  using sample_run rib_tree_kept [of sample_events] by blast

text \<open>C10: as long as no FIB command is rejected because its face is gone, the queue of updates
  never gets stuck: while an update is in progress a FIB command of that update is awaiting its
  answer, and when none is in progress the queue is empty.\<close>

theorem rib_queue_progress:
  assumes "list_all answers_only evs" "rib_run evs rib_start = Inr s"
  shows "(rb_isUpdateInProgress (rs_rib s) \<longleftrightarrow> rs_sent s \<noteq> []) \<and> (rs_sent s = [] \<longrightarrow> rb_updateBatches (rs_rib s) = [])"
proof -
  have "queue_ok rib_start" by (simp add: queue_ok_def rib_start_def Rib_new_def)
  from rib_run_queue_ok [OF this assms] show ?thesis
    by (auto simp: queue_ok_def in_flight_ok_def split: if_splits)
qed

theorem rib_queue_progress_witness:
  "\<exists>s. rib_run sample_events rib_start = Inr s \<and> rs_sent s \<noteq> [] \<and> rb_isUpdateInProgress (rs_rib s)"
proof -
  obtain s where s: "rib_run sample_events rib_start = Inr s" "length (rs_sent s) = 1" using sample_run by blast
  have "list_all answers_only sample_events" by (simp add: sample_events_def answers_only_def)
  from rib_queue_progress [OF this s(1)] s show ?thesis by auto
qed

section \<open>Defects\<close>

text \<open>C37: when the cost of the cheaper of two routes of an entry on the same face is raised above
  the cost of the other, and neither is child-inherit, the computation of the FIB updates
  dereferences a null pointer: the route to fall back to is looked for among the child-inherit
  routes only.\<close>

theorem raised_cost_fault:
  assumes "tab_get t n = Some e" "re_routes e = [x, y]" "rt_faceId y = rt_faceId x" "rt_origin y \<noteq> rt_origin x"
    and "compareFaceIdAndOrigin x r" "\<not> isChildInherit y" "\<not> isChildInherit r" "rt_cost x < rt_cost y" "rt_cost y < rt_cost r"
  shows "computeUpdates t \<lparr>ru_action = REGISTER, ru_name = n, ru_route = r\<rparr> = Inl NullDereference"
  using assms
  by (simp add: computeUpdates_def computeUpdatesForRegistration_def findRoute_def compareFaceIdAndOrigin_def Let_def
      createFibUpdatesForUpdatedRoute_def getRouteWithLowestCostAndChildInheritByFaceId_def getRouteWithLowestCostByFaceId_def
      update_own_cost_def isChildInherit_def)

definition two_routes :: rib where
  "two_routes = Rib_insert [Component 8 [1]] (sample_route 1 20 0\<lparr>rt_origin := 65\<rparr>)
     (Rib_insert [Component 8 [1]] (sample_route 1 10 0) Rib_new)"

theorem raised_cost_fault_witness:
  "computeUpdates (rb_table two_routes) (sample_update [Component 8 [1]] (sample_route 1 30 0)) = Inl NullDereference \<and>
   rib_run [Apply (sample_update [Component 8 [1]] (sample_route 1 10 0)), Success 0,
            Apply (sample_update [Component 8 [1]] (sample_route 1 20 0\<lparr>rt_origin := 65\<rparr>)),
            Apply (sample_update [Component 8 [1]] (sample_route 1 30 0))] rib_start = Inl (ComputeFault NullDereference)"
proof
  let ?e = "\<lparr>re_id = 0, re_name = [Component 8 [1]], re_children = [], re_parent = None,
    re_routes = [sample_route 1 10 0, sample_route 1 20 0\<lparr>rt_origin := 65\<rparr>], re_inherited = [], re_nRoutesWithCaptureSet = 0\<rparr>"
  have "tab_get (rb_table two_routes) [Component 8 [1]] = Some ?e" by code_simp
  then show "computeUpdates (rb_table two_routes) (sample_update [Component 8 [1]] (sample_route 1 30 0)) = Inl NullDereference"
    unfolding sample_update_def
    by (rule raised_cost_fault [where x = "sample_route 1 10 0" and y = "sample_route 1 20 0\<lparr>rt_origin := 65\<rparr>"]) (simp_all add: sample_route_def compareFaceIdAndOrigin_def isChildInherit_def)
qed code_simp

definition late_rejection :: "rib_event list" where
  "late_rejection =
     [Apply (sample_update [Component 8 [1], Component 8 [2]] (sample_route 2 10 0)), Success 0,
      Apply (sample_update [Component 8 [1]] (sample_route 1 10 1)),
      Apply (sample_update [Component 8 [3]] (sample_route 3 10 0)),
      Failure 0 ERROR_FACE_NOT_FOUND, Failure 0 ERROR_FACE_NOT_FOUND]"


text \<open>The count of capture routes is not adjusted when a route is replaced by one with other
  flags.  Erasing the route then makes the count wrap around: the entry captures although none
  of its routes does.\<close>

lemma capture_count_wraps:
  "case tab_get (rb_table (Rib_erase [Component 8 [1]] (sample_route 1 10 2)
      (Rib_insert [Component 8 [1]] (sample_route 1 10 2) two_routes))) [Component 8 [1]] of
     None \<Rightarrow> False
   | Some e \<Rightarrow> re_nRoutesWithCaptureSet e = - 1 \<and> hasCapture e \<and> \<not> list_ex isRibCapture (re_routes e)"
  by code_simp

text \<open>A command that timed out is sent again as an addition, even when it was a removal.\<close>

lemma removal_retried_as_addition:
  "\<lbrakk>fup_action (cm_update c) = REMOVE_NEXTHOP; cm_nTimeouts c < MAX_NUM_TIMEOUTS; onUpdateError c ERROR_TIMEOUT s = Inr s'\<rbrakk> \<Longrightarrow>
     cm_verb (last (rs_sent s')) = ADD_NEXTHOP \<and> fup_action (cm_update (last (rs_sent s'))) = REMOVE_NEXTHOP"
  by (auto simp: onUpdateError_def)

end
