(* ===== verification/Rib_Fib_Consistency.thy ===== *)
theory Rib_Fib_Consistency
  imports Fib_Updater
begin

text \<open>
  What the FIB should hold for a RIB, and that the updates computed for the registration of
  a new prefix bring it there: the nexthops of the prefix itself and of every name below it,
  for every combination of the child-inherit and capture flags.
\<close>

section \<open>Effect of the updates\<close>

text \<open>The nexthops of the FIB: the cost for a name and a face.\<close>

type_synonym fib_view = "name \<Rightarrow> nat \<Rightarrow> nat option"

definition update_effect :: "fib_update \<Rightarrow> nat option" where
  "update_effect u = (case fup_action u of ADD_NEXTHOP \<Rightarrow> Some (fup_cost u) | REMOVE_NEXTHOP \<Rightarrow> None)"

definition apply_update :: "fib_update \<Rightarrow> fib_view \<Rightarrow> fib_view" where
  "apply_update u v = v(fup_name u := (v (fup_name u))(fup_faceId u := update_effect u))"

definition all_updates :: "fib_updater \<Rightarrow> fib_update list" where
  "all_updates fu = fu_updatesForBatchFaceId fu @ fu_updatesForNonBatchFaceId fu"

definition apply_updates :: "fib_updater \<Rightarrow> fib_view \<Rightarrow> fib_view" where
  "apply_updates fu v = fold apply_update (all_updates fu) v"

definition fib_obs :: "fib_updater \<Rightarrow> name \<Rightarrow> nat \<Rightarrow> nat option option" where
  "fib_obs fu n g = map_option update_effect (find (\<lambda>u. update_key u = (n, g)) (all_updates fu))"

definition inh_obs :: "fib_updater \<Rightarrow> name \<Rightarrow> nat \<Rightarrow> bool option" where
  "inh_obs fu n g =
     (let us = filter (\<lambda>u. ru_name u = n \<and> rt_faceId (ru_route u) = g) (fu_inheritedRoutes fu)
      in if us = [] then None else Some (ru_action (last us) = REGISTER))"

definition obs :: "fib_updater \<Rightarrow> name \<Rightarrow> nat \<Rightarrow> nat option option \<times> bool option" where
  "obs fu n g = (fib_obs fu n g, inh_obs fu n g)"

lemma find_merge_update:
  "distinct (map update_key us) \<Longrightarrow>
   map_option update_effect (find (\<lambda>x. update_key x = k) (merge_update u us)) =
     (if update_key u = k then Some (update_effect u) else map_option update_effect (find (\<lambda>x. update_key x = k) us))"
proof (induction us)
  case (Cons x us)
  show ?case
  proof (cases "update_key u = update_key x")
    case True
    then have "merge_update u (x # us) = x\<lparr>fup_action := fup_action u, fup_cost := fup_cost u\<rparr> # us"
      by (simp add: update_key_def)
    moreover have "update_key (x\<lparr>fup_action := fup_action u, fup_cost := fup_cost u\<rparr>) = update_key x"
      "update_effect (x\<lparr>fup_action := fup_action u, fup_cost := fup_cost u\<rparr>) = update_effect u"
      by (simp_all add: update_key_def update_effect_def split: fib_action.split)
    ultimately show ?thesis using True by simp
  next
    case False
    then have "merge_update u (x # us) = x # merge_update u us" by (auto simp: update_key_def)
    with False Cons show ?thesis by auto
  qed
qed simp

lemma find_append: "find P (xs @ ys) = (case find P xs of None \<Rightarrow> find P ys | Some x \<Rightarrow> Some x)"
  by (induction xs) auto

lemma fib_obs_add:
  assumes ok: "updates_ok fu"
  shows "fib_obs (addFibUpdate u fu) n g = (if update_key u = (n, g) then Some (update_effect u) else fib_obs fu n g)"
proof -
  let ?P = "\<lambda>x. update_key x = (n, g)"
  have d: "distinct (map update_key (fu_updatesForBatchFaceId fu))" "distinct (map update_key (fu_updatesForNonBatchFaceId fu))"
    using ok by (simp_all add: updates_ok_def)
  show ?thesis
  proof (cases "fup_faceId u = fu_batchFaceId fu")
    case True
    then show ?thesis using find_merge_update [OF d(1), of "(n, g)" u]
      by (auto simp: fib_obs_def all_updates_def addFibUpdate_def find_append split: option.splits if_splits)
  next
    case False
    have "find ?P (fu_updatesForBatchFaceId fu) = None" if "update_key u = (n, g)"
      using that False ok by (auto simp: find_None_iff updates_ok_def update_key_def)
    with False show ?thesis using find_merge_update [OF d(2), of "(n, g)" u]
      by (auto simp: fib_obs_def all_updates_def addFibUpdate_def find_append split: option.splits if_splits)
  qed
qed

lemma obs_parts [simp]:
  "fib_obs (addInheritedRoute n r fu) = fib_obs fu" "fib_obs (removeInheritedRoute n r fu) = fib_obs fu"
  "inh_obs (addFibUpdate u fu) = inh_obs fu"
  "inh_obs (addInheritedRoute n r fu) m g = (if m = n \<and> g = rt_faceId r then Some True else inh_obs fu m g)"
  "inh_obs (removeInheritedRoute n r fu) m g = (if m = n \<and> g = rt_faceId r then Some False else inh_obs fu m g)"
  by (auto simp: fib_obs_def inh_obs_def all_updates_def addInheritedRoute_def removeInheritedRoute_def addFibUpdate_def fun_eq_iff Let_def)

lemma obs_give:
  "updates_ok fu \<Longrightarrow> obs (give n r fu) m g = (if m = n \<and> g = rt_faceId r then (Some (Some (rt_cost r)), Some True) else obs fu m g)"
  by (auto simp: obs_def give_def fib_obs_add uk.inherit createAddUpdate_def update_key_def update_effect_def)

lemma obs_retract:
  "updates_ok fu \<Longrightarrow> obs (retract n r fu) m g = (if m = n \<and> g = rt_faceId r then (Some None, Some False) else obs fu m g)"
  by (auto simp: obs_def retract_def fib_obs_add uk.disinherit createRemoveUpdate_def update_key_def update_effect_def)

lemma apply_updates_obs:
  assumes ok: "updates_ok fu"
  shows "apply_updates fu v n g = (case fib_obs fu n g of None \<Rightarrow> v n g | Some x \<Rightarrow> x)"
proof -
  have "update_key ` set (fu_updatesForBatchFaceId fu) \<inter> update_key ` set (fu_updatesForNonBatchFaceId fu) = {}"
    using ok by (auto simp: updates_ok_def update_key_def)
  then have "distinct (map update_key (all_updates fu))"
    using ok by (simp add: updates_ok_def all_updates_def)
  moreover have "fold apply_update us v n g =
      (case find (\<lambda>u. update_key u = (n, g)) us of None \<Rightarrow> v n g | Some u \<Rightarrow> update_effect u)"
    if "distinct (map update_key us)" for us
    using that
  proof (induction us arbitrary: v)
    case (Cons u us)
    show ?case
    proof (cases "update_key u = (n, g)")
      case True
      then have "find (\<lambda>u. update_key u = (n, g)) us = None" using Cons.prems by (auto simp: find_None_iff image_iff)
      with True Cons show ?thesis by (auto simp: apply_update_def update_key_def)
    next
      case False
      with Cons show ?thesis by (auto simp: apply_update_def update_key_def split: option.split)
    qed
  qed simp
  ultimately show ?thesis by (simp add: apply_updates_def fib_obs_def split: option.split)
qed

definition inherits :: "nat \<Rightarrow> rib_entry \<Rightarrow> bool" where
  "inherits g e \<longleftrightarrow> list_ex (\<lambda>x. rt_faceId x = g) (re_inherited e)"

lemma hasInheritedRoute_inherits: "hasInheritedRoute r e \<longleftrightarrow> inherits (rt_faceId r) e"
  by (simp add: hasInheritedRoute_def inherits_def)

section \<open>The descent into a subtree\<close>

text \<open>What the updates of one entry do for a face.\<close>

abbreviation route_on :: "nat \<Rightarrow> route list \<Rightarrow> route option" where
  "route_on g rs \<equiv> find (\<lambda>r. rt_faceId r = g) rs"

definition node_obs ::
  "rib_entry \<Rightarrow> route list \<Rightarrow> route list \<Rightarrow> nat \<Rightarrow> nat option option \<times> bool option \<Rightarrow> nat option option \<times> bool option" where
  "node_obs e A R g old =
     (let mid = (if inherits g e \<and> route_on g R \<noteq> None then (Some None, Some False) else old)
      in case route_on g A of
           Some r \<Rightarrow> if \<not> hasFaceId g e then (Some (Some (rt_cost r)), Some True) else mid
         | None \<Rightarrow> mid)"

lemma obs_give_all:
  assumes "distinct (map rt_faceId A)" "updates_ok fu"
  shows "obs (fold (\<lambda>r fu. if P (rt_faceId r) then give n r fu else fu) A fu) m g =
    (case route_on g A of
       Some r \<Rightarrow> if m = n \<and> P g then (Some (Some (rt_cost r)), Some True) else obs fu m g
     | None \<Rightarrow> obs fu m g)"
  using assms
proof (induction A arbitrary: fu)
  case (Cons r A)
  have none: "route_on (rt_faceId r) A = None" using Cons.prems by (auto simp: find_None_iff image_iff)
  have "updates_ok (if P (rt_faceId r) then give n r fu else fu)" using Cons.prems by (simp add: uk.give_good)
  with Cons have "obs (fold (\<lambda>r fu. if P (rt_faceId r) then give n r fu else fu) A (if P (rt_faceId r) then give n r fu else fu)) m g =
    (case route_on g A of
       Some r' \<Rightarrow> if m = n \<and> P g then (Some (Some (rt_cost r')), Some True) else obs (if P (rt_faceId r) then give n r fu else fu) m g
     | None \<Rightarrow> obs (if P (rt_faceId r) then give n r fu else fu) m g)" by simp
  with none Cons.prems show ?case by (auto simp: obs_give split: option.split)
qed simp

lemma obs_retract_all:
  assumes "updates_ok fu"
  shows "obs (fold (\<lambda>r fu. if P (rt_faceId r) then retract n r fu else fu) R fu) m g =
    (if m = n \<and> P g \<and> route_on g R \<noteq> None then (Some None, Some False) else obs fu m g)"
  using assms
proof (induction R arbitrary: fu)
  case (Cons r R)
  have "updates_ok (if P (rt_faceId r) then retract n r fu else fu)" using Cons.prems by (simp add: uk.retract_good)
  with Cons show ?case by (auto simp: obs_retract split: if_splits)
qed simp

lemma obs_update_node:
  assumes "distinct (map rt_faceId A)" "updates_ok fu"
  shows "obs (update_node e A R fu) m g = (if m = re_name e then node_obs e A R g (obs fu m g) else obs fu m g)"
proof -
  define fu1 where "fu1 = fold (\<lambda>r fu. if inherits (rt_faceId r) e then retract (re_name e) r fu else fu) R fu"
  have "updates_ok fu1" unfolding fu1_def using assms(2) by (intro uk.fold_good) (auto simp: uk.retract_good)
  note given = obs_give_all [OF assms(1) this, of "\<lambda>f. \<not> hasFaceId f e" "re_name e" m g]
  have first: "obs fu1 m g = (if m = re_name e \<and> inherits g e \<and> route_on g R \<noteq> None then (Some None, Some False) else obs fu m g)"
    unfolding fu1_def by (rule obs_retract_all [OF assms(2)])
  have node: "update_node e A R fu = fold (\<lambda>r fu. if \<not> hasFaceId (rt_faceId r) e then give (re_name e) r fu else fu) A fu1"
    by (simp add: update_node_def fu1_def hasInheritedRoute_inherits)
  show ?thesis unfolding node given first node_obs_def
    by (cases "m = re_name e"; cases "route_on g A") simp_all
qed

text \<open>The child of an entry on the way to a name below it.\<close>

lemma child_towards:
  "has_prefix c t \<Longrightarrow> has_prefix n t \<Longrightarrow> strict_prefix c n \<Longrightarrow> \<exists>d. has_prefix d t \<and> findParent d t = Some c \<and> prefix d n"
proof (induction "length n" arbitrary: n rule: less_induct)
  case less
  then obtain q where q: "findParent n t = Some q" by (cases "findParent n t") (auto simp: findParent_None)
  note f = findParent_found [OF q]
  have cq: "prefix c q" using f(3) less.prems by blast
  show ?case
  proof (cases "q = c")
    case True
    with q less.prems show ?thesis by blast
  next
    case False
    with cq have "strict_prefix c q" by (auto simp: strict_prefix_def)
    moreover have "length q < length n" using f(1) by (rule prefix_length_less)
    ultimately obtain d where "has_prefix d t" "findParent d t = Some c" "prefix d q" using less f(2) by blast
    moreover have "prefix q n" using f(1) by (simp add: strict_prefix_def)
    ultimately show ?thesis using prefix_order.trans by blast
  qed
qed

lemma no_entry_between:
  assumes d: "findParent d t = Some c" "prefix d n" and m: "has_prefix m t" "strict_prefix c m" "prefix m n"
  shows "prefix d m"
proof (rule ccontr)
  assume "\<not> prefix d m"
  then have "strict_prefix m d" using prefixes_chain [OF d(2) m(3)] by blast
  then have "prefix m c" using findParent_found(3) [OF d(1) _ m(1)] by blast
  with m(2) show False by (auto simp: strict_prefix_def intro: prefix_order.antisym)
qed

definition blocks :: "nat \<Rightarrow> rib_entry \<Rightarrow> bool" where
  "blocks g e \<longleftrightarrow> hasCapture e \<or> hasChildInheritOnFaceId g e"

definition blocked :: "rib_table \<Rightarrow> name \<Rightarrow> name \<Rightarrow> nat \<Rightarrow> bool" where
  "blocked t p n g \<longleftrightarrow> (\<exists>m e. tab_get t m = Some e \<and> strict_prefix p m \<and> prefix m n \<and> blocks g e)"


lemma chain_length: "card {m. has_prefix m t \<and> prefix c m \<and> prefix m n} \<le> length t"
proof -
  have "card {m. has_prefix m t \<and> prefix c m \<and> prefix m n} \<le> card (set (map fst t))"
    by (rule card_mono) (auto simp: has_prefix_keys)
  also have "\<dots> \<le> length t" using card_length [of "map fst t"] by simp
  finally show ?thesis .
qed

lemma finite_chain: "finite {m. has_prefix m t \<and> prefix c m \<and> prefix m n}"
  by (rule finite_subset [of _ "set (map fst t)"]) (auto simp: has_prefix_keys)

lemma chain_shrinks:
  assumes "has_prefix c t" "prefix c n" "strict_prefix c d"
  shows "card {m. has_prefix m t \<and> prefix d m \<and> prefix m n} < card {m. has_prefix m t \<and> prefix c m \<and> prefix m n}"
proof (rule psubset_card_mono [OF finite_chain])
  show "{m. has_prefix m t \<and> prefix d m \<and> prefix m n} \<subset> {m. has_prefix m t \<and> prefix c m \<and> prefix m n}"
    using assms by (auto simp: strict_prefix_def dest: prefix_order.antisym intro: prefix_order.trans)
qed

lemma blocked_child:
  assumes ed: "tab_get t d = Some ed" and d: "strict_prefix c d" "prefix d n"
    and between: "\<And>m. has_prefix m t \<Longrightarrow> strict_prefix c m \<Longrightarrow> prefix m n \<Longrightarrow> prefix d m"
  shows "blocks g ed \<or> blocked t d n g \<longleftrightarrow> blocked t c n g"
proof
  assume "blocks g ed \<or> blocked t d n g"
  then show "blocked t c n g" unfolding blocked_def using ed d prefix_order.less_trans by blast
next
  assume "blocked t c n g"
  then obtain m em where m: "tab_get t m = Some em" "strict_prefix c m" "prefix m n" "blocks g em"
    by (auto simp: blocked_def)
  then have "prefix d m" using between by (auto simp: has_prefix_def)
  then show "blocks g ed \<or> blocked t d n g" using m ed by (cases "m = d") (auto simp: blocked_def strict_prefix_def)
qed

lemma obs_traverse_outside:
  assumes ok: "links_ok t"
  shows "\<not> (has_prefix n t \<and> prefix c n) \<Longrightarrow> distinct (map rt_faceId A) \<Longrightarrow> updates_ok fu \<Longrightarrow> obs (traverseSubTree k t c A R fu) n g = obs fu n g"
proof (induction k arbitrary: c A R fu)
  case (Suc k)
  show ?case
  proof (cases "tab_get t c")
    case (Some e)
    let ?A = "filter (\<lambda>r. \<not> hasChildInheritOnFaceId (rt_faceId r) e) A"
    let ?R = "filter (\<lambda>r. \<not> hasChildInheritOnFaceId (rt_faceId r) e) R"
    have A: "distinct (map rt_faceId ?A)" using Suc.prems(2) by (rule distinct_map_filter)
    have out: "\<not> (has_prefix n t \<and> prefix d n)" if "d \<in> set (re_children e)" for d
    proof
      assume dn: "has_prefix n t \<and> prefix d n"
      have "strict_prefix c d" using that links_okD(4) [OF ok Some] findParent_found(1) by blast
      then have "prefix c n" using dn prefix_order.less_le_trans [of c d n] by (simp add: strict_prefix_def)
      with Suc.prems(1) dn show False by simp
    qed
    have "obs (fold (\<lambda>c. traverseSubTree k t c ?A ?R) ds fu') n g = obs fu' n g"
      if "updates_ok fu'" "\<And>d. d \<in> set ds \<Longrightarrow> \<not> (has_prefix n t \<and> prefix d n)" for ds fu'
      using that
    proof (induction ds arbitrary: fu')
      case (Cons d ds)
      from Cons.IH [OF uk.traverse_good [OF Cons.prems(1)]] Cons.prems Suc.IH [OF _ A] show ?case by simp
    qed simp
    from this [OF uk.inherited_good(4) [OF Suc.prems(3)] out]
    have "obs (fold (\<lambda>c. traverseSubTree k t c ?A ?R) (re_children e) (update_node e ?A ?R fu)) n g = obs (update_node e ?A ?R fu) n g" .
    moreover have "n \<noteq> c" using Suc.prems(1) Some by (auto simp: has_prefix_def)
    ultimately show ?thesis
      using obs_update_node [OF A Suc.prems(3), of e ?R n g] links_okD(1) [OF ok Some] Some by (simp add: Let_def)
  qed simp
qed simp

lemma obs_children_outside:
  assumes ok: "links_ok t"
  shows "(\<And>d. d \<in> set ds \<Longrightarrow> \<not> (has_prefix n t \<and> prefix d n)) \<Longrightarrow> distinct (map rt_faceId A) \<Longrightarrow> updates_ok fu \<Longrightarrow>
     obs (fold (\<lambda>c. traverseSubTree k t c A R) ds fu) n g = obs fu n g"
proof (induction ds arbitrary: fu)
  case (Cons d ds)
  from Cons.IH [OF _ Cons.prems(2) uk.traverse_good [OF Cons.prems(3)]] Cons.prems
    obs_traverse_outside [OF ok _ Cons.prems(2,3), of n d k R g]
  show ?case by simp
qed simp

text \<open>One of the children leads to the name.\<close>

lemma obs_children_towards:
  assumes ok: "links_ok t" and d: "d \<in> set ds" "prefix d n" "distinct ds"
    and other: "\<And>x. x \<in> set ds \<Longrightarrow> prefix x n \<Longrightarrow> x = d"
    and A: "distinct (map rt_faceId A)" and fu: "updates_ok fu"
    and step: "\<And>fu. updates_ok fu \<Longrightarrow> obs (traverseSubTree k t d A R fu) n g = F (obs fu n g)"
  shows "obs (fold (\<lambda>c. traverseSubTree k t c A R) ds fu) n g = F (obs fu n g)"
proof -
  from d(1) obtain xs ys where ds: "ds = xs @ d # ys" by (meson split_list)
  with d(3) have "d \<notin> set xs" "d \<notin> set ys" by auto
  with other ds have out: "\<And>x. x \<in> set xs \<Longrightarrow> \<not> (has_prefix n t \<and> prefix x n)" "\<And>x. x \<in> set ys \<Longrightarrow> \<not> (has_prefix n t \<and> prefix x n)" by auto
  let ?f = "fold (\<lambda>c. traverseSubTree k t c A R)"
  have ok1: "updates_ok (?f xs fu)" using uk.traverse_good fu by (rule uk.fold_good)
  have "obs (?f ds fu) n g = obs (traverseSubTree k t d A R (?f xs fu)) n g"
    unfolding ds using obs_children_outside [OF ok out(2) A uk.traverse_good [OF ok1]] by simp
  also have "\<dots> = F (obs (?f xs fu) n g)" by (rule step [OF ok1])
  also have "\<dots> = F (obs fu n g)" using obs_children_outside [OF ok out(1) A fu] by simp
  finally show ?thesis .
qed


lemma route_on_filter: "route_on g (filter (\<lambda>r. P (rt_faceId r)) rs) = (if P g then route_on g rs else None)"
  by (induction rs) auto

lemma obs_traverse:
  assumes ok: "links_ok t" and n: "tab_get t n = Some en"
  shows "tab_get t c = Some e \<Longrightarrow> prefix c n \<Longrightarrow> distinct (map rt_faceId A) \<Longrightarrow> updates_ok fu \<Longrightarrow>
     card {m. has_prefix m t \<and> prefix c m \<and> prefix m n} \<le> k \<Longrightarrow>
     obs (traverseSubTree k t c A R fu) n g =
       (if blocks g e \<or> blocked t c n g then obs fu n g else node_obs en A R g (obs fu n g))"
proof (induction k arbitrary: c e A R fu)
  case 0
  have "c \<in> {m. has_prefix m t \<and> prefix c m \<and> prefix m n}" using 0 by (simp add: has_prefix_def)
  with 0(5) show ?case using finite_chain [of t c n] by auto
next
  case (Suc k)
  let ?A = "filter (\<lambda>r. \<not> hasChildInheritOnFaceId (rt_faceId r) e) A"
  let ?R = "filter (\<lambda>r. \<not> hasChildInheritOnFaceId (rt_faceId r) e) R"
  have A: "distinct (map rt_faceId ?A)" using Suc.prems(3) by (rule distinct_map_filter)
  have on: "route_on g ?A = (if hasChildInheritOnFaceId g e then None else route_on g A)"
    "route_on g ?R = (if hasChildInheritOnFaceId g e then None else route_on g R)"
    using route_on_filter [of g "\<lambda>f. \<not> hasChildInheritOnFaceId f e"] by simp_all
  note fu1 = uk.inherited_good(4) [OF Suc.prems(4), of e ?A ?R]
  note node = obs_update_node [OF A Suc.prems(4), of e ?R n g, unfolded links_okD(1) [OF ok Suc.prems(1)]]
  have below: "findParent d t = Some c" "strict_prefix c d" "has_prefix d t" if "d \<in> set (re_children e)" for d
    using that links_okD(4) [OF ok Suc.prems(1)] findParent_found(1) by blast+
  show ?case
  proof (cases "hasCapture e")
    case True
    with Suc.prems show ?thesis by (simp add: blocks_def)
  next
    case free: False
    have trav: "traverseSubTree (Suc k) t c A R fu = fold (\<lambda>c. traverseSubTree k t c ?A ?R) (re_children e) (update_node e ?A ?R fu)"
      using free Suc.prems(1) by (simp add: Let_def)
    show ?thesis
    proof (cases "n = c")
      case True
      then have "\<not> prefix d n" if "d \<in> set (re_children e)" for d
        using below(2) [OF that] by (auto simp: strict_prefix_def intro: prefix_order.antisym)
      then have "obs (traverseSubTree (Suc k) t c A R fu) n g = node_obs e ?A ?R g (obs fu n g)"
        unfolding trav using obs_children_outside [OF ok _ A fu1] node True by simp
      moreover have "\<not> blocked t c n g" using True by (auto simp: blocked_def strict_prefix_def intro: prefix_order.antisym)
      moreover have "en = e" using n Suc.prems(1) True by simp
      ultimately show ?thesis using free by (simp add: blocks_def node_obs_def on)
    next
      case False
      have hc: "has_prefix c t" and hn: "has_prefix n t" and cn: "strict_prefix c n"
        using Suc.prems n False by (auto simp: has_prefix_def strict_prefix_def)
      from child_towards [OF hc hn cn] obtain d where d: "has_prefix d t" "findParent d t = Some c" "prefix d n" by blast
      then obtain ed where ed: "tab_get t d = Some ed" by (auto simp: has_prefix_def)
      have cd: "strict_prefix c d" using d(2) by (rule findParent_found(1))
      have k: "card {m. has_prefix m t \<and> prefix d m \<and> prefix m n} \<le> k"
        using chain_shrinks [OF hc Suc.prems(2) cd] Suc.prems(5) by simp
      from blocked_child [OF ed cd d(3) no_entry_between [OF d(2,3)], of g] Suc.IH [OF ed d(3) A _ k, of _ ?R]
      have step: "obs (traverseSubTree k t d ?A ?R fu) n g = (if blocked t c n g then obs fu n g else node_obs en ?A ?R g (obs fu n g))"
        if "updates_ok fu" for fu using that by simp
      have "x = d" if "x \<in> set (re_children e)" "prefix x n" for x
        using no_entry_between [OF d(2,3) below(3,2) [OF that(1)] that(2)] no_entry_between [OF below(1) [OF that(1)] that(2) d(1) cd d(3)]
        by (rule prefix_order.antisym [rotated])
      from obs_children_towards [OF ok _ d(3) links_okD(3) [OF ok Suc.prems(1)] this A fu1 step] d
      have "obs (traverseSubTree (Suc k) t c A R fu) n g =
          (if blocked t c n g then obs fu n g else node_obs en ?A ?R g (obs fu n g))"
        unfolding trav using links_okD(4) [OF ok Suc.prems(1)] node False by simp
      then show ?thesis using free by (simp add: blocks_def node_obs_def on)
    qed
  qed
qed

section \<open>What the FIB should hold\<close>

text \<open>
  A name without an entry has no nexthops.  An entry has a nexthop for each face of its own
  routes, at the lowest cost, and, unless it captures, one for each other face on which an
  ancestor not hidden by a capture has a child-inherit route, at the cost of the first such
  route of the nearest such ancestor.
\<close>

definition inherited_from :: "rib_table \<Rightarrow> name \<Rightarrow> nat \<Rightarrow> route option" where
  "inherited_from t n g =
     find (\<lambda>r. rt_faceId r = g \<and> isChildInherit r) (concat (map re_routes (until_capture (ancestors n t))))"

definition fib_spec :: "rib_table \<Rightarrow> fib_view" where
  "fib_spec t n g =
     (case tab_get t n of
        None \<Rightarrow> None
      | Some e \<Rightarrow>
          if hasFaceId g e then map_option rt_cost (getRouteWithLowestCostByFaceId g e)
          else if hasCapture e then None
          else map_option rt_cost (inherited_from t n g))"

text \<open>The inherited routes recorded in an entry.\<close>

definition inherited_ok :: "rib_table \<Rightarrow> bool" where
  "inherited_ok t \<longleftrightarrow>
     (\<forall>n e g. tab_get t n = Some e \<longrightarrow>
        (inherits g e \<longleftrightarrow> \<not> hasFaceId g e \<and> \<not> hasCapture e \<and> inherited_from t n g \<noteq> None))"

lemma inherited_from_step:
  "inherited_from t n g =
     (case findParent n t of
        None \<Rightarrow> None
      | Some q \<Rightarrow>
         (let e = the (tab_get t q) in
          case find (\<lambda>r. rt_faceId r = g \<and> isChildInherit r) (re_routes e) of
            Some r \<Rightarrow> Some r
          | None \<Rightarrow> if hasCapture e then None else inherited_from t q g))"
  by (cases "findParent n t") (simp_all add: inherited_from_def ancestors_parent [of n] find_append Let_def split: option.split)

lemma route_on_ancestors:
  assumes "links_ok t"
  shows "route_on g (getAncestorRoutes_name n t) = inherited_from t n g"
    "distinct (map rt_faceId (getAncestorRoutes_name n t))"
proof -
  have "find P (filter Q xs) = find (\<lambda>r. P r \<and> Q r) xs" for P Q and xs :: "route list" by (induction xs) auto
  then show "route_on g (getAncestorRoutes_name n t) = inherited_from t n g"
    by (simp add: ancestor_routes_fold [OF assms] find_routes_insert_all inheritable_def inherited_from_def)
  have "sorted_wrt (<) (map rt_faceId (getAncestorRoutes_name n t))"
    by (simp add: ancestor_routes_fold [OF assms] sorted_routes_insert_all)
  then show "distinct (map rt_faceId (getAncestorRoutes_name n t))" by (metis strict_sorted_iff)
qed

text \<open>Only the routes and the capture count of the entries matter.\<close>

lemma inherited_from_cong:
  assumes "\<And>m. map_option (\<lambda>e. (re_routes e, hasCapture e)) (tab_get t m) = map_option (\<lambda>e. (re_routes e, hasCapture e)) (tab_get t' m)"
  shows "inherited_from t n g = inherited_from t' n g"
proof (induction "length n" arbitrary: n rule: less_induct)
  case less
  have has: "has_prefix m t = has_prefix m t'" for m
    using assms [of m] by (cases "tab_get t m"; cases "tab_get t' m") (auto simp: has_prefix_def)
  have fp: "findParent n t = findParent n t'" by (rule findParent_cong [OF has])
  show ?case
  proof (cases "findParent n t")
    case None
    with fp show ?thesis by (simp add: inherited_from_step [of _ n])
  next
    case (Some q)
    note f = findParent_found [OF Some]
    obtain e where e: "tab_get t q = Some e" using f(2) by (auto simp: has_prefix_def)
    obtain e' where e': "tab_get t' q = Some e'" using f(2) has by (auto simp: has_prefix_def)
    have "re_routes e = re_routes e'" "hasCapture e = hasCapture e'" using assms [of q] e e' by simp_all
    moreover have "inherited_from t q g = inherited_from t' q g" using less f(1) prefix_length_less by blast
    ultimately show ?thesis using Some fp e e' by (simp add: inherited_from_step [of _ n] split: option.split)
  qed
qed

section \<open>A new entry\<close>

text \<open>
  The table after a new name with one route was inserted: what matters of the other entries
  is unchanged.
\<close>

definition inserted :: "name \<Rightarrow> route \<Rightarrow> rib_table \<Rightarrow> rib_table \<Rightarrow> bool" where
  "inserted p r t t' \<longleftrightarrow>
     \<not> has_prefix p t \<and>
     (\<exists>e. tab_get t' p = Some e \<and> re_routes e = [r] \<and> (hasCapture e \<longleftrightarrow> isRibCapture r) \<and> re_inherited e = []) \<and>
     (\<forall>m. m \<noteq> p \<longrightarrow> map_option (\<lambda>e. (re_routes e, hasCapture e, re_inherited e)) (tab_get t' m) =
                     map_option (\<lambda>e. (re_routes e, hasCapture e, re_inherited e)) (tab_get t m))"

lemma insertedD:
  assumes "inserted p r t t'"
  shows "\<not> has_prefix p t" "has_prefix m t' \<longleftrightarrow> m = p \<or> has_prefix m t"
    "\<exists>e. tab_get t' p = Some e \<and> re_routes e = [r] \<and> (hasCapture e \<longleftrightarrow> isRibCapture r) \<and> re_inherited e = []"
    "m \<noteq> p \<Longrightarrow> tab_get t m = Some e \<Longrightarrow>
      \<exists>e'. tab_get t' m = Some e' \<and> re_routes e' = re_routes e \<and> hasCapture e' = hasCapture e \<and> re_inherited e' = re_inherited e"
    "m \<noteq> p \<Longrightarrow> tab_get t m = None \<Longrightarrow> tab_get t' m = None"
  using assms unfolding inserted_def has_prefix_def by (cases "m = p"; force)+

lemma inserted_parent:
  assumes "inserted p r t t'"
  shows "findParent n t' = (if strict_prefix p n \<and> findParent n t = findParent p t then Some p else findParent n t)"
  using insertedD(1,2) [OF assms] by (rule findParent_insert)

text \<open>Entries strictly between the new name and a name below it.\<close>

definition hidden :: "rib_table \<Rightarrow> name \<Rightarrow> name \<Rightarrow> nat \<Rightarrow> bool" where
  "hidden t p n g \<longleftrightarrow> (\<exists>m e. tab_get t m = Some e \<and> strict_prefix p m \<and> strict_prefix m n \<and> blocks g e)"

lemma find_inherit: "find (\<lambda>r. rt_faceId r = g \<and> isChildInherit r) (re_routes e) = None \<longleftrightarrow> \<not> hasChildInheritOnFaceId g e"
  by (auto simp: find_None_iff hasChildInheritOnFaceId_def list_ex_iff isChildInherit_def)

lemma inherited_outside:
  assumes ins: "inserted p r t t'"
  shows "\<not> strict_prefix p n \<Longrightarrow> inherited_from t' n g = inherited_from t n g"
proof (induction "length n" arbitrary: n rule: less_induct)
  case less
  have fp: "findParent n t' = findParent n t" using less.prems by (simp add: inserted_parent [OF ins])
  show ?case
  proof (cases "findParent n t")
    case None
    with fp show ?thesis by (simp add: inherited_from_step [of _ n])
  next
    case (Some q)
    note f = findParent_found [OF Some]
    obtain e where e: "tab_get t q = Some e" using f(2) by (auto simp: has_prefix_def)
    have "q \<noteq> p" using f(2) insertedD(1) [OF ins] by blast
    from insertedD(4) [OF ins this e] obtain e' where
      e': "tab_get t' q = Some e'" "re_routes e' = re_routes e" "hasCapture e' = hasCapture e" by blast
    have "\<not> strict_prefix p q" using less.prems f(1) prefix_order.less_trans by blast
    then have "inherited_from t' q g = inherited_from t q g" using less.hyps f(1) prefix_length_less by blast
    with Some fp e e' show ?thesis by (simp add: inherited_from_step [of _ n] split: option.split)
  qed
qed

definition new_inherited :: "route \<Rightarrow> nat \<Rightarrow> route option \<Rightarrow> route option" where
  "new_inherited r g old = (if isChildInherit r \<and> rt_faceId r = g then Some r else if isRibCapture r then None else old)"

lemma inherited_below:
  assumes ins: "inserted p r t t'"
  shows "strict_prefix p n \<Longrightarrow>
    (if hidden t p n g then inherited_from t' n g = inherited_from t n g
     else inherited_from t' n g = new_inherited r g (inherited_from t p g) \<and> inherited_from t n g = inherited_from t p g)"
proof (induction "length n" arbitrary: n rule: less_induct)
  case less
  obtain ep where ep: "tab_get t' p = Some ep" "re_routes ep = [r]" "hasCapture ep \<longleftrightarrow> isRibCapture r"
    using insertedD(3) [OF ins] by blast
  have at_p: "inherited_from t' p g = inherited_from t p g" by (rule inherited_outside [OF ins]) simp
  show ?case
  proof (cases "findParent n t = findParent p t")
    case True
    with less.prems have fp: "findParent n t' = Some p" by (simp add: inserted_parent [OF ins])
    have "\<not> hidden t p n g"
    proof
      assume "hidden t p n g"
      then obtain m where m: "has_prefix m t" "strict_prefix p m" "strict_prefix m n" by (auto simp: hidden_def has_prefix_def)
      then obtain q where q: "findParent n t = Some q" by (cases "findParent n t") (auto simp: findParent_None)
      then have "prefix m q" using m findParent_found(3) by blast
      moreover have "strict_prefix q p" using q True findParent_found(1) by metis
      ultimately show False using m(2) by (meson prefix_order.le_less_trans prefix_order.less_asym prefix_order.less_trans)
    qed
    moreover have "inherited_from t' n g = new_inherited r g (inherited_from t p g)"
      using ep at_p by (simp add: inherited_from_step [of _ n] fp new_inherited_def)
    moreover have "inherited_from t n g = inherited_from t p g" using True by (simp add: inherited_from_step [of _ n] inherited_from_step [of _ p])
    ultimately show ?thesis by simp
  next
    case False
    then have fp: "findParent n t' = findParent n t" by (simp add: inserted_parent [OF ins])
    obtain q where q: "findParent n t' = Some q"
      using less.prems insertedD(2) [OF ins] by (cases "findParent n t'") (auto simp: findParent_None)
    note f' = findParent_found [OF q] and f = findParent_found [OF q [unfolded fp]]
    have "q \<noteq> p" using f(2) insertedD(1) [OF ins] by blast
    moreover have "prefix p q" using f'(3) [of p] less.prems insertedD(2) [OF ins] by blast
    ultimately have pq: "strict_prefix p q" by (auto simp: strict_prefix_def)
    obtain e where e: "tab_get t q = Some e" using f(2) by (auto simp: has_prefix_def)
    from insertedD(4) [OF ins \<open>q \<noteq> p\<close> e] obtain e' where
      e': "tab_get t' q = Some e'" "re_routes e' = re_routes e" "hasCapture e' = hasCapture e" by blast
    show ?thesis
    proof (cases "blocks g e")
      case True
      then have "hidden t p n g" using e pq f(1) by (auto simp: hidden_def)
      moreover have "inherited_from t' n g = inherited_from t n g"
        using True q fp e e' find_inherit [of g e] by (auto simp: inherited_from_step [of _ n] blocks_def split: option.split)
      ultimately show ?thesis by simp
    next
      case pass: False
      then have "inherited_from t' n g = inherited_from t' q g" "inherited_from t n g = inherited_from t q g"
        using q fp e e' find_inherit [of g e] by (simp_all add: inherited_from_step [of _ n] blocks_def)
      moreover have "hidden t p n g \<longleftrightarrow> hidden t p q g"
      proof
        assume "hidden t p n g"
        then obtain m em where m: "tab_get t m = Some em" "strict_prefix p m" "strict_prefix m n" "blocks g em" by (auto simp: hidden_def)
        then have "prefix m q" using f(3) [of m] by (simp add: has_prefix_def)
        moreover have "m \<noteq> q" using m e pass by auto
        ultimately show "hidden t p q g" using m by (auto simp: hidden_def strict_prefix_def)
      next
        assume "hidden t p q g"
        then show "hidden t p n g" using f(1) prefix_order.less_trans unfolding hidden_def by blast
      qed
      ultimately show ?thesis using less.hyps [OF prefix_length_less [OF f(1)] pq] by simp
    qed
  qed
qed

section \<open>The updates for a new entry\<close>

definition new_children :: "name \<Rightarrow> rib_table \<Rightarrow> name list" where
  "new_children p t =
     filter (\<lambda>d. Option.bind (tab_get t d) re_parent = findParent p t) (findDescendantsForNonInsertedName p t)"

lemma new_children_set:
  assumes ok: "links_ok t" and new: "\<not> has_prefix p t"
  shows "d \<in> set (new_children p t) \<longleftrightarrow> has_prefix d t \<and> strict_prefix p d \<and> findParent d t = findParent p t"
proof (cases "tab_get t d")
  case None
  then show ?thesis by (auto simp: new_children_def findDescendantsForNonInsertedName_def has_prefix_def tab_get_None_keys)
next
  case (Some e)
  then have "has_prefix d t" by (simp add: has_prefix_def)
  then have "d \<in> fst ` set t" "d \<noteq> p" using new by (auto simp: has_prefix_keys)
  moreover have "re_parent e = findParent d t" using ok Some by (rule links_okD(2))
  ultimately show ?thesis using Some \<open>has_prefix d t\<close>
    by (auto simp: new_children_def findDescendantsForNonInsertedName_def isPrefixOf_prefix strict_prefix_def)
qed

lemma distinct_new_children: "sorted_wrt (<) (map fst t) \<Longrightarrow> distinct (new_children p t)"
  unfolding new_children_def findDescendantsForNonInsertedName_def
  by (intro distinct_filter distinct_map_filter sorted_keys_distinct)

lemma obs_new_children:
  assumes ok: "links_ok t" and sorted: "sorted_wrt (<) (map fst t)" and new: "\<not> has_prefix p t"
    and A: "distinct (map rt_faceId A)" and fu: "updates_ok fu"
  shows "obs (modifyChildrensInheritedRoutes t (new_children p t) A R fu) n g =
    (if has_prefix n t \<and> strict_prefix p n \<and> \<not> blocked t p n g then node_obs (the (tab_get t n)) A R g (obs fu n g) else obs fu n g)"
proof (cases "has_prefix n t \<and> strict_prefix p n")
  case False
  have "\<not> (has_prefix n t \<and> prefix d n)" if "d \<in> set (new_children p t)" for d
    using that False new_children_set [OF ok new] prefix_order.less_le_trans by blast
  then have "obs (modifyChildrensInheritedRoutes t (new_children p t) A R fu) n g = obs fu n g"
    unfolding modifyChildrensInheritedRoutes_def by (rule obs_children_outside [OF ok _ A fu])
  with False show ?thesis by auto
next
  case True
  then obtain en where en: "tab_get t n = Some en" by (auto simp: has_prefix_def)
  define t' where "t' = rib_emplace p en t"
  have has': "has_prefix m t' \<longleftrightarrow> m = p \<or> has_prefix m t" for m unfolding t'_def by (rule has_prefix_emplace [OF new])
  note fp' = findParent_insert [OF new has']
  have child: "d \<in> set (new_children p t) \<longleftrightarrow> has_prefix d t \<and> findParent d t' = Some p" for d
    using new_children_set [OF ok new] new findParent_found(2) [of d t p] by (auto simp: fp')
  from child_towards [of p t' n] True has' obtain d where d: "has_prefix d t'" "findParent d t' = Some p" "prefix d n" by blast
  have pd: "strict_prefix p d" using d(2) by (rule findParent_found(1))
  with d(1) has' have dt: "has_prefix d t" by auto
  then obtain ed where ed: "tab_get t d = Some ed" by (auto simp: has_prefix_def)
  have between: "prefix d m" if "has_prefix m t" "strict_prefix p m" "prefix m n" for m
    using no_entry_between [OF d(2,3)] that has' by blast
  have uniq: "x = d" if "x \<in> set (new_children p t)" "prefix x n" for x
  proof (rule prefix_order.antisym)
    have x: "findParent x t' = Some p" "has_prefix x t" using that child by auto
    show "prefix x d" using no_entry_between [OF x(1) that(2) d(1) pd d(3)] .
    show "prefix d x" using between [OF x(2) findParent_found(1) [OF x(1)] that(2)] .
  qed
  have "obs (modifyChildrensInheritedRoutes t (new_children p t) A R fu) n g =
      (if blocked t p n g then obs fu n g else node_obs en A R g (obs fu n g))"
    unfolding modifyChildrensInheritedRoutes_def
  proof (rule obs_children_towards [OF ok _ d(3) distinct_new_children [OF sorted] uniq A fu])
    show "d \<in> set (new_children p t)" using child dt d(2) by simp
    show "obs (traverseSubTree (length t) t d A R fu) n g = (if blocked t p n g then obs fu n g else node_obs en A R g (obs fu n g))"
      if "updates_ok fu" for fu
      using obs_traverse [OF ok en ed d(3) A that chain_length, of R g] blocked_child [OF ed pd d(3) between, of g] by simp
  qed
  with True en show ?thesis by simp
qed


text \<open>The routes handed down to, and taken away from, the names below a new entry.\<close>

definition handed_down :: "rib_table \<Rightarrow> name \<Rightarrow> route \<Rightarrow> route list" where
  "handed_down t p r =
     (if isChildInherit r then
        (if isRibCapture r then [r] else routes_insert r (filter (\<lambda>x. rt_faceId x \<noteq> rt_faceId r) (getAncestorRoutes_name p t)))
      else [])"

definition taken_away :: "rib_table \<Rightarrow> name \<Rightarrow> route \<Rightarrow> route list" where
  "taken_away t p r = (if isRibCapture r then getAncestorRoutes_name p t else [])"

lemma handed_down_on:
  assumes "links_ok t"
  shows "route_on g (handed_down t p r) =
      (if isChildInherit r then (if rt_faceId r = g then Some r else if isRibCapture r then None else inherited_from t p g) else None)"
    "distinct (map rt_faceId (handed_down t p r))"
    "route_on g (taken_away t p r) = (if isRibCapture r then inherited_from t p g else None)"
proof -
  let ?F = "filter (\<lambda>x. rt_faceId x \<noteq> rt_faceId r) (getAncestorRoutes_name p t)"
  have "route_on g ?F = (if g \<noteq> rt_faceId r then inherited_from t p g else None)" for g
    using route_on_filter [of g "\<lambda>f. f \<noteq> rt_faceId r"] route_on_ancestors(1) [OF assms] by simp
  then show "route_on g (handed_down t p r) =
      (if isChildInherit r then (if rt_faceId r = g then Some r else if isRibCapture r then None else inherited_from t p g) else None)"
    by (auto simp: handed_down_def find_routes_insert split: option.split)
  have "sorted_wrt (<) (map rt_faceId (getAncestorRoutes_name p t))"
    by (simp add: ancestor_routes_fold [OF assms] sorted_routes_insert_all)
  then have "sorted_wrt (<) (map rt_faceId ?F)" unfolding sorted_wrt_map by (rule sorted_wrt_filter)
  then have "sorted_wrt (<) (map rt_faceId (routes_insert r ?F))" by (rule sorted_routes_insert)
  then have "distinct (map rt_faceId (routes_insert r ?F))" by (metis strict_sorted_iff)
  then show "distinct (map rt_faceId (handed_down t p r))" by (simp add: handed_down_def)
  show "route_on g (taken_away t p r) = (if isRibCapture r then inherited_from t p g else None)"
    by (simp add: taken_away_def route_on_ancestors(1) [OF assms])
qed

lemma obs_new_entry:
  assumes ok: "links_ok t" and sorted: "sorted_wrt (<) (map fst t)" and new: "\<not> has_prefix p t"
    and fu: "updates_ok fu" "\<And>n g. obs fu n g = (None, None)"
  shows "obs (createFibUpdatesForNewRibEntry t p r (new_children p t) fu) n g =
    (if n = p then
       (if g = rt_faceId r then (Some (Some (rt_cost r)), None)
        else if isRibCapture r then (None, None)
        else (map_option (\<lambda>x. Some (rt_cost x)) (inherited_from t p g), map_option (\<lambda>x. True) (inherited_from t p g)))
     else if has_prefix n t \<and> strict_prefix p n \<and> \<not> blocked t p n g
     then node_obs (the (tab_get t n)) (handed_down t p r) (taken_away t p r) g (None, None) else (None, None))"
proof -
  define fu1 where "fu1 = addFibUpdate (createAddUpdate p (rt_faceId r) (rt_cost r)) fu"
  define fu2 where "fu2 = (if isRibCapture r then fu1 else addInheritedRoutes_name p (getAncestorRoutes_name p t) r fu1)"
  have ok1: "updates_ok fu1" unfolding fu1_def by (rule uk.fib [OF fu(1)])
  then have ok2: "updates_ok fu2" by (simp add: fu2_def uk.inherited_good)
  have obs1: "obs fu1 n g = (if n = p \<and> g = rt_faceId r then (Some (Some (rt_cost r)), None) else (None, None))" for n g
    using fu(2) [of n g] by (auto simp: fu1_def obs_def fib_obs_add [OF fu(1)] createAddUpdate_def update_key_def update_effect_def)
  have "obs (addInheritedRoutes_name p (getAncestorRoutes_name p t) r fu1) n g =
      (case inherited_from t p g of
         Some x \<Rightarrow> if n = p \<and> g \<noteq> rt_faceId r then (Some (Some (rt_cost x)), Some True) else obs fu1 n g
       | None \<Rightarrow> obs fu1 n g)" for n g
    unfolding addInheritedRoutes_name_def
    using obs_give_all [OF route_on_ancestors(2) [OF ok] ok1, of "\<lambda>f. f \<noteq> rt_faceId r" p p n g] by (simp add: route_on_ancestors(1) [OF ok])
  then have obs2: "obs fu2 n g =
    (if n = p then
       (if g = rt_faceId r then (Some (Some (rt_cost r)), None)
        else if isRibCapture r then (None, None)
        else (map_option (\<lambda>x. Some (rt_cost x)) (inherited_from t p g), map_option (\<lambda>x. True) (inherited_from t p g)))
     else (None, None))" for n g by (auto simp: fu2_def obs1 split: option.split)
  have "createFibUpdatesForNewRibEntry t p r (new_children p t) fu =
     (if isChildInherit r \<or> isRibCapture r
      then modifyChildrensInheritedRoutes t (new_children p t) (handed_down t p r) (taken_away t p r) fu2 else fu2)"
    by (simp add: createFibUpdatesForNewRibEntry_def fu1_def [symmetric] fu2_def handed_down_def taken_away_def Let_def)
  moreover have "node_obs e (handed_down t p r) (taken_away t p r) g x = x" if "\<not> isChildInherit r" "\<not> isRibCapture r" for e x
    using that by (simp add: node_obs_def handed_down_on [OF ok])
  ultimately show ?thesis
    using obs_new_children [OF ok sorted new handed_down_on(2) [OF ok, of p r] ok2, of "taken_away t p r" n g] obs2 new by auto
qed

section \<open>The recorded inherited routes\<close>

definition inh_of :: "rib_update list \<Rightarrow> name \<Rightarrow> nat \<Rightarrow> bool option" where
  "inh_of us n g =
     (let xs = filter (\<lambda>u. ru_name u = n \<and> rt_faceId (ru_route u) = g) us
      in if xs = [] then None else Some (ru_action (last xs) = REGISTER))"

lemma inh_obs_of: "inh_obs fu = inh_of (fu_inheritedRoutes fu)"
  by (simp add: inh_obs_def inh_of_def fun_eq_iff)

definition no_face_removal :: "fib_updater \<Rightarrow> bool" where
  "no_face_removal fu \<longleftrightarrow> (\<forall>u\<in>set (fu_inheritedRoutes fu). ru_action u \<noteq> REMOVE_FACE)"

interpretation nf: updater_invariant no_face_removal
  by unfold_locales (auto simp: no_face_removal_def addFibUpdate_def addInheritedRoute_def removeInheritedRoute_def)

lemma inh_of_snoc:
  "inh_of (us @ [u]) n g = (if ru_name u = n \<and> rt_faceId (ru_route u) = g then Some (ru_action u = REGISTER) else inh_of us n g)"
  by (simp add: inh_of_def)

text \<open>What the computation of inherited routes and of nexthops reads of an entry.\<close>

definition entry_view :: "nat \<Rightarrow> rib_entry \<Rightarrow> route list \<times> bool \<times> bool" where
  "entry_view g e = (re_routes e, hasCapture e, inherits g e)"

lemma modifyInherited_view:
  assumes "\<forall>u\<in>set us. ru_action u \<noteq> REMOVE_FACE"
  shows "map_option (entry_view g) (tab_get (modifyInheritedRoutes us t) n) =
    map_option (\<lambda>e. (re_routes e, hasCapture e, case inh_of us n g of None \<Rightarrow> inherits g e | Some b \<Rightarrow> b)) (tab_get t n)"
  using assms
proof (induction us rule: rev_induct)
  case Nil
  show ?case by (simp add: modifyInheritedRoutes_def inh_of_def entry_view_def [abs_def])
next
  case (snoc u us)
  let ?t = "modifyInheritedRoutes us t"
  have add: "re_routes (re_addInheritedRoute r e) = re_routes e" "hasCapture (re_addInheritedRoute r e) = hasCapture e"
    "inherits g (re_addInheritedRoute r e) \<longleftrightarrow> g = rt_faceId r \<or> inherits g e"
    "re_routes (re_removeInheritedRoute r e) = re_routes e" "hasCapture (re_removeInheritedRoute r e) = hasCapture e"
    "inherits g (re_removeInheritedRoute r e) \<longleftrightarrow> g \<noteq> rt_faceId r \<and> inherits g e" for g r e
    by (auto simp: re_addInheritedRoute_def re_removeInheritedRoute_def inherits_def hasCapture_def list_ex_iff)
  have step: "modifyInheritedRoutes (us @ [u]) t =
     (case ru_action u of REGISTER \<Rightarrow> tab_modify (ru_name u) (re_addInheritedRoute (ru_route u)) ?t
      | UNREGISTER \<Rightarrow> tab_modify (ru_name u) (re_removeInheritedRoute (ru_route u)) ?t | REMOVE_FACE \<Rightarrow> ?t)"
    unfolding modifyInheritedRoutes_def by simp
  have IH: "map_option (entry_view g) (tab_get ?t n) =
    map_option (\<lambda>e. (re_routes e, hasCapture e, case inh_of us n g of None \<Rightarrow> inherits g e | Some b \<Rightarrow> b)) (tab_get t n)"
    using snoc by simp
  then show ?case using snoc.prems
    by (cases "tab_get ?t n"; cases "tab_get t n"; cases "ru_action u")
       (auto simp: step add inh_of_snoc entry_view_def split: option.splits)
qed

section \<open>Registration of a new prefix\<close>

definition fib_consistent :: "rib \<Rightarrow> fib_view \<Rightarrow> bool" where
  "fib_consistent rb v \<longleftrightarrow> v = fib_spec (rb_table rb) \<and> inherited_ok (rb_table rb)"

lemma link_entry_view:
  assumes "\<And>e q. h (e\<lparr>re_parent := q\<rparr>) = h e" "\<And>e cs. h (e\<lparr>re_children := cs\<rparr>) = h e"
  shows "map_option h (tab_get (link_entry p t) n) = map_option h (tab_get t n)"
proof -
  have add: "map_option h (tab_get (addChild a b t) n) = map_option h (tab_get t n)"
    and rem: "map_option h (tab_get (removeChild a b t) n) = map_option h (tab_get t n)" for a b t
    using assms by (simp_all add: addChild_def removeChild_def option.map_comp comp_def)
  have ad: "map_option h (tab_get (adopt a q b t) n) = map_option h (tab_get t n)" for a q b t
    by (simp add: adopt_def add rem split: option.split)
  have "map_option h (tab_get (fold (adopt a q) cs t) n) = map_option h (tab_get t n)" for a q cs t
    by (induction cs arbitrary: t) (simp_all add: ad)
  then show ?thesis by (simp add: link_entry_def Let_def add split: option.split)
qed

lemma Rib_insert_inserted:
  assumes new: "tab_get (rb_table rb) p = None"
  shows "inserted p r (rb_table rb) (rb_table (Rib_insert p r rb))"
proof -
  define e0 where "e0 = snd (insertRoute r \<lparr>re_id = rb_nextId rb, re_name = p, re_children = [], re_parent = None, re_routes = [],
                            re_inherited = [], re_nRoutesWithCaptureSet = 0\<rparr>)"
  let ?h = "\<lambda>e. (re_routes e, hasCapture e, re_inherited e)"
  have none: "\<not> has_prefix p (rb_table rb)" using new by (simp add: has_prefix_def)
  have "rb_table (Rib_insert p r rb) = link_entry p (rib_emplace p e0 (rb_table rb))"
    by (simp add: Rib_insert_def new e0_def Let_def)
  then have view: "map_option ?h (tab_get (rb_table (Rib_insert p r rb)) m) =
      map_option ?h (if m = p then Some e0 else tab_get (rb_table rb) m)" for m
    by (simp add: link_entry_view hasCapture_def get_emplace [OF none])
  have "?h e0 = ([r], isRibCapture r, [])" by (simp add: e0_def insertRoute_def findRoute_def hasCapture_def)
  with view [of p] obtain e where "tab_get (rb_table (Rib_insert p r rb)) p = Some e" "?h e = ([r], isRibCapture r, [])" by auto
  with view none show ?thesis unfolding inserted_def by auto
qed


text \<open>What an observation makes of a nexthop and of a recorded inherited route.\<close>

definition nexthop_after :: "nat option option \<times> bool option \<Rightarrow> nat option \<Rightarrow> nat option" where
  "nexthop_after ob old = (case fst ob of None \<Rightarrow> old | Some x \<Rightarrow> x)"

definition inherits_after :: "nat option option \<times> bool option \<Rightarrow> bool \<Rightarrow> bool" where
  "inherits_after ob old = (case snd ob of None \<Rightarrow> old | Some b \<Rightarrow> b)"

lemma inherited_okD:
  "inherited_ok t \<Longrightarrow> tab_get t n = Some e \<Longrightarrow> inherits g e \<longleftrightarrow> \<not> hasFaceId g e \<and> \<not> hasCapture e \<and> inherited_from t n g \<noteq> None"
  by (simp add: inherited_ok_def)

lemma blocked_hidden:
  "tab_get t n = Some e \<Longrightarrow> strict_prefix p n \<Longrightarrow> blocked t p n g \<longleftrightarrow> hidden t p n g \<or> blocks g e"
  unfolding blocked_def hidden_def by (metis option.inject prefix_order.eq_refl strict_prefix_def)

lemma child_inherit_own: "hasChildInheritOnFaceId g e \<Longrightarrow> hasFaceId g e"
  by (auto simp: hasChildInheritOnFaceId_def hasFaceId_def list_ex_iff)

lemma node_effect:
  fixes r :: route
  assumes links: "links_ok t" and free: "\<not> hasFaceId g e" and inh: "inherits g e \<longleftrightarrow> inherited_from t p g \<noteq> None"
  defines "ob \<equiv> node_obs e (handed_down t p r) (taken_away t p r) g (None, None)"
  shows "nexthop_after ob (map_option rt_cost (inherited_from t p g)) = map_option rt_cost (new_inherited r g (inherited_from t p g))"
    "inherits_after ob (inherits g e) \<longleftrightarrow> new_inherited r g (inherited_from t p g) \<noteq> None"
  unfolding ob_def node_obs_def handed_down_on [OF links] nexthop_after_def inherits_after_def new_inherited_def
  using free inh by (cases "inherited_from t p g"; auto)+

lemma fib_spec_entry:
  "tab_get t n = Some e \<Longrightarrow> fib_spec t n g =
     (if hasFaceId g e then map_option rt_cost (getRouteWithLowestCostByFaceId g e)
      else if hasCapture e then None else map_option rt_cost (inherited_from t n g))"
  by (simp add: fib_spec_def)

lemma below_effect:
  fixes g :: nat
  assumes ins: "inserted p r t t'" and links: "links_ok t" and io: "inherited_ok t"
    and e: "tab_get t n = Some e" and pn: "strict_prefix p n"
    and e': "tab_get t' n = Some e'" "re_routes e' = re_routes e" "hasCapture e' = hasCapture e"
  defines "ob \<equiv> (if \<not> blocked t p n g then node_obs e (handed_down t p r) (taken_away t p r) g (None, None) else (None, None))"
  shows "nexthop_after ob (fib_spec t n g) = fib_spec t' n g \<and>
    (inherits_after ob (inherits g e) \<longleftrightarrow> \<not> hasFaceId g e' \<and> \<not> hasCapture e' \<and> inherited_from t' n g \<noteq> None)"
proof -
  note inh = inherited_okD [OF io e, of g]
  have own: "hasFaceId g e' = hasFaceId g e" "getRouteWithLowestCostByFaceId g e' = getRouteWithLowestCostByFaceId g e"
    using e'(2) by (simp_all add: hasFaceId_def getRouteWithLowestCostByFaceId_def)
  note spec = fib_spec_entry [OF e, of g] fib_spec_entry [OF e'(1), of g, unfolded own e'(3)]
  consider (mine) "hasFaceId g e" | (capture) "\<not> hasFaceId g e" "hasCapture e" | (hidden) "\<not> hasFaceId g e" "\<not> hasCapture e" "hidden t p n g"
    | (reached) "\<not> hasFaceId g e" "\<not> hasCapture e" "\<not> hidden t p n g" by blast
  then show ?thesis
  proof cases
    case mine
    with inh have "ob = (None, None)" by (auto simp: ob_def node_obs_def Let_def split: option.split)
    with mine inh spec own show ?thesis by (simp add: nexthop_after_def inherits_after_def)
  next
    case capture
    then have "ob = (None, None)" using blocked_hidden [OF e pn] by (simp add: ob_def blocks_def)
    with capture inh spec own e'(3) show ?thesis by (simp add: nexthop_after_def inherits_after_def)
  next
    case hidden
    then have "ob = (None, None)" using blocked_hidden [OF e pn] by (simp add: ob_def)
    moreover have "inherited_from t' n g = inherited_from t n g" using inherited_below [OF ins pn, of g] hidden by simp
    ultimately show ?thesis using hidden inh spec own e'(3) by (simp add: nexthop_after_def inherits_after_def)
  next
    case reached
    then have "\<not> blocked t p n g" using blocked_hidden [OF e pn, of g] child_inherit_own by (auto simp: blocks_def)
    moreover have x: "inherited_from t' n g = new_inherited r g (inherited_from t p g)" "inherited_from t n g = inherited_from t p g"
      using inherited_below [OF ins pn, of g] reached by simp_all
    ultimately show ?thesis using reached inh spec own e'(3) node_effect [OF links reached(1), of p r]
      by (simp add: ob_def x)
  qed
qed


lemma entry_effect:
  assumes ins: "inserted p r t t'" and links: "links_ok t" and sorted: "sorted_wrt (<) (map fst t)" and io: "inherited_ok t"
    and fu: "updates_ok fu" "\<And>n g. obs fu n g = (None, None)"
  defines "ob \<equiv> obs (createFibUpdatesForNewRibEntry t p r (new_children p t) fu)"
  shows "nexthop_after (ob n g) (fib_spec t n g) = fib_spec t' n g"
    and "tab_get t' n = Some e' \<Longrightarrow>
      inherits_after (ob n g) (inherits g e') \<longleftrightarrow> \<not> hasFaceId g e' \<and> \<not> hasCapture e' \<and> inherited_from t' n g \<noteq> None"
proof -
  note new = insertedD(1) [OF ins]
  note ob = obs_new_entry [OF links sorted new fu, of r, folded ob_def]
  have "nexthop_after (ob n g) (fib_spec t n g) = fib_spec t' n g \<and> (\<forall>e'. tab_get t' n = Some e' \<longrightarrow>
      (inherits_after (ob n g) (inherits g e') \<longleftrightarrow> \<not> hasFaceId g e' \<and> \<not> hasCapture e' \<and> inherited_from t' n g \<noteq> None))"
  proof (cases "n = p")
    case True
    obtain ep where ep: "tab_get t' p = Some ep" "re_routes ep = [r]" "hasCapture ep \<longleftrightarrow> isRibCapture r" "re_inherited ep = []"
      using insertedD(3) [OF ins] by blast
    have "inherited_from t' p g = inherited_from t p g" by (rule inherited_outside [OF ins]) simp
    moreover have "fib_spec t p g = None" using new by (simp add: fib_spec_def has_prefix_def)
    moreover have "hasFaceId g ep \<longleftrightarrow> g = rt_faceId r" "\<not> inherits g ep" using ep by (auto simp: hasFaceId_def inherits_def)
    moreover have "g = rt_faceId r \<Longrightarrow> getRouteWithLowestCostByFaceId g ep = Some r"
      using ep(2) by (simp add: getRouteWithLowestCostByFaceId_def)
    ultimately show ?thesis using True ep fib_spec_entry [OF ep(1), of g]
      by (cases "inherited_from t p g") (auto simp: ob nexthop_after_def inherits_after_def)
  next
    case np: False
    show ?thesis
    proof (cases "tab_get t n")
      case None
      with np insertedD(5) [OF ins np] show ?thesis by (simp add: ob fib_spec_def nexthop_after_def has_prefix_def)
    next
      case (Some e)
      from insertedD(4) [OF ins np Some] obtain e' where e': "tab_get t' n = Some e'" "re_routes e' = re_routes e"
        "hasCapture e' = hasCapture e" "re_inherited e' = re_inherited e" by blast
      then have same: "inherits g e' = inherits g e" "hasFaceId g e' = hasFaceId g e"
          "getRouteWithLowestCostByFaceId g e' = getRouteWithLowestCostByFaceId g e"
        by (simp_all add: inherits_def hasFaceId_def getRouteWithLowestCostByFaceId_def)
      show ?thesis
      proof (cases "strict_prefix p n")
        case True
        have obe: "ob n g = (if \<not> blocked t p n g then node_obs e (handed_down t p r) (taken_away t p r) g (None, None) else (None, None))"
          using True Some np by (simp add: ob has_prefix_def)
        note eff = below_effect [OF ins links io Some True e'(1,2,3), of g, folded obe]
        show ?thesis using conjunct1 [OF eff] conjunct2 [OF eff] e'(1) same(1) by simp
      next
        case False
        with inherited_outside [OF ins False, of g] inherited_okD [OF io Some, of g] np e' same
          fib_spec_entry [OF Some, of g] fib_spec_entry [OF e'(1), of g]
        show ?thesis by (simp add: ob nexthop_after_def inherits_after_def)
      qed
    qed
  qed
  then show "nexthop_after (ob n g) (fib_spec t n g) = fib_spec t' n g"
    and "tab_get t' n = Some e' \<Longrightarrow>
      inherits_after (ob n g) (inherits g e') \<longleftrightarrow> \<not> hasFaceId g e' \<and> \<not> hasCapture e' \<and> inherited_from t' n g \<noteq> None"
    by blast+
qed

text \<open>The table with the new entry and with the inherited routes recorded.\<close>

lemma recorded_spec:
  assumes acts: "\<forall>u\<in>set us. ru_action u \<noteq> REMOVE_FACE"
    and rec: "\<And>n e g. tab_get t n = Some e \<Longrightarrow>
      (case inh_of us n g of None \<Rightarrow> inherits g e | Some b \<Rightarrow> b) \<longleftrightarrow> \<not> hasFaceId g e \<and> \<not> hasCapture e \<and> inherited_from t n g \<noteq> None"
  shows "fib_spec (modifyInheritedRoutes us t) = fib_spec t" "inherited_ok (modifyInheritedRoutes us t)"
proof -
  let ?t = "modifyInheritedRoutes us t"
  note view = modifyInherited_view [OF acts]
  have same: "\<exists>e. tab_get t n = Some e \<and> re_routes e'' = re_routes e \<and> hasCapture e'' = hasCapture e \<and>
      (inherits g e'' \<longleftrightarrow> (case inh_of us n g of None \<Rightarrow> inherits g e | Some b \<Rightarrow> b))" if "tab_get ?t n = Some e''" for n e'' g
    using view [of g t n] that by (cases "tab_get t n") (auto simp: entry_view_def)
  have none: "tab_get ?t n = None \<longleftrightarrow> tab_get t n = None" for n
    using view [of 0 t n] by (cases "tab_get ?t n"; cases "tab_get t n") auto
  have "map_option (\<lambda>e. (re_routes e, hasCapture e)) (tab_get ?t m) = map_option (\<lambda>e. (re_routes e, hasCapture e)) (tab_get t m)" for m
    using same [of m] none [of m] by (cases "tab_get ?t m") force+
  then have inh: "inherited_from ?t n g = inherited_from t n g" for n g by (rule inherited_from_cong)
  show "fib_spec ?t = fib_spec t"
  proof (rule ext, rule ext)
    fix n g
    show "fib_spec ?t n g = fib_spec t n g"
    proof (cases "tab_get ?t n")
      case None
      then have "tab_get t n = None" using none by blast
      with None show ?thesis by (simp add: fib_spec_def)
    next
      case (Some e'')
      from same [OF Some, of g] obtain e where "tab_get t n = Some e" "re_routes e'' = re_routes e" "hasCapture e'' = hasCapture e" by blast
      with Some inh show ?thesis by (simp add: fib_spec_def hasFaceId_def getRouteWithLowestCostByFaceId_def)
    qed
  qed
  show "inherited_ok ?t" unfolding inherited_ok_def
  proof (intro allI impI)
    fix n e'' g assume e'': "tab_get ?t n = Some e''"
    from same [OF e'', of g] obtain e where e: "tab_get t n = Some e" "re_routes e'' = re_routes e" "hasCapture e'' = hasCapture e"
      "inherits g e'' \<longleftrightarrow> (case inh_of us n g of None \<Rightarrow> inherits g e | Some b \<Rightarrow> b)" by blast
    have "hasFaceId g e'' = hasFaceId g e" using e(2) by (simp add: hasFaceId_def)
    with e rec [OF e(1), of g] inh show "inherits g e'' \<longleftrightarrow> \<not> hasFaceId g e'' \<and> \<not> hasCapture e'' \<and> inherited_from ?t n g \<noteq> None"
      by simp
  qed
qed

lemma new_prefix_consistent:
  fixes r :: route
  assumes ok: "rib_ok rb" and new: "tab_get (rb_table rb) p = None" and con: "fib_consistent rb v"
  defines "u \<equiv> \<lparr>ru_action = REGISTER, ru_name = p, ru_route = r\<rparr>"
  shows "\<exists>fu. computeUpdates (rb_table rb) u = Inr fu \<and> fib_consistent (complete_batch u (fu_inheritedRoutes fu) rb) (apply_updates fu v)"
proof -
  let ?t = "rb_table rb"
  define t' where "t' = rb_table (Rib_insert p r rb)"
  define fu0 where "fu0 = \<lparr>fu_batchFaceId = rt_faceId r, fu_updatesForBatchFaceId = [], fu_updatesForNonBatchFaceId = [], fu_inheritedRoutes = []\<rparr>"
  define fu where "fu = createFibUpdatesForNewRibEntry ?t p r (new_children p ?t) fu0"
  have fu0: "updates_ok fu0" "no_face_removal fu0" "\<And>n g. obs fu0 n g = (None, None)"
    by (simp_all add: fu0_def updates_ok_def no_face_removal_def obs_def fib_obs_def inh_obs_def all_updates_def)
  have comp: "computeUpdates ?t u = Inr fu"
    using new by (simp add: computeUpdates_def u_def computeUpdatesForRegistration_def fu_def fu0_def new_children_def Let_def)
  have fuok: "updates_ok fu" "no_face_removal fu" unfolding fu_def by (rule uk.changes_good(1) [OF fu0(1)], rule nf.changes_good(1) [OF fu0(2)])
  have ins: "inserted p r ?t t'" unfolding t'_def using new by (rule Rib_insert_inserted)
  have links: "links_ok ?t" and sorted: "sorted_wrt (<) (map fst ?t)" using ok by (simp_all add: rib_ok_def)
  have io: "inherited_ok ?t" and v: "v = fib_spec ?t" using con by (simp_all add: fib_consistent_def)
  note eff = entry_effect [OF ins links sorted io fu0(1,3), folded fu_def]
  have "apply_updates fu v n g = fib_spec t' n g" for n g
    using eff(1) [of n g] by (simp add: apply_updates_obs [OF fuok(1)] nexthop_after_def obs_def v)
  then have "apply_updates fu v = fib_spec t'" by (simp add: fun_eq_iff)
  moreover have "(case inh_of (fu_inheritedRoutes fu) n g of None \<Rightarrow> inherits g e | Some b \<Rightarrow> b) \<longleftrightarrow>
      \<not> hasFaceId g e \<and> \<not> hasCapture e \<and> inherited_from t' n g \<noteq> None" if "tab_get t' n = Some e" for n e g
    using eff(2) [OF that, of g] by (simp add: inherits_after_def obs_def inh_obs_of)
  note rec = recorded_spec [OF fuok(2) [unfolded no_face_removal_def] this]
  moreover have "rb_table (complete_batch u (fu_inheritedRoutes fu) rb) = modifyInheritedRoutes (fu_inheritedRoutes fu) t'"
    by (simp add: complete_batch_def u_def t'_def Let_def)
  ultimately show ?thesis using comp by (simp add: fib_consistent_def)
qed


abbreviation routes_at :: "rib \<Rightarrow> name \<Rightarrow> route list option" where
  "routes_at rb n \<equiv> map_option re_routes (tab_get (rb_table rb) n)"

lemma routes_rows: "map_option re_routes (tab_get (rows t) q) = map_option re_routes (tab_get t q)"
  by (induction t) (auto simp: rows_def)

lemma new_prefix_routes:
  assumes new: "tab_get (rb_table rb) p = None"
  shows "routes_at (complete_batch \<lparr>ru_action = REGISTER, ru_name = p, ru_route = r\<rparr> us rb) q = (if q = p then Some [r] else routes_at rb q)"
proof -
  note ins = Rib_insert_inserted [OF new, of r]
  have "routes_at (complete_batch \<lparr>ru_action = REGISTER, ru_name = p, ru_route = r\<rparr> us rb) q = routes_at (Rib_insert p r rb) q"
    using routes_rows [of "modifyInheritedRoutes us (rb_table (Rib_insert p r rb))" q] routes_rows [of "rb_table (Rib_insert p r rb)" q]
    by (simp add: complete_batch_def Let_def)
  moreover have "routes_at (Rib_insert p r rb) p = Some [r]" using insertedD(3) [OF ins] by auto
  moreover have "routes_at (Rib_insert p r rb) q = routes_at rb q" if "q \<noteq> p"
    using insertedD(4,5) [OF ins that] by (cases "tab_get (rb_table rb) q") auto
  ultimately show ?thesis by simp
qed

text \<open>Registrations one after the other, every command to the FIB succeeding.\<close>

primrec register_all :: "(name \<times> route) list \<Rightarrow> rib \<times> fib_view \<Rightarrow> fault + rib \<times> fib_view" where
  "register_all [] s = Inr s"
| "register_all (x # xs) s =
     (let u = \<lparr>ru_action = REGISTER, ru_name = fst x, ru_route = snd x\<rparr> in
      bind_sum (computeUpdates (rb_table (fst s)) u)
        (\<lambda>fu. register_all xs (complete_batch u (fu_inheritedRoutes fu) (fst s), apply_updates fu (snd s))))"

lemma register_all_consistent:
  "rib_ok rb \<Longrightarrow> fib_consistent rb v \<Longrightarrow> distinct (map fst xs) \<Longrightarrow> (\<And>x. x \<in> set xs \<Longrightarrow> tab_get (rb_table rb) (fst x) = None) \<Longrightarrow>
     \<exists>rb' v'. register_all xs (rb, v) = Inr (rb', v') \<and> fib_consistent rb' v' \<and>
       (\<forall>q. routes_at rb' q = (case map_of xs q of Some r \<Rightarrow> Some [r] | None \<Rightarrow> routes_at rb q))"
proof (induction xs arbitrary: rb v)
  case (Cons x xs)
  obtain p r where x: "x = (p, r)" by (cases x)
  define u where "u = \<lparr>ru_action = REGISTER, ru_name = p, ru_route = r\<rparr>"
  have new: "tab_get (rb_table rb) p = None" using Cons.prems(4) x by force
  from new_prefix_consistent [OF Cons.prems(1) new Cons.prems(2), of r, folded u_def] obtain fu where
    fu: "computeUpdates (rb_table rb) u = Inr fu" and con: "fib_consistent (complete_batch u (fu_inheritedRoutes fu) rb) (apply_updates fu v)"
    by blast
  note at = new_prefix_routes [OF new, of r "fu_inheritedRoutes fu", folded u_def]
  have "tab_get (rb_table (complete_batch u (fu_inheritedRoutes fu) rb)) (fst y) = None" if "y \<in> set xs" for y
  proof -
    have "fst y \<noteq> p" "tab_get (rb_table rb) (fst y) = None" using Cons.prems(3,4) x that by (auto simp: image_iff)
    then show ?thesis using at [of "fst y"] by simp
  qed
  from Cons.IH [OF complete_batch_ok [OF Cons.prems(1)] con _ this] Cons.prems(3) obtain rb' v' where
    IH: "register_all xs (complete_batch u (fu_inheritedRoutes fu) rb, apply_updates fu v) = Inr (rb', v')" "fib_consistent rb' v'"
      "\<And>q. routes_at rb' q = (case map_of xs q of Some r \<Rightarrow> Some [r] | None \<Rightarrow> routes_at (complete_batch u (fu_inheritedRoutes fu) rb) q)"
    by auto
  have "map_of xs p = None" using Cons.prems(3) x by (simp add: map_of_eq_None_iff)
  with IH(3) have "routes_at rb' q = (case map_of (x # xs) q of Some r \<Rightarrow> Some [r] | None \<Rightarrow> routes_at rb q)" for q
    by (auto simp: x at split: option.split)
  with IH(1,2) fu show ?case by (simp add: x u_def [symmetric] Let_def)
qed simp

text \<open>C8: after any prefixes, all different, have been registered one after the other, in any
  order and with any flags, no registration has failed, the RIB holds their routes, and the
  FIB holds for every name and face exactly the nexthop that these routes call for, inherited
  ones included.\<close>

theorem fib_follows_registrations:
  assumes "distinct (map fst xs)"
  shows "\<exists>rb v. register_all xs (Rib_new, \<lambda>_ _. None) = Inr (rb, v) \<and> v = fib_spec (rb_table rb) \<and>
    (\<forall>p. routes_at rb p = map_option (\<lambda>r. [r]) (map_of xs p))"
proof -
  have "fib_consistent Rib_new (\<lambda>_ _. None)"
    by (simp add: fib_consistent_def Rib_new_def fib_spec_def inherited_ok_def fun_eq_iff)
  from register_all_consistent [OF rib_ok_new this assms] obtain rb v where
    "register_all xs (Rib_new, \<lambda>_ _. None) = Inr (rb, v)" "fib_consistent rb v"
    "\<forall>q. routes_at rb q = (case map_of xs q of Some r \<Rightarrow> Some [r] | None \<Rightarrow> routes_at Rib_new q)"
    by (auto simp: Rib_new_def)
  moreover have "routes_at Rib_new q = None" for q by (simp add: Rib_new_def)
  ultimately show ?thesis unfolding fib_consistent_def by (auto split: option.split)
qed

definition sample_prefixes :: "(name \<times> route) list" where
  "sample_prefixes = [([Component 8 [1], Component 8 [2]], sample_route 1 10 0), ([Component 8 [1]], sample_route 2 20 1)]"

theorem fib_follows_registrations_witness:
  "\<exists>rb v. register_all sample_prefixes (Rib_new, \<lambda>_ _. None) = Inr (rb, v) \<and> v = fib_spec (rb_table rb) \<and>
    routes_at rb [Component 8 [1]] = Some [sample_route 2 20 1]"
proof -
  have "distinct (map fst sample_prefixes)" by (simp add: sample_prefixes_def)
  from fib_follows_registrations [OF this] obtain rb v where
    "register_all sample_prefixes (Rib_new, \<lambda>_ _. None) = Inr (rb, v)" "v = fib_spec (rb_table rb)"
    "\<forall>p. routes_at rb p = map_option (\<lambda>r. [r]) (map_of sample_prefixes p)" by blast
  moreover have "map_of sample_prefixes [Component 8 [1]] = Some (sample_route 2 20 1)" by (simp add: sample_prefixes_def)
  ultimately show ?thesis by (metis option.simps(9))
qed

end
