(* ===== verification/Spec2Isabelle.thy ===== *)
theory Spec2Isabelle
  imports Name_Tree_Hashtable Interest_Codec Kite_Mobility Rib_Fib_Consistency
begin

text \<open>
  A model of the KITE fork of the NDN forwarding daemon, with the tables, the packet
  formats and the pipelines it is made of.

  \<^bold>\<open>The program.\<close>  The repository holds three C++ code bases under \<^verbatim>\<open>src/\<close>: the library
  \<^verbatim>\<open>kite-ndn-cxx\<close> (names, packets, the KITE request and acknowledgment), the forwarding daemon
  \<^verbatim>\<open>kite-NFD\<close> (tables, pipelines, strategies) and the tools \<^verbatim>\<open>kite-ndn-tools\<close>.  A packet that
  arrives at a face goes through the pipelines of \<^verbatim>\<open>daemon/fw/forwarder.cpp\<close>.  These use the tables
  of \<^verbatim>\<open>daemon/table\<close>, which share the nodes of one name tree, and ask the effective strategy of a
  PIT entry what to do.  The KITE strategy remembers pending Interests by producer, and sends them
  again when the producer registers from another place.  The nexthops in the FIB come from the
  routes registered with \<^verbatim>\<open>daemon/rib\<close>.

  \<^bold>\<open>Packets and names.\<close>
  \<^item> \<open>Tlv\<close>: numbers, blocks and their encoding (\<^verbatim>\<open>encoding/tlv.hpp\<close>, \<^verbatim>\<open>block.cpp\<close>, \<^verbatim>\<open>encoder.cpp\<close>).
    What was encoded is parsed back, and the fast number reader is the slow one.
  \<^item> \<open>Ndn_Name\<close>: components and names (\<^verbatim>\<open>name-component.cpp\<close>, \<^verbatim>\<open>name.cpp\<close>): order, successor, wire format.
  \<^item> \<open>Packet\<close>: the view the forwarder has of packets and faces, and how they match.
  \<^item> \<open>Data_Codec\<close>, \<open>Interest_Codec\<close>: the wire formats (\<^verbatim>\<open>data.cpp\<close>, \<^verbatim>\<open>interest.cpp\<close> and what they
    contain).  Encoding and decoding are inverse, and a decoded Interest is well-formed.
  \<^item> \<open>Kite_Packets\<close>: requests, acknowledgments and prefix announcements (\<^verbatim>\<open>kite/request.cpp\<close>,
    \<^verbatim>\<open>kite/ack.cpp\<close>, \<^verbatim>\<open>prefix-announcement.cpp\<close>), with their round trips.

  \<^bold>\<open>Tables\<close> (\<^verbatim>\<open>kite-NFD/daemon/table\<close>).
  \<^item> \<open>Table_Entries\<close>: the entries and their records.
  \<^item> \<open>Name_Tree\<close>, \<open>Name_Tree_Hashtable\<close>: the tree as a finite map from prefixes to nodes, and
    the hash table that implements such a map.
  \<^item> \<open>Fib_Table\<close>, \<open>Pit_Table\<close>, \<open>Measurements_Table\<close>, \<open>Strategy_Choice\<close>: the tables
    attached to the nodes; each has an invariant that its operations keep.
  \<^item> \<open>Content_Store\<close>, \<open>Dead_Nonce_List\<close>, \<open>Strategy_Registry\<close>: tables of their own.
  \<^item> \<open>Face_Cleanup\<close>: removing a face from the FIB, the PIT and the tree (\<^verbatim>\<open>cleanup.cpp\<close>).

  \<^bold>\<open>Forwarding\<close> (\<^verbatim>\<open>kite-NFD/daemon/fw\<close>).
  \<^item> \<open>Forwarder_State\<close>: the record \<open>fwd\<close> of all tables, counters and sent packets, the outgoing
    pipelines and the actions of strategies.
  \<^item> \<open>Strategies\<close>: best-route, multicast, random and KITE.
  \<^item> \<open>Forwarder\<close>: the incoming pipelines, the events of the daemon (\<open>fwd_step\<close>) and the states they
    reach (\<open>reachable\<close>).  A handler ends normally or with a fault, and keeps the state reached.
  \<^item> \<open>Strategy_Invariants\<close>, \<open>Forwarder_Invariants\<close>: what an invariant has to satisfy so that
    every strategy and every pipeline keeps it, as the locales \<open>strategy_invariant\<close> and
    \<open>pipeline_invariant\<close>.
  \<^item> \<open>Forwarder_Safety\<close>: their interpretations, for what is sent, for the tables and for timers.
  \<^item> \<open>Interest_Exchange\<close>: the way of an Interest and of the Data that answers it.
  \<^item> \<open>Forwarder_Runs\<close>, \<open>Fault_Freedom\<close>: what holds in every reachable state.
  \<^item> \<open>Kite_Nacks\<close>, \<open>Kite_Mobility\<close>: Nacks cause finitely many retransmissions, and pending
    Interests follow the producer.

  \<^bold>\<open>Routing\<close> (\<^verbatim>\<open>kite-NFD/daemon/rib\<close>).  Routes are registered with the routing information base, which
  tells the FIB of the nexthops and lets names inherit routes from their prefixes.
  \<^item> \<open>Rib_Table\<close>: routes, entries and their tree (\<^verbatim>\<open>route.cpp\<close>, \<^verbatim>\<open>rib-entry.cpp\<close>, \<^verbatim>\<open>rib.cpp\<close>), with the
    invariant \<open>rib_ok\<close> that insertion and removal keep, and which routes a name inherits.
  \<^item> \<open>Fib_Updater\<close>: the FIB updates for a change of the RIB (\<^verbatim>\<open>fib-updater.cpp\<close>), the queue of changes
    and the answers of the FIB (\<open>rib_handle\<close>, \<open>rib_run\<close>).  The locale \<open>updater_invariant\<close> says what the
    computation of updates keeps.  The queue does not get stuck unless a command is rejected.
  \<^item> \<open>Rib_Fib_Consistency\<close>: what the FIB should hold (\<open>fib_spec\<close>), and that the updates for a new
    prefix bring it there.

  \<^bold>\<open>Conventions.\<close>  Pointers between entries are names (of tree nodes) or numbers (of PIT entries).
  Times are integers in nanoseconds, and the clock is part of an environment that every handler
  gets.  The environment also holds the code outside the program: hashing, conversion of dates and
  numbers, and shuffling.  A call through a null pointer and an exception that escapes are values of
  the type \<open>fault\<close>.  Sent packets are appended to a list of actions.  All definitions are total:
  loops run over lists, or end by a measure that is proved.  Only the walks along the pointers of the
  RIB tree take fuel, the number of its entries; a chain of parents or of children is never longer,
  and the results are proved to be those of the full walk.

  \<^bold>\<open>Not modelled.\<close>  Faces, links and transports are I/O; a face is its identifier, scope and link type.
  The management protocol with the managers that dispatch its commands, configuration files, logging
  and the bundled libraries (websocketpp, nonstd) are left out.  So are the access, ASF and self-learning strategies, the command-line tools,
  and cryptography, whose results are parameters.
\<close>

end
